(* ===== verification/Prelude.thy ===== *)
theory Prelude
  imports Main "HOL-Library.Word" "HOL-Library.Char_ord" "HOL-Library.List_Lexorder"
    "HOL-Library.Multiset" "HOL-Library.AList"
begin

text \<open>
  Shared vocabulary of the development.

  \<^item> Machine integers keep their width: \<open>u16\<close>, \<open>u32\<close> and \<open>u64\<close> are words, whose \<open>+\<close> and
    \<open>*\<close> wrap as a release build of the crates does (the workspace sets no
    \<open>overflow-checks\<close>). \<open>usize\<close> values that only count or index what is in memory are
    \<open>nat\<close>.
  \<^item> A byte is the eight-bit type \<open>char\<close>, so a Rust \<open>String\<close> is a \<open>string\<close>: the list of
    its UTF-8 bytes, and \<open>as_bytes\<close> is the identity. \<open>valid_utf8\<close> is the check
    \<open>std::str::from_utf8\<close> makes.
  \<^item> A panic is the value \<open>None\<close> of an option; an \<open>Err\<close> is \<open>Inl\<close> of a sum.
  \<^item> Little-endian integers, saturating arithmetic, \<open>Bytes::slice\<close>, \<open>max_by_key\<close>, maps, decimal
    formatting and \<open>split_once\<close> are the parts of the Rust standard library the crates use.
  \<^item> \<open>invariant_system\<close> is the contract shared by every component whose state is changed by
    a set of operations: an initial state, a step relation and an invariant.
\<close>

section \<open>Types\<close>

type_synonym u8 = char
type_synonym bytes = "u8 list"
type_synonym u16 = "16 word"
type_synonym u32 = "32 word"
type_synonym u64 = "64 word"
type_synonym range = "u64 \<times> u64" \<comment> \<open>half-open, \<open>start..end\<close>\<close>

named_theorems word_facts \<open>reading word arithmetic through \<open>unat\<close>\<close>
named_theorems le_facts \<open>little-endian encodings\<close>

section \<open>Words\<close>

lemma unat_min_word [word_facts]: "unat (min a b) = min (unat a) (unat b)" for a b :: "'a::len word"
  by (simp add: min_def word_le_nat_alt)

lemma unat_max_word [word_facts]: "unat (max a b) = max (unat a) (unat b)" for a b :: "'a::len word"
  by (simp add: max_def word_le_nat_alt)

lemmas [word_facts] = word_less_nat_alt word_le_nat_alt unat_div

lemma unat_add_no_wrap: "unat a + unat b < 2 ^ LENGTH('a) \<Longrightarrow> unat (a + b) = unat a + unat b"
  for a b :: "'a::len word"
  by (simp add: unat_word_ariths)

lemma unat_mult_no_wrap: "unat a * unat b < 2 ^ LENGTH('a) \<Longrightarrow> unat (a * b) = unat a * unat b"
  for a b :: "'a::len word"
  by (simp add: unat_word_ariths)

lemma unat_bound: "unat a < 2 ^ LENGTH('a)" for a :: "'a::len word"
  by (rule unsigned_less)

lemma unat_u64_bound: "unat a < 18446744073709551616" for a :: u64
  using unat_bound [of a] by simp

text \<open>\<open>u64::saturating_add\<close> and its kin: clamp at the maximum instead of wrapping.\<close>

definition saturating_add :: "'a::len word \<Rightarrow> 'a word \<Rightarrow> 'a word" where
  "saturating_add a b = (if unat a + unat b < 2 ^ LENGTH('a) then a + b else - 1)"

definition saturating_sub :: "'a::len word \<Rightarrow> 'a word \<Rightarrow> 'a word" where
  "saturating_sub a b = (if b \<le> a then a - b else 0)"

definition saturating_mul :: "'a::len word \<Rightarrow> 'a word \<Rightarrow> 'a word" where
  "saturating_mul a b = (if unat a * unat b < 2 ^ LENGTH('a) then a * b else - 1)"

lemma unat_max_value: "unat (- 1 :: 'a::len word) = 2 ^ LENGTH('a) - 1"
  by (simp add: unsigned_minus_1_eq_mask mask_eq_exp_minus_1)

lemma unat_saturating_add [word_facts]:
  "unat (saturating_add a b) = min (unat a + unat b) (2 ^ LENGTH('a) - 1)" for a b :: "'a::len word"
  by (auto simp: saturating_add_def unat_add_no_wrap unat_max_value min_def)

lemma unat_saturating_sub [word_facts]:
  "unat (saturating_sub a b) = unat a - unat b" for a b :: "'a::len word"
  by (simp add: saturating_sub_def unat_sub word_le_nat_alt)

lemma unat_saturating_mul [word_facts]:
  "unat (saturating_mul a b) = min (unat a * unat b) (2 ^ LENGTH('a) - 1)" for a b :: "'a::len word"
proof (cases "unat a * unat b < 2 ^ LENGTH('a)")
  case True
  then have "unat a * unat b \<le> 2 ^ LENGTH('a) - 1" by linarith
  with True show ?thesis by (simp add: saturating_mul_def unat_mult_no_wrap min_absorb1)
next
  case False
  then have "2 ^ LENGTH('a) - 1 \<le> unat a * unat b" by linarith
  with False show ?thesis by (simp add: saturating_mul_def unat_max_value min_absorb2)
qed

text \<open>\<open>a.div_ceil(b)\<close>; the source only calls it with a positive divisor.\<close>

definition div_ceil :: "u64 \<Rightarrow> u64 \<Rightarrow> u64" where
  "div_ceil a b = (let q = a div b in if a mod b = 0 then q else q + 1)"

lemma div_of_block: "r < b \<Longrightarrow> (b * k + r) div b = k" for b k r :: nat
  by simp

section \<open>Byte strings\<close>

text \<open>\<open>Bytes::slice(from..to)\<close> and slice indexing: a panic (\<open>None\<close>) out of range.\<close>

definition bytes_slice :: "'a list \<Rightarrow> nat \<Rightarrow> nat \<Rightarrow> 'a list option" where
  "bytes_slice b i j = (if i \<le> j \<and> j \<le> length b then Some (take (j - i) (drop i b)) else None)"

text \<open>The bytes \<open>[i, j)\<close> of a list, and how adjacent and nested segments compose.\<close>

definition seg :: "nat \<Rightarrow> nat \<Rightarrow> 'a list \<Rightarrow> 'a list" where
  "seg i j xs = take (j - i) (drop i xs)"

lemma length_seg [simp]: "length (seg i j xs) = min (length xs) j - i"
  by (auto simp: seg_def min_def)

lemma seg_empty [simp]: "j \<le> i \<Longrightarrow> seg i j xs = []"
  by (simp add: seg_def)

lemma seg_append: "i \<le> j \<Longrightarrow> j \<le> k \<Longrightarrow> seg i j xs @ seg j k xs = seg i k xs"
proof -
  assume "i \<le> j" and "j \<le> k"
  then obtain d e where "j = i + d" and "k = i + d + e" by (metis le_iff_add)
  then show ?thesis by (simp add: seg_def take_add add.commute)
qed

lemma seg_seg: "seg a b (seg i j xs) = seg (i + a) (min (i + b) j) xs"
proof (cases "a \<le> b")
  case True
  then show ?thesis
    by (auto simp: seg_def drop_take min_def add.commute)
next
  case False
  then show ?thesis by (simp add: seg_def)
qed

lemma seg_whole: "length xs \<le> n \<Longrightarrow> seg 0 n xs = xs"
  by (simp add: seg_def)

lemma bytes_slice_seg: "i \<le> j \<Longrightarrow> j \<le> length b \<Longrightarrow> bytes_slice b i j = Some (seg i j b)"
  by (simp add: bytes_slice_def seg_def)

lemma upt_split:
  assumes "[m ..< n] = xs @ k # ys"
  shows "xs = [m ..< k]" and "m \<le> k" and "k < n"
proof -
  have "length xs < length [m ..< n]" by (simp only: assms) simp
  then have l: "m + length xs < n" by simp
  have "[m ..< n] ! length xs = k" by (simp only: assms) simp
  then have k: "k = m + length xs" using l by simp
  have "xs = take (length xs) [m ..< n]" by (simp only: assms) simp
  then show "xs = [m ..< k]" using l k by (metis less_imp_le take_upt)
  show "m \<le> k" and "k < n" using k l by simp_all
qed

text \<open>\<open>to_le_bytes\<close> of an \<open>n\<close>-byte integer and \<open>from_le_bytes\<close>.\<close>

fun le_bytes :: "nat \<Rightarrow> nat \<Rightarrow> bytes" where
  "le_bytes 0 x = []"
| "le_bytes (Suc n) x = char_of x # le_bytes n (x div 256)"

fun from_le :: "bytes \<Rightarrow> nat" where
  "from_le [] = 0"
| "from_le (b # bs) = of_char b + 256 * from_le bs"

lemma length_le_bytes [simp]: "length (le_bytes n x) = n"
  by (induction n x rule: le_bytes.induct) auto

lemma from_le_le_bytes_mod [le_facts]: "from_le (le_bytes n x) = x mod 256 ^ n"
proof (induction n arbitrary: x)
  case 0
  then show ?case by simp
next
  case (Suc n)
  have "from_le (le_bytes (Suc n) x) = x mod 256 + 256 * (x div 256 mod 256 ^ n)"
    by (simp add: Suc.IH)
  also have "\<dots> = x mod (256 * 256 ^ n)"
    by (simp add: mod_mult2_eq)
  finally show ?case by simp
qed

lemma from_le_bound: "from_le bs < 256 ^ length bs"
proof (induction bs)
  case (Cons b bs)
  have "of_char b < (256 :: nat)" by simp
  moreover have "Suc (from_le bs) \<le> 256 ^ length bs" using Cons by simp
  ultimately have "of_char b + 256 * from_le bs < 256 * 256 ^ length bs" by linarith
  then show ?case by simp
qed simp

lemma le_bytes_from_le: "le_bytes (length bs) (from_le bs) = bs"
proof (induction bs)
  case (Cons b bs)
  have b: "of_char b < (256 :: nat)" by simp
  have "char_of (of_char b + 256 * from_le bs :: nat) = b"
    by (metis char_of_char char_of_mod_256 mod_mult_self2)
  with b Cons show ?case by simp
qed simp

lemma from_le_u16 [le_facts]: "from_le (le_bytes 2 (unat w)) = unat w" for w :: u16
  using unat_bound [of w] by (simp add: from_le_le_bytes_mod)

lemma from_le_u32 [le_facts]: "from_le (le_bytes 4 (unat w)) = unat w" for w :: u32
  using unat_bound [of w] by (simp add: from_le_le_bytes_mod)

lemma from_le_u64 [le_facts]: "from_le (le_bytes 8 (unat w)) = unat w" for w :: u64
  using unat_bound [of w] by (simp add: from_le_le_bytes_mod)

text \<open>
  \<open>std::str::from_utf8\<close> accepts exactly the well-formed sequences of RFC 3629: no overlong
  form, no surrogate, nothing above U+10FFFF.
\<close>

definition byte_in :: "nat \<Rightarrow> nat \<Rightarrow> u8 \<Rightarrow> bool" where
  "byte_in lo hi b \<longleftrightarrow> lo \<le> of_char b \<and> of_char b \<le> (hi :: nat)"

definition cont_byte :: "u8 \<Rightarrow> bool" where
  "cont_byte = byte_in 128 191"

fun valid_utf8 :: "bytes \<Rightarrow> bool" where
  "valid_utf8 [] = True"
| "valid_utf8 (a # bs) =
     (if byte_in 0 127 a then valid_utf8 bs
      else if byte_in 194 223 a then
        (case bs of b # r \<Rightarrow> cont_byte b \<and> valid_utf8 r | _ \<Rightarrow> False)
      else if byte_in 224 239 a then
        (case bs of b # c # r \<Rightarrow>
           (if of_char a = (224 :: nat) then byte_in 160 191 b
            else if of_char a = (237 :: nat) then byte_in 128 159 b else cont_byte b)
           \<and> cont_byte c \<and> valid_utf8 r
         | _ \<Rightarrow> False)
      else if byte_in 240 244 a then
        (case bs of b # c # d # r \<Rightarrow>
           (if of_char a = (240 :: nat) then byte_in 144 191 b
            else if of_char a = (244 :: nat) then byte_in 128 143 b else cont_byte b)
           \<and> cont_byte c \<and> cont_byte d \<and> valid_utf8 r
         | _ \<Rightarrow> False)
      else False)"

section \<open>Decimal formatting and splitting\<close>

text \<open>\<open>format!("{n}")\<close> of an unsigned integer.\<close>

definition digit :: "nat \<Rightarrow> char" where
  "digit d = char_of (48 + d)"

fun decimal :: "nat \<Rightarrow> string" where
  "decimal n = (if n < 10 then [digit n] else decimal (n div 10) @ [digit (n mod 10)])"

declare decimal.simps [simp del]

lemma of_char_digit: "d < 10 \<Longrightarrow> of_char (digit d) = 48 + d" for d :: nat
  by (simp add: digit_def)

lemma digit_inj: "d < 10 \<Longrightarrow> e < 10 \<Longrightarrow> digit d = digit e \<longleftrightarrow> d = e"
  by (metis of_char_digit add_left_cancel)

lemma decimal_nonempty: "decimal n \<noteq> []"
  by (subst decimal.simps) simp

lemma decimal_digits: "c \<in> set (decimal n) \<Longrightarrow> \<exists>d < 10. c = digit d"
proof (induction n rule: decimal.induct)
  case (1 n)
  show ?case
  proof (cases "n < 10")
    case True
    with "1.prems" show ?thesis by (auto simp: decimal.simps [of n])
  next
    case False
    with "1.prems" consider "c \<in> set (decimal (n div 10))" | "c = digit (n mod 10)"
      by (auto simp: decimal.simps [of n])
    then show ?thesis
    proof cases
      case 1
      with False "1.IH" show ?thesis by simp
    next
      case 2
      then show ?thesis by (intro exI [of _ "n mod 10"]) simp
    qed
  qed
qed

lemma decimal_no_char:
  assumes "of_char c < (48 :: nat) \<or> 57 < (of_char c :: nat)"
  shows "c \<notin> set (decimal n)"
proof
  assume "c \<in> set (decimal n)"
  then obtain d where "d < 10" and "c = digit d" using decimal_digits by blast
  with assms of_char_digit [of d] show False by auto
qed

lemma decimal_inj: "decimal m = decimal n \<longleftrightarrow> m = n"
proof
  show "decimal m = decimal n \<Longrightarrow> m = n"
  proof (induction m arbitrary: n rule: decimal.induct)
    case (1 m)
    have one: "decimal k = [c] \<Longrightarrow> k < 10" for k c
      by (cases "k < 10") (simp_all add: decimal.simps [of k] decimal_nonempty)
    show ?case
    proof (cases "m < 10")
      case True
      with "1.prems" have "n < 10" using one [of n "digit m"] by (simp add: decimal.simps [of m])
      with True "1.prems" show ?thesis
        by (simp add: decimal.simps [of m] decimal.simps [of n] digit_inj)
    next
      case False
      with "1.prems" have "\<not> n < 10"
        using one [of m "digit n"] by (auto simp: decimal.simps [of n])
      with False "1.prems" have "decimal (m div 10) = decimal (n div 10)" and "m mod 10 = n mod 10"
        by (simp_all add: decimal.simps [of m] decimal.simps [of n] digit_inj)
      with "1.IH" [OF False] show ?thesis by (metis div_mult_mod_eq)
    qed
  qed
qed simp

text \<open>\<open>str::split_once\<close> at the first occurrence of a character.\<close>

fun split_once :: "char \<Rightarrow> string \<Rightarrow> (string \<times> string) option" where
  "split_once c [] = None"
| "split_once c (x # xs) =
     (if x = c then Some ([], xs) else map_option (\<lambda>(a, b). (x # a, b)) (split_once c xs))"

lemma split_once_Some: "split_once c s = Some (a, b) \<longleftrightarrow> s = a @ c # b \<and> c \<notin> set a"
proof (induction s arbitrary: a)
  case (Cons x s)
  show ?case
  proof (cases a)
    case Nil
    then show ?thesis by auto
  next
    case (Cons y a')
    with Cons.IH [of a'] show ?thesis by auto
  qed
qed simp

lemma split_once_None: "split_once c s = None \<longleftrightarrow> c \<notin> set s"
  by (induction s) auto

section \<open>\<open>Iterator::max_by_key\<close>\<close>

text \<open>
  The standard library folds with ``keep the accumulator only if it compares greater'', so of
  several maximal elements the last one wins.
\<close>

fun max_by_key :: "('a \<Rightarrow> 'b::linorder) \<Rightarrow> 'a list \<Rightarrow> 'a option" where
  "max_by_key f [] = None"
| "max_by_key f (x # xs) = Some (foldl (\<lambda>best y. if f y < f best then best else y) x xs)"

lemma foldl_max:
  "\<exists>ys zs. x # xs = ys @ foldl (\<lambda>best y. if f y < f best then best else y) x xs # zs
     \<and> (\<forall>y \<in> set ys. f y \<le> f (foldl (\<lambda>best y. if f y < f best then best else y) x xs))
     \<and> (\<forall>z \<in> set zs. f z < f (foldl (\<lambda>best y. if f y < f best then best else y) x xs))"
  for f :: "'a \<Rightarrow> 'b::linorder"
proof (induction xs rule: rev_induct)
  case (snoc a xs)
  let ?m = "foldl (\<lambda>best y. if f y < f best then best else y) x xs"
  from snoc obtain ys zs where d: "x # xs = ys @ ?m # zs"
    "\<forall>y \<in> set ys. f y \<le> f ?m" "\<forall>z \<in> set zs. f z < f ?m" by blast
  show ?case
  proof (cases "f a < f ?m")
    case True
    then show ?thesis using d by (intro exI [of _ ys] exI [of _ "zs @ [a]"]) (simp add: append_Cons [symmetric] del: append_Cons)
  next
    case False
    have "\<forall>y \<in> set (x # xs). f y \<le> f ?m" using d by (auto simp: less_imp_le)
    then show ?thesis using False by (intro exI [of _ "x # xs"] exI [of _ "[]"]) (auto intro: order_trans)
  qed
qed (auto intro: exI [of _ "[]"])

lemma max_by_key_split:
  assumes "max_by_key f xs = Some m"
  obtains ys zs where "xs = ys @ m # zs" "\<And>y. y \<in> set ys \<Longrightarrow> f y \<le> f m" "\<And>z. z \<in> set zs \<Longrightarrow> f z < f m"
  using assms foldl_max [of "hd xs" "tl xs" f] by (cases xs) auto

lemma max_by_key_None [simp]: "max_by_key f xs = None \<longleftrightarrow> xs = []"
  by (cases xs) auto

lemma max_by_key_unique:
  assumes "xs = ys @ m # zs" and "\<And>y. y \<in> set ys \<Longrightarrow> f y \<le> f m" and "\<And>z. z \<in> set zs \<Longrightarrow> f z < f m"
  shows "max_by_key f xs = Some m"
proof -
  obtain m' where m': "max_by_key f xs = Some m'" using assms(1) by (cases "max_by_key f xs") auto
  obtain us vs where d: "xs = us @ m' # vs" "\<And>y. y \<in> set us \<Longrightarrow> f y \<le> f m'" "\<And>z. z \<in> set vs \<Longrightarrow> f z < f m'"
    using max_by_key_split [OF m'] by blast
  have "\<forall>x \<in> set xs. f x \<le> f m'" unfolding d(1) using d(2,3) by (auto simp: less_imp_le)
  moreover have "\<forall>x \<in> set xs. f x \<le> f m" unfolding assms(1) using assms(2,3) by (auto simp: less_imp_le)
  moreover have "m \<in> set xs" using assms(1) by simp
  moreover have "m' \<in> set xs" using d(1) by simp
  ultimately have eq: "f m = f m'" by (simp add: order_antisym)
  have "us @ m' # vs = ys @ m # zs" using d(1) assms(1) by simp
  then consider "m = m'" | "m \<in> set vs" | "m' \<in> set zs"
    by (auto simp: append_eq_append_conv2 append_eq_Cons_conv Cons_eq_append_conv)
  then show ?thesis using m' d(3) assms(3) eq by cases force+
qed

lemma max_by_key_filter:
  assumes "max_by_key f xs = Some m" and "P m"
  shows "max_by_key f (filter P xs) = Some m"
proof -
  obtain ys zs where "xs = ys @ m # zs" "\<And>y. y \<in> set ys \<Longrightarrow> f y \<le> f m" "\<And>z. z \<in> set zs \<Longrightarrow> f z < f m"
    using max_by_key_split [OF assms(1)] by blast
  then show ?thesis using assms(2)
    by (intro max_by_key_unique [of _ "filter P ys" m "filter P zs"]) auto
qed

section \<open>Hash maps and ordered maps\<close>

text \<open>
  A \<open>HashMap\<close> is an association list with distinct keys, with the library's \<open>map_of\<close>,
  \<open>AList.update\<close> and \<open>AList.delete\<close> as \<open>get\<close>, \<open>insert\<close> and \<open>remove\<close>: the iteration order of a
  hash map is unspecified, and no theorem of the development depends on the order of the
  list. A \<open>BTreeMap\<close> iterates in key order: it is an association list kept sorted.
\<close>

type_synonym ('k, 'v) hash_map = "('k \<times> 'v) list"
type_synonym ('k, 'v) btree_map = "('k \<times> 'v) list"

abbreviation keys_distinct :: "('k \<times> 'v) list \<Rightarrow> bool" where
  "keys_distinct m \<equiv> distinct (map fst m)"

fun btree_insert :: "'k::linorder \<Rightarrow> 'v \<Rightarrow> ('k, 'v) btree_map \<Rightarrow> ('k, 'v) btree_map" where
  "btree_insert k v [] = [(k, v)]"
| "btree_insert k v ((k', v') # m) =
     (if k < k' then (k, v) # (k', v') # m
      else if k = k' then (k, v) # m
      else (k', v') # btree_insert k v m)"

definition btree_remove :: "'k \<Rightarrow> ('k, 'v) btree_map \<Rightarrow> ('k, 'v) btree_map" where
  "btree_remove k m = filter (\<lambda>e. fst e \<noteq> k) m"

definition btree_ok :: "('k::linorder, 'v) btree_map \<Rightarrow> bool" where
  "btree_ok m \<longleftrightarrow> sorted_wrt (<) (map fst m)"

lemma btree_ok_Nil [simp]: "btree_ok []"
  by (simp add: btree_ok_def)

lemma set_btree_insert: "fst ` set (btree_insert k v m) = insert k (fst ` set m)"
  by (induction k v m rule: btree_insert.induct) auto

lemma btree_insert_ok [simp]: "btree_ok m \<Longrightarrow> btree_ok (btree_insert k v m)"
  unfolding btree_ok_def
proof (induction k v m rule: btree_insert.induct)
  case (2 k v k' v' m)
  have "set (map fst (btree_insert k v m)) = insert k (set (map fst m))"
    by (simp add: set_btree_insert)
  with 2 show ?case by (auto simp del: set_map)
qed simp

lemma btree_remove_ok [simp]: "btree_ok m \<Longrightarrow> btree_ok (btree_remove k m)"
  unfolding btree_ok_def btree_remove_def by (induction m) auto

lemma btree_insert_map_of [simp]: "btree_ok m \<Longrightarrow> map_of (btree_insert k v m) = (map_of m)(k \<mapsto> v)"
  unfolding btree_ok_def by (induction k v m rule: btree_insert.induct) (auto simp: fun_eq_iff)

lemma btree_remove_map_of [simp]: "map_of (btree_remove k m) = (map_of m)(k := None)"
  unfolding btree_remove_def by (induction m) (auto simp: fun_eq_iff)

text \<open>An ordered map is determined by what it maps.\<close>

lemma alist_of_map_of: "keys_distinct m \<Longrightarrow> map (\<lambda>k. (k, the (map_of m k))) (map fst m) = m"
  by (auto intro!: map_idI simp: comp_def)

lemma btree_ok_unique:
  assumes "btree_ok m" "btree_ok m'" "map_of m = map_of m'"
  shows "m = m'"
proof -
  have d: "keys_distinct m" "keys_distinct m'" "sorted (map fst m)" "sorted (map fst m')"
    using assms by (auto simp: btree_ok_def strict_sorted_iff)
  then have "set m = set m'" using assms(3) by (simp add: map_of_inject_set)
  then have "map fst m = map fst m'" using d by (intro sorted_distinct_set_unique) simp_all
  then show ?thesis using alist_of_map_of [OF d(1)] alist_of_map_of [OF d(2)] assms(3) by simp
qed

section \<open>Splitting and trimming strings\<close>

text \<open>\<open>str::split(c)\<close>: always at least one field.\<close>

fun split_on :: "char \<Rightarrow> string \<Rightarrow> string list" where
  "split_on c [] = [[]]"
| "split_on c (x # xs) =
     (if x = c then [] # split_on c xs
      else case split_on c xs of [] \<Rightarrow> [[x]] | f # fs \<Rightarrow> (x # f) # fs)"

lemma split_on_no_sep: "c \<notin> set xs \<Longrightarrow> split_on c xs = [xs]"
  by (induction xs) auto

lemma split_on_append: "c \<notin> set xs \<Longrightarrow> split_on c (xs @ c # ys) = xs # split_on c ys"
  by (induction xs) auto

text \<open>
  \<open>str::trim\<close> drops characters with the Unicode property \<open>White_Space\<close>. \<open>ws_prefix\<close> is the length
  of the UTF-8 encoding of such a character at the front of a byte string, 0 when there is
  none; \<open>ws_suffix\<close> reads the reversed string.
\<close>

definition ws3 :: "nat \<Rightarrow> nat \<Rightarrow> nat \<Rightarrow> bool" where
  "ws3 a b c \<longleftrightarrow> (a = 0xE1 \<and> b = 0x9A \<and> c = 0x80)
     \<or> (a = 0xE2 \<and> b = 0x80 \<and> (0x80 \<le> c \<and> c \<le> 0x8A \<or> c = 0xA8 \<or> c = 0xA9 \<or> c = 0xAF))
     \<or> (a = 0xE2 \<and> b = 0x81 \<and> c = 0x9F) \<or> (a = 0xE3 \<and> b = 0x80 \<and> c = 0x80)"

definition ws1 :: "nat \<Rightarrow> bool" where
  "ws1 a \<longleftrightarrow> 9 \<le> a \<and> a \<le> 13 \<or> a = 32"

definition ws2 :: "nat \<Rightarrow> nat \<Rightarrow> bool" where
  "ws2 a b \<longleftrightarrow> a = 0xC2 \<and> (b = 0x85 \<or> b = 0xA0)"

definition ws_prefix :: "bytes \<Rightarrow> nat" where
  "ws_prefix bs = (case map of_char bs of
      a # rest \<Rightarrow> if ws1 a then 1 else (case rest of
        b # rest' \<Rightarrow> if ws2 a b then 2 else (case rest' of
          c # _ \<Rightarrow> if ws3 a b c then 3 else 0 | [] \<Rightarrow> 0)
      | [] \<Rightarrow> 0) | [] \<Rightarrow> 0)"

definition ws_suffix :: "bytes \<Rightarrow> nat" where
  "ws_suffix rbs = (case map of_char rbs of
      a # rest \<Rightarrow> if ws1 a then 1 else (case rest of
        b # rest' \<Rightarrow> if ws2 b a then 2 else (case rest' of
          c # _ \<Rightarrow> if ws3 c b a then 3 else 0 | [] \<Rightarrow> 0)
      | [] \<Rightarrow> 0) | [] \<Rightarrow> 0)"

function strip_front :: "(bytes \<Rightarrow> nat) \<Rightarrow> bytes \<Rightarrow> bytes" where
  "strip_front w bs = (if w bs = 0 \<or> bs = [] then bs else strip_front w (drop (w bs) bs))"
  by pat_completeness auto
termination by (relation "measure (length \<circ> snd)") auto

declare strip_front.simps [simp del]

definition trim :: "string \<Rightarrow> string" where
  "trim s = rev (strip_front ws_suffix (rev (strip_front ws_prefix s)))"

text \<open>A string that starts and ends with printable ASCII is its own trim.\<close>

definition graphic :: "char \<Rightarrow> bool" where
  "graphic c \<longleftrightarrow> 33 \<le> (of_char c :: nat) \<and> (of_char c :: nat) \<le> 126"

lemma graphic_not_ws:
  assumes "graphic c"
  shows "ws_prefix (c # cs) = 0" and "ws_suffix (c # cs) = 0"
  using assms unfolding graphic_def ws_prefix_def ws_suffix_def ws1_def ws2_def ws3_def
  by (auto split: list.splits)

lemma trim_graphic:
  assumes "s \<noteq> []" "graphic (hd s)" "graphic (last s)"
  shows "trim s = s"
proof -
  have "strip_front ws_prefix s = s"
    using assms(1,2) by (cases s) (simp_all add: strip_front.simps graphic_not_ws)
  moreover have "strip_front ws_suffix (rev s) = rev s"
    using assms(1,3) by (cases "rev s") (auto simp add: strip_front.simps graphic_not_ws last_conv_nth hd_rev [symmetric])
  ultimately show ?thesis by (simp add: trim_def)
qed

section \<open>Systems of operations with an invariant\<close>

text \<open>
  A component whose state is changed by a fixed set of operations: \<open>apply_op\<close> runs one of
  them. What holds at the start and is kept by every operation holds after any sequence.
\<close>

locale invariant_system =
  fixes initial :: "'s \<Rightarrow> bool" and apply_op :: "'op \<Rightarrow> 's \<Rightarrow> 's" and holds :: "'s \<Rightarrow> bool"
  assumes initially: "initial s \<Longrightarrow> holds s"
    and kept: "holds s \<Longrightarrow> holds (apply_op x s)"
begin

lemma kept_by_run: "holds s \<Longrightarrow> holds (fold apply_op xs s)"
  by (induction xs arbitrary: s) (auto intro: kept)

lemma reachable_holds: "initial s \<Longrightarrow> holds (fold apply_op xs s)"
  by (rule kept_by_run) (rule initially)

end

end
