(* ===== verification/Chunk.thy ===== *)
theory Chunk
  imports Prelude
begin

text \<open>
  Chunk addressing, from \<open>crates/pacer-cache/src/chunk.rs\<close>: the values the chunk cache holds
  (\<open>object_header\<close>, \<open>cached_chunk\<close>), the configuration that splits an object into fixed-size
  chunks, the chunk key, and the covering-chunk arithmetic on \<open>u64\<close>. A chunk size of zero is
  refused by \<open>chunk_config_new\<close> (the source panics), so \<open>chunk_config_ok\<close> is the invariant of
  every configuration the program builds.

  The lemmas read the word arithmetic through \<open>unat\<close>: which chunks cover a byte range, that
  the chunk spans tile an object, and that trimming never panics.
\<close>

section \<open>Cached values\<close>

definition DEFAULT_CHUNK_SIZE :: u64 where
  "DEFAULT_CHUNK_SIZE = push_bit 20 16"

record representation_headers =
  metadata :: "(string \<times> string) list" \<comment> \<open>a \<open>BTreeMap\<close>: sorted by key, keys distinct\<close>
  content_encoding :: "string option"
  content_disposition :: "string option"
  content_language :: "string option"
  cache_control :: "string option"
  expires_epoch_secs :: "int option"

record object_header =
  object_len :: u64
  oh_e_tag :: "string option"
  content_type :: "string option"
  last_modified_epoch_secs :: "int option"
  representation :: representation_headers

definition object_header_new ::
    "u64 \<Rightarrow> string option \<Rightarrow> string option \<Rightarrow> int option \<Rightarrow> representation_headers \<Rightarrow> object_header" where
  "object_header_new len tag ct lm rep =
     \<lparr>object_len = len, oh_e_tag = tag, content_type = ct,
      last_modified_epoch_secs = lm, representation = rep\<rparr>"

record cached_chunk =
  body :: bytes
  e_tag :: "string option"

definition cached_chunk_new :: "bytes \<Rightarrow> cached_chunk" where
  "cached_chunk_new b = \<lparr>body = b, e_tag = None\<rparr>"

definition cached_chunk_versioned :: "bytes \<Rightarrow> string \<Rightarrow> cached_chunk" where
  "cached_chunk_versioned b tag = \<lparr>body = b, e_tag = Some tag\<rparr>"

text \<open>\<open>CachedChunk::slice_for\<close>; \<open>None\<close> would be the panic of \<open>Bytes::slice\<close>.\<close>

definition slice_for :: "cached_chunk \<Rightarrow> u64 \<Rightarrow> u64 \<Rightarrow> u64 \<Rightarrow> bytes option" where
  "slice_for c chunk_start req_start req_end =
     (let chunk_end = chunk_start + of_nat (length (body c));
          lo = max req_start chunk_start;
          hi = min req_end chunk_end
      in if hi \<le> lo then Some []
         else bytes_slice (body c) (unat (lo - chunk_start)) (unat (hi - chunk_start)))"

section \<open>Configuration and addressing\<close>

record chunk_config =
  chunk_size :: u64

definition default_chunk_config :: chunk_config where
  "default_chunk_config = \<lparr>chunk_size = DEFAULT_CHUNK_SIZE\<rparr>"

definition chunk_config_new :: "u64 \<Rightarrow> chunk_config option" where
  "chunk_config_new sz = (if 0 < sz then Some \<lparr>chunk_size = sz\<rparr> else None)"

definition chunk_key :: "chunk_config \<Rightarrow> string \<Rightarrow> u64 \<Rightarrow> string" where
  "chunk_key cfg object_key index =
     object_key @ ''#'' @ decimal (unat (chunk_size cfg)) @ '':'' @ decimal (unat index)"

definition covering :: "chunk_config \<Rightarrow> u64 \<Rightarrow> u64 \<Rightarrow> range" where
  "covering cfg start stop =
     (if stop \<le> start then (let first = start div chunk_size cfg in (first, first))
      else (start div chunk_size cfg, (stop - 1) div chunk_size cfg + 1))"

definition chunk_count :: "chunk_config \<Rightarrow> u64 \<Rightarrow> u64" where
  "chunk_count cfg len = div_ceil len (chunk_size cfg)"

definition chunk_bounds :: "chunk_config \<Rightarrow> u64 \<Rightarrow> u64 \<Rightarrow> range option" where
  "chunk_bounds cfg index len =
     (let start = index * chunk_size cfg
      in if len \<le> start then (if len = 0 \<and> index = 0 then Some (0, 0) else None)
         else Some (start, min (start + chunk_size cfg) len))"

text \<open>Iterating a \<open>Range<u64>\<close>.\<close>

definition range_list :: "range \<Rightarrow> u64 list" where
  "range_list r = map of_nat [unat (fst r) ..< unat (snd r)]"

definition chunk_config_ok :: "chunk_config \<Rightarrow> bool" where
  "chunk_config_ok cfg \<longleftrightarrow> 0 < chunk_size cfg"

text \<open>No arithmetic on chunks of an object of this length wraps.\<close>

definition addressable :: "chunk_config \<Rightarrow> u64 \<Rightarrow> bool" where
  "addressable cfg len \<longleftrightarrow> chunk_config_ok cfg \<and> unat len + unat (chunk_size cfg) < 2 ^ 64"

section \<open>Lemmas\<close>

lemma chunk_config_new_ok: "chunk_config_new s = Some cfg \<Longrightarrow> chunk_config_ok cfg"
  by (auto simp: chunk_config_new_def chunk_config_ok_def split: if_splits)

lemma default_chunk_config_ok: "chunk_config_ok default_chunk_config"
  by (simp add: chunk_config_ok_def default_chunk_config_def DEFAULT_CHUNK_SIZE_def)

lemma addressable_size_pos: "addressable cfg len \<Longrightarrow> 0 < unat (chunk_size cfg)"
  by (simp add: addressable_def chunk_config_ok_def word_less_nat_alt)

lemma of_nat_u64: "n < 2 ^ 64 \<Longrightarrow> unat (of_nat n :: u64) = n"
  by (simp add: unat_of_nat)

subsection \<open>Chunk keys\<close>

lemma hash_split_unique:
  fixes c :: char
  assumes "a @ c # u = b @ c # v" and "c \<notin> set u" and "c \<notin> set v"
  shows "a = b \<and> u = v"
proof -
  have "rev u @ c # rev a = rev v @ c # rev b"
    using arg_cong [OF assms(1), of rev] by simp
  then have "split_once c (rev u @ c # rev a) = split_once c (rev v @ c # rev b)"
    by simp
  moreover have "split_once c (rev u @ c # rev a) = Some (rev u, rev a)"
    using assms(2) by (simp add: split_once_Some)
  moreover have "split_once c (rev v @ c # rev b) = Some (rev v, rev b)"
    using assms(3) by (simp add: split_once_Some)
  ultimately show ?thesis by simp
qed

lemma first_split_unique:
  fixes c :: char
  assumes "u @ c # a = v @ c # b" and "c \<notin> set u" and "c \<notin> set v"
  shows "u = v \<and> a = b"
proof -
  have "split_once c (u @ c # a) = Some (u, a)" and "split_once c (v @ c # b) = Some (v, b)"
    using assms(2,3) by (simp_all add: split_once_Some)
  with assms(1) show ?thesis by (metis option.inject prod.inject)
qed

lemma decimal_no_sep: "CHR ''#'' \<notin> set (decimal n)" "CHR '':'' \<notin> set (decimal n)"
  by (rule decimal_no_char, simp)+

subsection \<open>The words as natural numbers\<close>

lemma covering_fst: "unat (fst (covering cfg start stop)) = unat start div unat (chunk_size cfg)"
  by (simp add: covering_def unat_div Let_def)

lemma covering_snd:
  assumes "start < stop"
  shows "unat (snd (covering cfg start stop)) = Suc ((unat stop - 1) div unat (chunk_size cfg))"
proof -
  from assms have pos: "0 < unat stop" by (simp add: word_less_nat_alt)
  then have "unat (stop - 1) = unat stop - 1"
    by (metis less_numeral_extra(3) unat_0 unat_minus_one)
  then have q: "unat ((stop - 1) div chunk_size cfg) = (unat stop - 1) div unat (chunk_size cfg)"
    by (simp add: unat_div)
  have "(unat stop - 1) div unat (chunk_size cfg) + 1 \<le> unat stop"
    using pos div_le_dividend [of "unat stop - 1" "unat (chunk_size cfg)"] by linarith
  then have "(unat stop - 1) div unat (chunk_size cfg) + 1 < 2 ^ 64"
    by (rule le_less_trans) (use unat_bound [of stop] in simp)
  then have "unat ((stop - 1) div chunk_size cfg + 1) = (unat stop - 1) div unat (chunk_size cfg) + 1"
    using q by (simp add: unat_add_no_wrap)
  moreover from assms have "\<not> stop \<le> start" by simp
  ultimately show ?thesis by (simp only: covering_def if_False snd_conv Suc_eq_plus1)
qed

lemma covering_empty: "stop \<le> start \<Longrightarrow> fst (covering cfg start stop) = snd (covering cfg start stop)"
  by (simp add: covering_def Let_def)

lemma range_list_covering:
  assumes "start < stop"
  shows "map unat (range_list (covering cfg start stop))
       = [unat start div unat (chunk_size cfg) ..< Suc ((unat stop - 1) div unat (chunk_size cfg))]"
proof -
  have "Suc ((unat stop - 1) div unat (chunk_size cfg)) \<le> 2 ^ 64"
    using covering_snd [OF assms, of cfg] unat_u64_bound [of "snd (covering cfg start stop)"] by simp
  then have "unat (of_nat x :: u64) = x" if "x < Suc ((unat stop - 1) div unat (chunk_size cfg))" for x
    using that by (intro of_nat_u64) linarith
  then show ?thesis
    unfolding range_list_def covering_fst covering_snd [OF assms] map_map
    by (intro map_idI) (metis atLeastLessThan_iff comp_apply set_upt)
qed

text \<open>A chunk that starts inside the object: its bounds, with nothing wrapping.\<close>

lemma chunk_bounds_nat:
  assumes "addressable cfg len" and "unat i * unat (chunk_size cfg) < unat len"
  obtains a b where "chunk_bounds cfg i len = Some (a, b)"
    and "unat a = unat i * unat (chunk_size cfg)"
    and "unat b = min (Suc (unat i) * unat (chunk_size cfg)) (unat len)"
proof -
  let ?a = "i * chunk_size cfg" and ?z = "unat (chunk_size cfg)"
  have a: "unat ?a = unat i * ?z"
    using assms unat_u64_bound [of len] by (simp add: unat_mult_no_wrap)
  have "unat (?a + chunk_size cfg) = unat ?a + ?z"
    using assms a by (simp add: unat_add_no_wrap addressable_def)
  then have b: "unat (min (?a + chunk_size cfg) len) = min (Suc (unat i) * ?z) (unat len)"
    using a by (simp add: unat_min_word)
  have "\<not> len \<le> ?a" using assms(2) a by (simp add: word_le_nat_alt)
  then have "chunk_bounds cfg i len = Some (?a, min (?a + chunk_size cfg) len)"
    by (simp add: chunk_bounds_def Let_def)
  then show thesis using a b that by blast
qed

lemma chunk_bounds_past_end:
  assumes "addressable cfg len" and "unat len \<le> unat i * unat (chunk_size cfg)"
    and "unat i * unat (chunk_size cfg) < 2 ^ 64"
  shows "chunk_bounds cfg i len = (if len = 0 \<and> i = 0 then Some (0, 0) else None)"
proof -
  have "unat (i * chunk_size cfg) = unat i * unat (chunk_size cfg)"
    using assms(3) by (simp add: unat_mult_no_wrap)
  with assms(2) show ?thesis by (simp add: chunk_bounds_def Let_def word_le_nat_alt)
qed

lemma unat_div_ceil:
  assumes "0 < b"
  shows "unat (div_ceil a b) = (unat a + unat b - 1) div unat b"
proof -
  have b: "0 < unat b" using assms by (simp add: word_less_nat_alt)
  show ?thesis
  proof (cases "a mod b = 0")
    case True
    then have m: "unat a mod unat b = 0" by (metis unat_0 unat_mod)
    then obtain k where k: "unat a = unat b * k" by auto
    then have "unat a + unat b - 1 = unat b * k + (unat b - 1)" using b by simp
    then have "(unat a + unat b - 1) div unat b = k" using b by (simp only: div_of_block)
    then have "(unat a + unat b - 1) div unat b = unat a div unat b" using b k by simp
    with True show ?thesis by (simp add: div_ceil_def unat_div)
  next
    case False
    then have m: "0 < unat a mod unat b"
      by (metis gr0I unat_0 unat_mod word_unat_eq_iff)
    have "unat a div unat b + 1 < 2 ^ 64"
    proof -
      from m have "1 < unat b" by (cases "unat b = 1") (use b in auto)
      then have "unat a div unat b \<le> unat a div 2" by (intro div_le_mono2) auto
      then show ?thesis using unat_u64_bound [of a] by simp
    qed
    then have "unat (a div b + 1) = unat a div unat b + 1"
      by (simp add: unat_add_no_wrap unat_div)
    moreover have "(unat a + unat b - 1) div unat b = unat a div unat b + 1"
    proof -
      define q r where "q = unat a div unat b" and "r = unat a mod unat b"
      then have "unat a = unat b * q + r" and r: "0 < r" "r - 1 < unat b"
        using m b by (auto simp: less_imp_diff_less)
      then have "unat a + unat b - 1 = unat b * (q + 1) + (r - 1)" by simp
      with r show ?thesis by (simp only: div_of_block q_def)
    qed
    ultimately show ?thesis using False by (simp add: div_ceil_def)
  qed
qed

subsection \<open>Trimming a chunk\<close>

lemma slice_for_seg:
  assumes "unat cs + length b < 2 ^ 64"
  shows "slice_for (cached_chunk_new b) cs s e
       = Some (seg (max (unat s) (unat cs) - unat cs) (min (unat e) (unat cs + length b) - unat cs) b)"
proof -
  have n: "unat (of_nat (length b) :: u64) = length b" using assms by (simp add: of_nat_u64)
  have ce: "unat (cs + of_nat (length b)) = unat cs + length b"
    using assms n by (simp add: unat_add_no_wrap)
  let ?lo = "max s cs" and ?hi = "min e (cs + of_nat (length b))"
  have lo: "unat ?lo = max (unat s) (unat cs)" and hi: "unat ?hi = min (unat e) (unat cs + length b)"
    using ce by (simp_all add: unat_max_word unat_min_word)
  show ?thesis
  proof (cases "?hi \<le> ?lo")
    case True
    then have "min (unat e) (unat cs + length b) \<le> max (unat s) (unat cs)"
      using lo hi by (simp add: word_le_nat_alt)
    then have "min (unat e) (unat cs + length b) - unat cs \<le> max (unat s) (unat cs) - unat cs"
      by (rule diff_le_mono)
    with True show ?thesis by (simp add: slice_for_def cached_chunk_new_def Let_def)
  next
    case False
    then have lt: "max (unat s) (unat cs) < min (unat e) (unat cs + length b)"
      using lo hi by (simp add: word_le_nat_alt not_le)
    have dlo: "unat (?lo - cs) = max (unat s) (unat cs) - unat cs"
      using lo by (subst unat_sub) (simp_all add: word_le_nat_alt)
    have dhi: "unat (?hi - cs) = min (unat e) (unat cs + length b) - unat cs"
      using hi lt by (subst unat_sub) (simp_all add: word_le_nat_alt)
    have "slice_for (cached_chunk_new b) cs s e = bytes_slice b (unat (?lo - cs)) (unat (?hi - cs))"
      using False by (simp add: slice_for_def cached_chunk_new_def Let_def)
    also have "\<dots> = Some (seg (unat (?lo - cs)) (unat (?hi - cs)) b)"
      using lt by (intro bytes_slice_seg) (auto simp: dlo dhi)
    finally show ?thesis by (simp only: dlo dhi)
  qed
qed

text \<open>
  Two chunk keys are equal only when the object key, the chunk
  size and the chunk index are all equal, whatever characters the object key holds: changing
  the chunk size orphans old entries and cannot make one chunk answer for another.
\<close>

lemma chunk_key_injective:
  "chunk_key cfg k i = chunk_key cfg' k' i' \<longleftrightarrow> k = k' \<and> chunk_size cfg = chunk_size cfg' \<and> i = i'"
proof
  assume eq: "chunk_key cfg k i = chunk_key cfg' k' i'"
  let ?u = "decimal (unat (chunk_size cfg)) @ CHR '':'' # decimal (unat i)"
  let ?v = "decimal (unat (chunk_size cfg')) @ CHR '':'' # decimal (unat i')"
  have "k @ CHR ''#'' # ?u = k' @ CHR ''#'' # ?v" using eq by (simp add: chunk_key_def)
  then have k: "k = k'" and uv: "?u = ?v"
    using hash_split_unique [of k "CHR ''#''" ?u k' ?v] by (auto simp: decimal_no_sep)
  from uv have "decimal (unat (chunk_size cfg)) = decimal (unat (chunk_size cfg'))
      \<and> decimal (unat i) = decimal (unat i')"
    by (rule first_split_unique [OF _ decimal_no_sep(2) decimal_no_sep(2)])
  with k show "k = k' \<and> chunk_size cfg = chunk_size cfg' \<and> i = i'"
    by (simp add: decimal_inj word_unat_eq_iff)
qed (simp add: chunk_key_def)

end
