(* ===== verification/Numbers.thy ===== *)
theory Numbers
  imports Prelude
begin

text \<open>
  Reading and printing integers the way Rust's standard library does: \<open>str::parse\<close> for the unsigned
  types, as used on files, flags and headers. The inverse is \<open>decimal\<close> of the prelude. Also ASCII case folding.
\<close>

text \<open>\<open>char::to_digit\<close>, for a radix of at most 36.\<close>

definition to_digit :: "nat \<Rightarrow> char \<Rightarrow> nat option" where
  "to_digit radix c =
     (let n = (of_char c :: nat);
          d = (if 48 \<le> n \<and> n \<le> 57 then n - 48
               else if 97 \<le> n \<and> n \<le> 122 then n - 87
               else if 65 \<le> n \<and> n \<le> 90 then n - 55
               else radix)
      in if d < radix then Some d else None)"

fun radix_digits :: "nat \<Rightarrow> nat \<Rightarrow> string \<Rightarrow> nat option" where
  "radix_digits radix n [] = Some n"
| "radix_digits radix n (c # cs) = (case to_digit radix c of None \<Rightarrow> None | Some d \<Rightarrow> radix_digits radix (radix * n + d) cs)"

text \<open>
  \<open>from_str_radix\<close> for an unsigned type with \<open>bound\<close> values: one leading \<open>+\<close> is allowed, at
  least one digit is needed, and a value that does not fit is an error.
\<close>

definition from_str_radix :: "nat \<Rightarrow> nat \<Rightarrow> string \<Rightarrow> nat option" where
  "from_str_radix radix bound s =
     (let d = (case s of c # r \<Rightarrow> if c = CHR ''+'' then r else s | [] \<Rightarrow> s) in
      if d = [] then None
      else case radix_digits radix 0 d of Some n \<Rightarrow> if n < bound then Some n else None | None \<Rightarrow> None)"

definition parse_u64 :: "string \<Rightarrow> u64 option" where
  "parse_u64 s = map_option of_nat (from_str_radix 10 (2 ^ 64) s)"

lemma radix_digits_append:
  "radix_digits r n (s @ t) = (case radix_digits r n s of None \<Rightarrow> None | Some m \<Rightarrow> radix_digits r m t)"
  by (induction s arbitrary: n) (auto split: option.splits)

lemma to_digit_digit: "d < 10 \<Longrightarrow> to_digit 10 (digit d) = Some d"
  by (simp add: to_digit_def of_char_digit)

lemma decimal_value: "radix_digits 10 0 (decimal n) = Some n"
proof (induction n rule: decimal.induct)
  case (1 n)
  then show ?case
    by (cases "n < 10") (simp_all add: decimal.simps [of n] radix_digits_append to_digit_digit)
qed

lemma from_str_radix_digits:
  assumes "radix_digits r 0 s = Some n" "s \<noteq> []" "n < bound" "r \<le> 36"
  shows "from_str_radix r bound s = Some n"
proof -
  have "hd s \<noteq> CHR ''+''" using assms(1,2,4) by (cases s) (auto simp: to_digit_def split: if_splits)
  then show ?thesis using assms(1-3) by (cases s) (simp_all add: from_str_radix_def)
qed

lemma parse_decimal: "n < bound \<Longrightarrow> from_str_radix 10 bound (decimal n) = Some n"
  by (rule from_str_radix_digits) (simp_all add: decimal_value decimal_nonempty)

lemma parse_u64_decimal: "parse_u64 (decimal (unat w)) = Some w"
  using parse_decimal [of "unat w" "2 ^ 64"] unat_bound [of w] by (simp add: parse_u64_def)

lemma decimal_graphic: "c \<in> set (decimal n) \<Longrightarrow> graphic c"
  using decimal_digits [of c n] by (auto simp: graphic_def of_char_digit)

lemma trim_graphic_string: "s \<noteq> [] \<Longrightarrow> (\<And>c. c \<in> set s \<Longrightarrow> graphic c) \<Longrightarrow> trim s = s"
  by (rule trim_graphic) auto

lemma trim_decimal: "trim (decimal n) = decimal n"
  by (rule trim_graphic_string) (simp_all add: decimal_nonempty decimal_graphic)

text \<open>Hexadecimal printing: \<open>{:x}\<close> and, for a byte, \<open>{:02x}\<close>.\<close>

definition hex_char :: "nat \<Rightarrow> char" where
  "hex_char d = char_of (if d < 10 then 48 + d else 87 + d)"

fun lower_hex :: "nat \<Rightarrow> string" where
  "lower_hex n = (if n < 16 then [hex_char n] else lower_hex (n div 16) @ [hex_char (n mod 16)])"

declare lower_hex.simps [simp del]

definition hex_byte :: "u8 \<Rightarrow> string" where
  "hex_byte b = [hex_char (of_char b div 16), hex_char (of_char b mod 16)]"

lemma of_char_hex_char: "d < 16 \<Longrightarrow> of_char (hex_char d) = (if d < 10 then 48 + d else 87 + d)" for d :: nat
  by (auto simp: hex_char_def of_char_of take_bit_nat_eq_self)

lemma to_digit_hex_char: "d < 16 \<Longrightarrow> to_digit 16 (hex_char d) = Some d"
  by (simp add: to_digit_def of_char_hex_char)

lemma hex_char_graphic: "d < 16 \<Longrightarrow> graphic (hex_char d)"
  by (simp add: graphic_def of_char_hex_char)

lemma lower_hex_nonempty: "lower_hex n \<noteq> []"
  by (subst lower_hex.simps) simp

lemma lower_hex_chars: "c \<in> set (lower_hex n) \<Longrightarrow> \<exists>d < 16. c = hex_char d"
proof (induction n rule: lower_hex.induct)
  case (1 n)
  have "n mod 16 < 16" by simp
  with 1 show ?case by (cases "n < 16") (auto simp: lower_hex.simps [of n] simp del: mod_less_divisor)
qed

lemma lower_hex_value: "radix_digits 16 0 (lower_hex n) = Some n"
proof (induction n rule: lower_hex.induct)
  case (1 n)
  then show ?case
    by (cases "n < 16") (simp_all add: lower_hex.simps [of n] radix_digits_append to_digit_hex_char)
qed

lemma parse_lower_hex: "n < bound \<Longrightarrow> from_str_radix 16 bound (lower_hex n) = Some n"
  by (rule from_str_radix_digits) (simp_all add: lower_hex_value lower_hex_nonempty)

lemma of_char_bound: "of_char c < (256 :: nat)"
  by simp

lemma parse_hex_byte: "from_str_radix 16 256 (hex_byte b) = Some (of_char b)"
proof (rule from_str_radix_digits)
  have "of_char b div 16 < (16 :: nat)" using of_char_bound [of b] by (simp add: less_mult_imp_div_less)
  then show "radix_digits 16 0 (hex_byte b) = Some (of_char b)" by (simp add: hex_byte_def to_digit_hex_char)
qed (simp_all add: hex_byte_def of_char_bound)

text \<open>\<open>checked_add\<close>, big-endian byte order, and \<open>as_chunks\<close> (without its remainder).\<close>

definition checked_add :: "'a::len word \<Rightarrow> 'a word \<Rightarrow> 'a word option" where
  "checked_add a b = (if unat a + unat b < 2 ^ LENGTH('a) then Some (a + b) else None)"

lemma checked_add_Some: "checked_add a b = Some c \<longleftrightarrow> unat c = unat a + unat b" for a b c :: "'a::len word"
proof
  assume "checked_add a b = Some c"
  then show "unat c = unat a + unat b" by (auto simp: checked_add_def unat_add_no_wrap split: if_splits)
next
  assume c: "unat c = unat a + unat b"
  then have "unat a + unat b < 2 ^ LENGTH('a)" using unat_bound [of c] by simp
  moreover have "c = a + b" using c calculation by (simp add: word_unat_eq_iff unat_add_no_wrap)
  ultimately show "checked_add a b = Some c" by (simp add: checked_add_def)
qed

definition be_bytes :: "nat \<Rightarrow> nat \<Rightarrow> bytes" where
  "be_bytes n x = rev (le_bytes n x)"

definition from_be :: "bytes \<Rightarrow> nat" where
  "from_be bs = from_le (rev bs)"

lemma length_be_bytes [simp]: "length (be_bytes n x) = n"
  by (simp add: be_bytes_def)

lemma from_be_be_bytes: "x < 256 ^ n \<Longrightarrow> from_be (be_bytes n x) = x"
  by (simp add: be_bytes_def from_be_def from_le_le_bytes_mod)

lemma be_bytes_from_be: "be_bytes (length bs) (from_be bs) = bs"
  using le_bytes_from_le [of "rev bs"] by (simp add: be_bytes_def from_be_def)

lemma from_be_bound: "from_be bs < 256 ^ length bs"
  using from_le_bound [of "rev bs"] by (simp add: from_be_def)

definition as_chunks :: "nat \<Rightarrow> 'a list \<Rightarrow> 'a list list" where
  "as_chunks n xs = map (\<lambda>i. take n (drop (i * n) xs)) [0..<length xs div n]"

lemma as_chunks_Cons:
  assumes "length x = n" "0 < n"
  shows "as_chunks n (x @ xs) = x # as_chunks n xs"
proof -
  have "length (x @ xs) div n = Suc (length xs div n)" using assms by (simp add: div_add_self1)
  then show ?thesis using assms unfolding as_chunks_def by (simp only: upt_conv_Cons) (simp add: map_Suc_upt [symmetric] del: upt_Suc)
qed

lemma as_chunks_concat: "list_all (\<lambda>x. length x = n) xs \<Longrightarrow> 0 < n \<Longrightarrow> as_chunks n (concat xs) = xs"
  by (induction xs) (simp_all add: as_chunks_Cons, simp add: as_chunks_def)

lemma as_chunks_whole:
  assumes "length xs = k * n" "0 < n"
  shows "concat (as_chunks n xs) = xs" "list_all (\<lambda>x. length x = n) (as_chunks n xs)" "length (as_chunks n xs) = k"
proof -
  have "concat (as_chunks n xs) = xs \<and> list_all (\<lambda>x. length x = n) (as_chunks n xs)" using assms
  proof (induction k arbitrary: xs)
    case (Suc k)
    then have "as_chunks n xs = take n xs # as_chunks n (drop n xs)"
      using as_chunks_Cons [of "take n xs" n "drop n xs"] by simp
    then show ?case using Suc.IH [of "drop n xs"] Suc.prems by simp
  qed (simp add: as_chunks_def)
  then show "concat (as_chunks n xs) = xs" "list_all (\<lambda>x. length x = n) (as_chunks n xs)" by auto
  show "length (as_chunks n xs) = k" using assms by (simp add: as_chunks_def)
qed

text \<open>\<open>to_ascii_lowercase\<close>: only the letters A to Z change.\<close>

definition ascii_lower :: "char \<Rightarrow> char" where
  "ascii_lower c = (if 65 \<le> (of_char c :: nat) \<and> (of_char c :: nat) \<le> 90 then char_of (of_char c + 32 :: nat) else c)"

definition to_ascii_lowercase :: "string \<Rightarrow> string" where
  "to_ascii_lowercase s = map ascii_lower s"

end
