(* ===== verification/Cache_Policy.thy ===== *)
theory Cache_Policy
  imports Chunk Numbers
begin

text \<open>
  The cache policy of \<open>crates/pacer-cache/src/lib.rs\<close>: the two kinds of cache entry and their
  weight, the tier configuration, the object key and its inverse, which read path a GET takes,
  size-based admission, and the resolution of an HTTP byte range. The hybrid cache itself
  (foyer) is not part of the sources; \<open>read_chunk_entry\<close> takes its three lookups as arguments.

  The lemmas show that the object key splits back unambiguously, that a resolved range selects
  exactly the bytes the request names, and how a rejected admission is classified.
\<close>

section \<open>Entries\<close>

datatype cache_value = Header object_header | Chunk cached_chunk

definition HEADER_WEIGHT :: nat where
  "HEADER_WEIGHT = 256"

fun weight :: "cache_value \<Rightarrow> nat" where
  "weight (Chunk c) = length (body c)"
| "weight (Header _) = HEADER_WEIGHT"

fun as_header :: "cache_value \<Rightarrow> object_header option" where
  "as_header (Header h) = Some h"
| "as_header (Chunk _) = None"

fun as_chunk :: "cache_value \<Rightarrow> cached_chunk option" where
  "as_chunk (Chunk c) = Some c"
| "as_chunk (Header _) = None"

section \<open>Configuration\<close>

datatype io_engine = Psync | Uring

fun io_engine_from_str :: "string \<Rightarrow> string + io_engine" where
  "io_engine_from_str s =
     (if s = ''psync'' \<or> s = '''' then Inr Psync
      else if s = ''uring'' then Inr Uring
      else Inl (''unknown io engine '' @ s))"

datatype disk_tier = Foyer | Store

fun disk_tier_from_str :: "string \<Rightarrow> string + disk_tier" where
  "disk_tier_from_str s =
     (if s = ''foyer'' \<or> s = '''' then Inr Foyer
      else if s = ''store'' then Inr Store
      else Inl (''unknown disk tier '' @ s))"

datatype promotion = OnDiskHit | Never

fun promotion_from_str :: "string \<Rightarrow> string + promotion" where
  "promotion_from_str s =
     (if s = ''on-disk-hit'' \<or> s = '''' then Inr OnDiskHit
      else if s = ''never'' then Inr Never
      else Inl (''unknown promotion policy '' @ s))"

record cache_config =
  mem_capacity :: u64
  disk_capacity :: u64
  block_size :: u64
  cc_flush_buffer_size :: u64
  cc_io_engine :: io_engine
  cc_max_object_bytes :: "u64 option"

definition flush_buffer_size_or_default :: "cache_config \<Rightarrow> u64" where
  "flush_buffer_size_or_default cfg =
     (if 0 < cc_flush_buffer_size cfg then cc_flush_buffer_size cfg else 2 * block_size cfg)"

definition DEFAULT_MAX_OBJECT_CHUNK_MULTIPLE :: u64 where
  "DEFAULT_MAX_OBJECT_CHUNK_MULTIPLE = 8"

definition DEFAULT_MAX_OBJECT_BYTES :: u64 where
  "DEFAULT_MAX_OBJECT_BYTES = DEFAULT_MAX_OBJECT_CHUNK_MULTIPLE * DEFAULT_CHUNK_SIZE"

definition max_object_bytes_or_default :: "cache_config \<Rightarrow> u64" where
  "max_object_bytes_or_default cfg =
     (case cc_max_object_bytes cfg of Some m \<Rightarrow> m | None \<Rightarrow> DEFAULT_MAX_OBJECT_BYTES)"

section \<open>Keys\<close>

definition object_key :: "string \<Rightarrow> string \<Rightarrow> string" where
  "object_key bucket key = bucket @ ''/'' @ key"

definition object_key_parts :: "string \<Rightarrow> (string \<times> string) option" where
  "object_key_parts cache_key =
     (case split_once (CHR ''/'') cache_key of
        None \<Rightarrow> None
      | Some (bucket, key) \<Rightarrow> if bucket \<noteq> [] \<and> key \<noteq> [] then Some (bucket, key) else None)"

section \<open>Reading an entry\<close>

text \<open>
  \<open>read_chunk_entry\<close>. The hybrid cache's lookups are arguments: \<open>cache_get\<close> reads both tiers
  and promotes, \<open>memory_get\<close> reads the memory tier, \<open>storage_load\<close> the disk tier; \<open>Inl\<close> is
  the cache's own error.
\<close>

datatype load = Entry cache_value | Piece cache_value | Miss | Throttled

definition read_chunk_entry ::
    "(string \<Rightarrow> 'e + cache_value option) \<Rightarrow> (string \<Rightarrow> cache_value option)
     \<Rightarrow> (string \<Rightarrow> 'e + load) \<Rightarrow> string \<Rightarrow> promotion \<Rightarrow> 'e + cache_value option" where
  "read_chunk_entry cache_get memory_get storage_load key promo =
     (if promo = OnDiskHit then cache_get key
      else case memory_get key of
        Some v \<Rightarrow> Inr (Some v)
      | None \<Rightarrow> (case storage_load key of
          Inl e \<Rightarrow> Inl e
        | Inr (Entry v) \<Rightarrow> Inr (Some v)
        | Inr (Piece v) \<Rightarrow> Inr (Some v)
        | Inr Miss \<Rightarrow> Inr None
        | Inr Throttled \<Rightarrow> Inr None))"

section \<open>Read decision and admission\<close>

datatype read_decision_t = CacheAndFill | CacheNoFill | Bypass

fun starts_with :: "string \<Rightarrow> string \<Rightarrow> bool" where
  "starts_with [] s = True"
| "starts_with (p # ps) [] = False"
| "starts_with (p # ps) (x # xs) = (p = x \<and> starts_with ps xs)"

fun str_contains :: "string \<Rightarrow> string \<Rightarrow> bool" where
  "str_contains [] p = (p = [])"
| "str_contains (x # xs) p = (starts_with p (x # xs) \<or> str_contains xs p)"

definition read_decision :: "string option \<Rightarrow> int option \<Rightarrow> read_decision_t" where
  "read_decision cache_ctl part_number =
     (if part_number \<noteq> None then Bypass
      else case cache_ctl of
        Some cc0 \<Rightarrow>
          (let cc = to_ascii_lowercase cc0
           in if str_contains cc ''no-cache'' then Bypass
              else if str_contains cc ''no-store'' then CacheNoFill
              else CacheAndFill)
      | None \<Rightarrow> CacheAndFill)"

definition should_admit :: "u64 option \<Rightarrow> u64 \<Rightarrow> u64 option \<Rightarrow> bool" where
  "should_admit content_length mn mx =
     (case content_length of
        Some len \<Rightarrow> mn < len \<and> (case mx of None \<Rightarrow> True | Some m \<Rightarrow> len \<le> m)
      | None \<Rightarrow> False)"

datatype admission_rejection = UnknownLength | TooSmall | TooLarge

definition should_admit_legacy_object ::
    "u64 option \<Rightarrow> u64 \<Rightarrow> cache_config \<Rightarrow> admission_rejection + unit" where
  "should_admit_legacy_object content_length mn cfg =
     (let mx = max_object_bytes_or_default cfg
      in if should_admit content_length mn (Some mx) then Inr ()
         else Inl (case content_length of
                     None \<Rightarrow> UnknownLength
                   | Some len \<Rightarrow> if len \<le> mn then TooSmall else TooLarge))"

section \<open>Byte ranges\<close>

definition resolve_range :: "u64 option \<Rightarrow> u64 option \<Rightarrow> u64 option \<Rightarrow> u64 \<Rightarrow> range option" where
  "resolve_range first lst suffix len =
     (case (first, suffix) of
        (Some f, None) \<Rightarrow>
          (if len \<le> f then None
           else case lst of
             Some l \<Rightarrow> if l < f then None else Some (f, min (saturating_add l 1) len)
           | None \<Rightarrow> Some (f, len))
      | (None, Some n) \<Rightarrow> if n = 0 then None else Some (saturating_sub len n, len)
      | _ \<Rightarrow> None)"

text \<open>
  What a byte-range request names, as positions of an object of \<open>len\<close> bytes: \<open>first-last\<close>
  inclusive, \<open>first-\<close> to the end, \<open>-suffix\<close> the last bytes; any other combination is no range.
\<close>

definition requested_positions :: "u64 option \<Rightarrow> u64 option \<Rightarrow> u64 option \<Rightarrow> u64 \<Rightarrow> nat set" where
  "requested_positions first lst suffix len =
     (case (first, suffix) of
        (Some f, None) \<Rightarrow>
          {i. unat f \<le> i \<and> i < unat len \<and> (case lst of None \<Rightarrow> True | Some l \<Rightarrow> i \<le> unat l)}
      | (None, Some n) \<Rightarrow> {i. i < unat len \<and> unat len \<le> i + unat n}
      | _ \<Rightarrow> {})"

section \<open>Lemmas\<close>

lemma unat_min_succ_len:
  "unat (min (saturating_add l 1) len) = min (Suc (unat l)) (unat len)" for l len :: u64
proof -
  have "unat (min (saturating_add l 1) len) = min (min (Suc (unat l)) 18446744073709551615) (unat len)"
    by (simp add: unat_min_word unat_saturating_add)
  with unat_u64_bound [of len] show ?thesis by simp
qed

text \<open>
  The cache key built from a bucket and a key splits back
  into them, for every non-empty bucket name without a slash and every non-empty key, slashes
  in the key included.
\<close>

lemma object_key_roundtrip:
  assumes "bucket \<noteq> []" and "CHR ''/'' \<notin> set bucket" and "key \<noteq> []"
  shows "object_key_parts (object_key bucket key) = Some (bucket, key)"
proof -
  have "split_once (CHR ''/'') (bucket @ CHR ''/'' # key) = Some (bucket, key)"
    using assms(2) by (simp add: split_once_Some)
  then show ?thesis using assms(1,3) by (simp add: object_key_parts_def object_key_def)
qed

lemma object_key_roundtrip_example:
  "object_key_parts (object_key ''models'' ''llama/shard-0'') = Some (''models'', ''llama/shard-0'')"
  by (rule object_key_roundtrip) simp_all

text \<open>
  C33 (a resolved range selects exactly the requested bytes): for every object length and every combination of bounds, the half-open range returned holds the requested
  positions and no others, lies inside the object, and does not wrap around even for a last byte of \<open>u64::MAX\<close>. A range is refused exactly when it names no byte, with one exception: a
  non-zero suffix of an empty object is answered with the empty range instead (RFC 9110 calls every non-zero suffix satisfiable).
\<close>

theorem resolve_range_exact:
  "(case resolve_range first lst suffix len of
      None \<Rightarrow> requested_positions first lst suffix len = {}
    | Some (a, b) \<Rightarrow> requested_positions first lst suffix len = {unat a ..< unat b} \<and> a \<le> b \<and> b \<le> len)
   \<and> (resolve_range first lst suffix len = None \<longleftrightarrow>
        requested_positions first lst suffix len = {} \<and> \<not> (len = 0 \<and> first = None \<and> (\<exists>n. suffix = Some n \<and> n \<noteq> 0)))"
proof (cases first; cases suffix)
  fix f assume [simp]: "first = Some f" "suffix = None"
  show ?thesis
  proof (cases "len \<le> f \<or> (\<exists>l. lst = Some l \<and> l < f)")
    case True
    then show ?thesis by (auto simp: resolve_range_def requested_positions_def word_le_nat_alt word_less_nat_alt split: option.split)
  next
    case False
    then have f: "unat f < unat len" by (simp add: word_le_nat_alt)
    then have "unat f \<in> requested_positions first lst suffix len"
      using False by (auto simp: requested_positions_def word_less_nat_alt not_less split: option.split)
    then show ?thesis using False f
      by (auto simp: resolve_range_def requested_positions_def unat_min_succ_len word_le_nat_alt word_less_nat_alt split: option.split)
  qed
next
  fix n assume [simp]: "first = None" "suffix = Some n"
  have "\<exists>x < unat len. unat len \<le> x + unat n" if "0 < unat n" "0 < unat len"
    using that by (intro exI [of _ "unat len - 1"]) simp
  then show ?thesis
    by (auto simp: resolve_range_def requested_positions_def unat_saturating_sub word_neq_0_conv word_less_nat_alt word_le_nat_alt)
qed (auto simp: resolve_range_def requested_positions_def)

theorem resolve_range_exact_witness:
  "requested_positions (Some 2) (Some (- 1)) None 10 = {2 ..< 10} \<and> resolve_range None None (Some 3) 0 = Some (0, 0)"
proof -
  have r: "resolve_range (Some 2) (Some (- 1)) None 10 = Some (2, 10)"
    by (simp add: resolve_range_def saturating_add_def unat_max_value)
  show ?thesis using resolve_range_exact [of "Some 2" "Some (- 1)" None 10] r by (simp add: resolve_range_def saturating_sub_def)
qed

end
