(* ===== verification/Read_Path.thy ===== *)
theory Read_Path
  imports Cache_Policy
begin

text \<open>
  How a ranged GET is put together from chunks. \<open>chunked_body\<close> is the ordered pipeline of
  \<open>crates/pacer-daemon/src/proxy/read.rs\<close>: the covering chunks in ascending order, each trimmed
  to the requested bytes, stopping after the first chunk that fails. \<open>chunk_windows\<close> is the
  plan of \<open>crates/pacer-daemon/src/delivery.rs\<close> that places the same bytes in a client's memory
  window. How a chunk's bytes are obtained (\<open>resolve_chunk\<close>: cache, peer or backend) is an
  argument of both.

  The lemmas show that the pieces, in order, are exactly the requested bytes of the object,
  and that the windows tile the destination without gap or overlap.
\<close>

section \<open>The streamed body\<close>

text \<open>
  The messages sent to a client that stays connected; \<open>None\<close> would be a panic in the trimming.
\<close>

fun relay_chunks ::
    "chunk_config \<Rightarrow> u64 \<Rightarrow> (u64 \<Rightarrow> 'e + bytes) \<Rightarrow> u64 \<Rightarrow> u64 \<Rightarrow> u64 list \<Rightarrow> ('e + bytes) list option" where
  "relay_chunks cfg len resolve start stop [] = Some []"
| "relay_chunks cfg len resolve start stop (idx # idxs) =
     (case resolve idx of
        Inl e \<Rightarrow> Some [Inl e]
      | Inr bs \<Rightarrow>
          (let chunk_start = (case chunk_bounds cfg idx len of None \<Rightarrow> start | Some (a, _) \<Rightarrow> a)
           in case slice_for (cached_chunk_new bs) chunk_start start stop of
                None \<Rightarrow> None
              | Some part \<Rightarrow> map_option ((#) (Inr part)) (relay_chunks cfg len resolve start stop idxs)))"

definition chunked_body ::
    "chunk_config \<Rightarrow> u64 \<Rightarrow> (u64 \<Rightarrow> 'e + bytes) \<Rightarrow> u64 \<Rightarrow> u64 \<Rightarrow> ('e + bytes) list option" where
  "chunked_body cfg len resolve start stop =
     relay_chunks cfg len resolve start stop (range_list (covering cfg start stop))"

section \<open>Delivery windows\<close>

record chunk_window =
  idx :: u64
  dst_at :: nat
  src_at :: nat
  wlen :: nat
  whole :: bool

fun windows_for :: "chunk_config \<Rightarrow> u64 \<Rightarrow> u64 \<Rightarrow> u64 \<Rightarrow> u64 list \<Rightarrow> chunk_window list" where
  "windows_for cfg len start stop [] = []"
| "windows_for cfg len start stop (i # is) =
     (case chunk_bounds cfg i len of
        None \<Rightarrow> []
      | Some (a, b) \<Rightarrow>
          (let lo = max start a; hi = min stop b
           in if hi \<le> lo then windows_for cfg len start stop is
              else \<lparr>idx = i, dst_at = unat (lo - start), src_at = unat (lo - a),
                    wlen = unat (hi - lo), whole = (lo = a \<and> hi = b)\<rparr>
                   # windows_for cfg len start stop is))"

definition chunk_windows :: "chunk_config \<Rightarrow> u64 \<Rightarrow> u64 \<Rightarrow> u64 \<Rightarrow> chunk_window list" where
  "chunk_windows cfg len start stop =
     windows_for cfg len start stop (range_list (covering cfg start stop))"

section \<open>The object and its chunks\<close>

text \<open>The bytes chunk \<open>i\<close> of an object holds, by its bounds.\<close>

definition chunk_bytes :: "chunk_config \<Rightarrow> bytes \<Rightarrow> u64 \<Rightarrow> bytes" where
  "chunk_bytes cfg obj i =
     (case chunk_bounds cfg i (of_nat (length obj)) of
        None \<Rightarrow> [] | Some (a, b) \<Rightarrow> seg (unat a) (unat b) obj)"

text \<open>An object of an addressable length, and a byte range inside it.\<close>

definition readable :: "chunk_config \<Rightarrow> bytes \<Rightarrow> u64 \<Rightarrow> u64 \<Rightarrow> bool" where
  "readable cfg obj start stop \<longleftrightarrow>
     length obj < 2 ^ 64 \<and> addressable cfg (of_nat (length obj))
     \<and> start \<le> stop \<and> unat stop \<le> length obj"

section \<open>Lemmas\<close>

text \<open>Cutting \<open>[a, b)\<close> at the multiples of \<open>z\<close> and gluing the pieces gives \<open>[a, b)\<close> back.\<close>

lemma concat_blocks:
  assumes "a \<le> b" and "0 < z" and "a div z \<le> q"
  shows "concat (map (\<lambda>i. seg (max a (i * z)) (min b (Suc i * z)) xs) [a div z ..< q])
       = seg a (max a (min b (q * z))) xs"
  using assms(3)
proof (induction q rule: dec_induct)
  case base
  have "a div z * z \<le> a" by simp
  then have "max a (min b (a div z * z)) = a" by (simp add: max_absorb1 min.coboundedI2)
  then show ?case by simp
next
  case (step n)
  have n: "a < Suc n * z"
    using step.hyps assms(2) by (metis div_less_iff_less_mult less_Suc_eq_le)
  have "seg a (max a (min b (n * z))) xs @ seg (max a (n * z)) (min b (Suc n * z)) xs
      = seg a (max a (min b (Suc n * z))) xs"
  proof (cases "n * z < b")
    case True
    then have "max a (min b (n * z)) = max a (n * z)" by simp
    moreover have "max a (n * z) \<le> min b (Suc n * z)" using True n assms(1) by simp
    moreover have "max a (min b (Suc n * z)) = min b (Suc n * z)" using n assms(1) by simp
    ultimately show ?thesis by (simp add: seg_append)
  next
    case False
    then show ?thesis by (simp add: min_def)
  qed
  with step show ?case by simp
qed

lemma readable_facts:
  assumes "readable cfg obj start stop"
  shows "unat (of_nat (length obj) :: u64) = length obj"
    and "0 < unat (chunk_size cfg)" and "unat start \<le> unat stop" and "unat stop \<le> length obj"
    and "addressable cfg (of_nat (length obj))"
  using assms
  by (auto simp: readable_def of_nat_u64 word_le_nat_alt intro: addressable_size_pos)

text \<open>A covering chunk starts before the end of the range, so inside the object.\<close>

lemma covering_index:
  assumes "readable cfg obj start stop" and "i \<in> set (range_list (covering cfg start stop))"
  shows "unat i * unat (chunk_size cfg) < length obj"
    and "unat start < Suc (unat i) * unat (chunk_size cfg)"
    and "unat i * unat (chunk_size cfg) < unat stop" and "start < stop"
proof -
  let ?z = "unat (chunk_size cfg)"
  note f = readable_facts [OF assms(1)]
  have lt: "start < stop"
  proof (rule ccontr)
    assume "\<not> start < stop"
    then have "range_list (covering cfg start stop) = []"
      using covering_empty [of stop start cfg] by (simp add: range_list_def)
    with assms(2) show False by simp
  qed
  then have "unat i \<in> set [unat start div ?z ..< Suc ((unat stop - 1) div ?z)]"
    using assms(2) by (metis image_eqI list.set_map range_list_covering)
  then have lo: "unat start div ?z \<le> unat i" and hi: "unat i \<le> (unat stop - 1) div ?z" by auto
  have "unat i * ?z \<le> unat stop - 1"
    using hi f(2) by (metis less_eq_div_iff_mult_less_eq)
  then show st: "unat i * ?z < unat stop" using lt by (simp add: word_less_nat_alt)
  then show "unat i * ?z < length obj" using f(4) by simp
  show "start < stop" by (rule lt)
  show "unat start < Suc (unat i) * ?z"
    using lo f(2) by (metis div_less_iff_less_mult less_Suc_eq_le)
qed

lemma chunk_bytes_seg:
  assumes "readable cfg obj start stop" and "unat i * unat (chunk_size cfg) < length obj"
  shows "chunk_bytes cfg obj i
       = seg (unat i * unat (chunk_size cfg)) (Suc (unat i) * unat (chunk_size cfg)) obj"
proof -
  note f = readable_facts [OF assms(1)]
  obtain a b where "chunk_bounds cfg i (of_nat (length obj)) = Some (a, b)"
    and "unat a = unat i * unat (chunk_size cfg)"
    and "unat b = min (Suc (unat i) * unat (chunk_size cfg)) (length obj)"
    using chunk_bounds_nat [OF f(5), of i] assms(2) f(1) by metis
  then show ?thesis by (simp add: chunk_bytes_def seg_def min_def)
qed

lemma seg_of_block:
  assumes "e \<le> length xs" and "p \<le> q"
  shows "seg (max s p - p) (min e (min (length xs) q) - p) (seg p q xs) = seg (max s p) (min e q) xs"
proof (cases "p \<le> min e q")
  case True
  moreover have "min e (min (length xs) q) = min e q" using assms(1) by simp
  ultimately show ?thesis by (simp add: seg_seg)
next
  case False
  then show ?thesis using assms by (simp add: seg_seg)
qed

lemma slice_chunk:
  assumes "readable cfg obj start stop" and "i \<in> set (range_list (covering cfg start stop))"
  obtains a b where "chunk_bounds cfg i (of_nat (length obj)) = Some (a, b)"
    and "slice_for (cached_chunk_new (chunk_bytes cfg obj i)) a start stop
       = Some (seg (max (unat start) (unat i * unat (chunk_size cfg)))
                   (min (unat stop) (Suc (unat i) * unat (chunk_size cfg))) obj)"
proof -
  let ?z = "unat (chunk_size cfg)"
  note f = readable_facts [OF assms(1)] and ix = covering_index [OF assms]
  obtain a b where ab: "chunk_bounds cfg i (of_nat (length obj)) = Some (a, b)"
    and a: "unat a = unat i * ?z" and b: "unat b = min (Suc (unat i) * ?z) (length obj)"
    using chunk_bounds_nat [OF f(5), of i] ix(1) f(1) by metis
  note cb = chunk_bytes_seg [OF assms(1) ix(1)]
  have len: "unat a + length (chunk_bytes cfg obj i) = min (length obj) (Suc (unat i) * ?z)"
    using ix(1) by (simp add: cb a)
  also have "\<dots> \<le> length obj" by simp
  also have "\<dots> < 2 ^ 64" using assms(1) by (simp add: readable_def)
  finally have "unat a + length (chunk_bytes cfg obj i) < 2 ^ 64" .
  then have "slice_for (cached_chunk_new (chunk_bytes cfg obj i)) a start stop
    = Some (seg (max (unat start) (unat a) - unat a)
        (min (unat stop) (unat a + length (chunk_bytes cfg obj i)) - unat a) (chunk_bytes cfg obj i))"
    by (rule slice_for_seg)
  also have "\<dots> = Some (seg (max (unat start) (unat a)) (min (unat stop) (Suc (unat i) * ?z)) obj)"
    unfolding len unfolding cb a by (subst seg_of_block) (use f(4) in simp_all)
  finally show thesis using that ab a by simp
qed

text \<open>The part of \<open>[start, stop)\<close> that chunk \<open>i\<close> holds.\<close>

definition piece :: "chunk_config \<Rightarrow> bytes \<Rightarrow> u64 \<Rightarrow> u64 \<Rightarrow> nat \<Rightarrow> bytes" where
  "piece cfg obj start stop i =
     seg (max (unat start) (i * unat (chunk_size cfg))) (min (unat stop) (Suc i * unat (chunk_size cfg))) obj"

lemma relay_chunks_ok:
  assumes "readable cfg obj start stop"
    and "set is \<subseteq> set (range_list (covering cfg start stop))"
    and "\<forall>i\<in>set is. resolve i = Inr (chunk_bytes cfg obj i)"
  shows "relay_chunks cfg (of_nat (length obj)) resolve start stop (is @ js)
       = map_option ((@) (map (\<lambda>i. Inr (piece cfg obj start stop (unat i))) is))
           (relay_chunks cfg (of_nat (length obj)) resolve start stop js)"
  using assms(2,3)
proof (induction "is")
  case Nil
  have "(@) [] = (\<lambda>x. x)" by auto
  then show ?case by (simp add: option.map_ident)
next
  case (Cons i "is")
  then have "i \<in> set (range_list (covering cfg start stop))" by simp
  then obtain a b where "chunk_bounds cfg i (of_nat (length obj)) = Some (a, b)"
    and "slice_for (cached_chunk_new (chunk_bytes cfg obj i)) a start stop
       = Some (piece cfg obj start stop (unat i))"
    using slice_chunk [OF assms(1)] unfolding piece_def by blast
  with Cons show ?case by (simp add: option.map_comp comp_def)
qed

lemma concat_pieces:
  assumes "readable cfg obj start stop" and "unat start div unat (chunk_size cfg) \<le> q"
  shows "concat (map (piece cfg obj start stop) [unat start div unat (chunk_size cfg) ..< q])
       = seg (unat start) (max (unat start) (min (unat stop) (q * unat (chunk_size cfg)))) obj"
  unfolding piece_def
  by (rule concat_blocks) (use assms readable_facts [OF assms(1)] in auto)

lemma covering_reaches_stop:
  assumes "readable cfg obj start stop" and "start < stop"
  shows "unat stop \<le> Suc ((unat stop - 1) div unat (chunk_size cfg)) * unat (chunk_size cfg)"
proof -
  have "unat stop - 1 < Suc ((unat stop - 1) div unat (chunk_size cfg)) * unat (chunk_size cfg)"
    using readable_facts(2) [OF assms(1)] by (metis dividend_less_times_div mult.commute mult_Suc)
  then show ?thesis by linarith
qed

lemma covering_pieces:
  assumes "readable cfg obj start stop"
  shows "concat (map (\<lambda>i. piece cfg obj start stop (unat i)) (range_list (covering cfg start stop)))
       = seg (unat start) (unat stop) obj"
proof (cases "start < stop")
  case True
  let ?q = "Suc ((unat stop - 1) div unat (chunk_size cfg))"
  have "map (\<lambda>i. piece cfg obj start stop (unat i)) (range_list (covering cfg start stop))
      = map (piece cfg obj start stop) (map unat (range_list (covering cfg start stop)))"
    by simp
  also have "\<dots> = map (piece cfg obj start stop) [unat start div unat (chunk_size cfg) ..< ?q]"
    by (simp only: range_list_covering [OF True])
  finally have m: "map (\<lambda>i. piece cfg obj start stop (unat i)) (range_list (covering cfg start stop))
      = map (piece cfg obj start stop) [unat start div unat (chunk_size cfg) ..< ?q]" .
  have "unat start \<le> unat stop - 1" using True by (simp add: word_less_nat_alt)
  then have "unat start div unat (chunk_size cfg) \<le> ?q" by (simp add: div_le_mono le_SucI)
  from concat_pieces [OF assms this]
  have "concat (map (\<lambda>i. piece cfg obj start stop (unat i)) (range_list (covering cfg start stop)))
      = seg (unat start) (max (unat start) (min (unat stop) (?q * unat (chunk_size cfg)))) obj"
    unfolding m .
  moreover have "min (unat stop) (?q * unat (chunk_size cfg)) = unat stop"
    using covering_reaches_stop [OF assms True] by (rule min_absorb1)
  ultimately show ?thesis using True by (simp add: word_less_nat_alt max_absorb2)
next
  case False
  then have "range_list (covering cfg start stop) = []"
    using covering_empty [of stop start cfg] by (simp add: range_list_def)
  with False show ?thesis by (simp add: word_less_nat_alt)
qed

text \<open>
  Whenever every covering chunk
  resolves to that chunk's bytes of the object, the pipeline sends only data, never panics, and
  the concatenation of what it sends is the byte range \<open>[start, stop)\<close> of the object: no byte
  missing, duplicated or out of order, for every alignment of the range to the chunk size.
\<close>

lemma chunked_body_exact:
  assumes "readable cfg obj start stop"
    and "\<forall>i \<in> set (range_list (covering cfg start stop)). resolve i = Inr (chunk_bytes cfg obj i)"
  shows "\<exists>parts. chunked_body cfg (of_nat (length obj)) resolve start stop = Some (map Inr parts)
       \<and> concat parts = seg (unat start) (unat stop) obj"
proof -
  let ?is = "range_list (covering cfg start stop)"
  have "chunked_body cfg (of_nat (length obj)) resolve start stop
      = Some (map Inr (map (\<lambda>i. piece cfg obj start stop (unat i)) ?is))"
    using relay_chunks_ok [OF assms(1), of ?is resolve "[]"] assms(2) by (simp add: chunked_body_def)
  then show ?thesis using covering_pieces [OF assms(1)] by blast
qed

lemma chunked_body_exact_example:
  "\<exists>parts. chunked_body \<lparr>chunk_size = 4\<rparr> 10 (\<lambda>i. Inr (chunk_bytes \<lparr>chunk_size = 4\<rparr> ''0123456789'' i) :: string + bytes) 3 9
       = Some (map Inr parts) \<and> concat parts = ''345678''"
proof -
  have "readable \<lparr>chunk_size = 4\<rparr> ''0123456789'' 3 9"
    by (simp add: readable_def addressable_def chunk_config_ok_def)
  from chunked_body_exact [OF this, of "\<lambda>i. Inr (chunk_bytes \<lparr>chunk_size = 4\<rparr> ''0123456789'' i) :: string + bytes"]
  show ?thesis by (simp add: seg_def)
qed

text \<open>
  If a chunk fails and the covering chunks
  before it resolved, the client receives exactly the requested bytes that precede the failing
  chunk and then the error, and nothing after it.
\<close>

lemma chunked_body_truncates:
  assumes "readable cfg obj start stop"
    and "range_list (covering cfg start stop) = before @ k # after"
    and "\<forall>i \<in> set before. resolve i = Inr (chunk_bytes cfg obj i)" and "resolve k = Inl err"
  shows "\<exists>parts. chunked_body cfg (of_nat (length obj)) resolve start stop = Some (map Inr parts @ [Inl err])
       \<and> concat parts = seg (unat start) (max (unat start) (unat k * unat (chunk_size cfg))) obj"
proof -
  let ?z = "unat (chunk_size cfg)" and ?parts = "map (\<lambda>i. piece cfg obj start stop (unat i)) before"
  have lt: "start < stop"
  proof (rule ccontr)
    assume "\<not> start < stop"
    then have "range_list (covering cfg start stop) = []"
      using covering_empty [of stop start cfg] by (simp add: range_list_def)
    with assms(2) show False by simp
  qed
  have "[unat start div ?z ..< Suc ((unat stop - 1) div ?z)] = map unat before @ unat k # map unat after"
    using range_list_covering [OF lt, of cfg] unfolding assms(2) by simp
  note u = upt_split [OF this]
  then have b: "map unat before = [unat start div ?z ..< unat k]" and k: "unat start div ?z \<le> unat k"
      "unat k \<le> (unat stop - 1) div ?z"
    by simp_all
  have "relay_chunks cfg (of_nat (length obj)) resolve start stop (before @ k # after)
      = Some (map Inr ?parts @ [Inl err])"
    using relay_chunks_ok [OF assms(1), of before resolve "k # after"] assms(2,3,4) by (simp add: subset_eq)
  moreover have "concat ?parts = seg (unat start) (max (unat start) (min (unat stop) (unat k * ?z))) obj"
    using concat_pieces [OF assms(1) k(1)] unfolding b [symmetric] map_map comp_def .
  moreover have "unat k * ?z \<le> unat stop"
  proof -
    have "unat k * ?z \<le> unat stop - 1"
      using k(2) readable_facts(2) [OF assms(1)] by (metis less_eq_div_iff_mult_less_eq)
    then show ?thesis by linarith
  qed
  ultimately show ?thesis
    unfolding chunked_body_def assms(2) by (metis min_absorb2)
qed

lemma chunked_body_truncates_example:
  "\<exists>parts. chunked_body \<lparr>chunk_size = 4\<rparr> 10
       (\<lambda>i. if i = 1 then Inl ''reset'' else Inr (chunk_bytes \<lparr>chunk_size = 4\<rparr> ''0123456789'' i)) 3 9
       = Some (map Inr parts @ [Inl ''reset'']) \<and> concat parts = ''3''"
proof -
  have "readable \<lparr>chunk_size = 4\<rparr> ''0123456789'' 3 9"
    by (simp add: readable_def addressable_def chunk_config_ok_def)
  moreover have "range_list (covering \<lparr>chunk_size = 4\<rparr> 3 9) = [0] @ 1 # [2]"
    by (simp add: range_list_def covering_def upt_rec)
  ultimately show ?thesis
    using chunked_body_truncates [of "\<lparr>chunk_size = 4\<rparr>" "''0123456789''" 3 9 "[0]" 1 "[2]"
        "\<lambda>i. if i = 1 then Inl ''reset'' else Inr (chunk_bytes \<lparr>chunk_size = 4\<rparr> ''0123456789'' i)" "''reset''"]
    by (simp add: seg_def)
qed

subsection \<open>Windows\<close>

definition window_of :: "chunk_config \<Rightarrow> u64 \<Rightarrow> u64 \<Rightarrow> nat \<Rightarrow> u64 \<Rightarrow> chunk_window" where
  "window_of cfg start stop n i =
     (let p = unat i * unat (chunk_size cfg); q = Suc (unat i) * unat (chunk_size cfg)
      in \<lparr>idx = i, dst_at = max (unat start) p - unat start, src_at = max (unat start) p - p,
          wlen = min (unat stop) q - max (unat start) p,
          whole = (unat start \<le> p \<and> min q n \<le> unat stop)\<rparr>)"

lemma windows_for_window_of:
  assumes "readable cfg obj start stop" and "set is \<subseteq> set (range_list (covering cfg start stop))"
  shows "windows_for cfg (of_nat (length obj)) start stop is
       = map (window_of cfg start stop (length obj)) is"
  using assms(2)
proof (induction "is")
  case (Cons i "is")
  let ?z = "unat (chunk_size cfg)" and ?n = "of_nat (length obj) :: u64"
  note f = readable_facts [OF assms(1)]
  from Cons.prems have "i \<in> set (range_list (covering cfg start stop))" by simp
  note ix = covering_index [OF assms(1) this]
  obtain a b where ab: "chunk_bounds cfg i ?n = Some (a, b)"
    and a: "unat a = unat i * ?z" and b: "unat b = min (Suc (unat i) * ?z) (length obj)"
    using chunk_bounds_nat [OF f(5), of i] ix(1) f(1) by metis
  let ?lo = "max start a" and ?hi = "min stop b"
  have lo: "unat ?lo = max (unat start) (unat i * ?z)" using a by (simp add: unat_max_word)
  have hi: "unat ?hi = min (unat stop) (Suc (unat i) * ?z)"
    using b f(4) by (simp add: unat_min_word min.assoc [symmetric] min_absorb1 le_trans)
  have lt: "max (unat start) (unat i * ?z) < min (unat stop) (Suc (unat i) * ?z)"
    using ix f(2) by (simp add: word_less_nat_alt)
  have "\<not> ?hi \<le> ?lo" using lt unfolding word_le_nat_alt lo hi by linarith
  moreover have "unat (?lo - start) = max (unat start) (unat i * ?z) - unat start"
    using lo by (subst unat_sub) (simp_all add: word_le_nat_alt)
  moreover have "unat (?lo - a) = max (unat start) (unat i * ?z) - unat i * ?z"
    using lo a by (subst unat_sub) (simp_all add: word_le_nat_alt)
  moreover have "unat (?hi - ?lo) = min (unat stop) (Suc (unat i) * ?z) - max (unat start) (unat i * ?z)"
    using lt lo hi by (subst unat_sub) (simp_all only: word_le_nat_alt)
  moreover have "(?lo = a) = (unat start \<le> unat i * ?z)"
    using a by (metis max.absorb_iff2 word_le_nat_alt)
  moreover have "(?hi = b) = (min (Suc (unat i) * ?z) (length obj) \<le> unat stop)"
    using b by (metis min.absorb_iff2 word_le_nat_alt)
  ultimately show ?case
    using Cons ab by (simp add: window_of_def Let_def)
qed simp

lemma sum_window_lengths:
  assumes "readable cfg obj start stop"
  shows "sum_list (map wlen (map (window_of cfg start stop (length obj)) is))
       = length (concat (map (\<lambda>i. piece cfg obj start stop (unat i)) is))"
proof -
  have "wlen (window_of cfg start stop (length obj) i) = length (piece cfg obj start stop (unat i))" for i
    using readable_facts(4) [OF assms] by (simp add: window_of_def piece_def Let_def min.assoc [symmetric] min_absorb2)
  then show ?thesis by (simp add: length_concat comp_def)
qed

text \<open>What one window reads: its chunk's part of the range.\<close>

lemma window_part:
  assumes "readable cfg obj start stop" and "i \<in> set (range_list (covering cfg start stop))"
  defines "w \<equiv> window_of cfg start stop (length obj) i"
  shows "idx w = i"
    and "seg (src_at w) (src_at w + wlen w) (chunk_bytes cfg obj i) = piece cfg obj start stop (unat i)"
    and "0 < wlen w" and "src_at w + wlen w \<le> length (chunk_bytes cfg obj i)"
    and "whole w \<longleftrightarrow> src_at w = 0 \<and> wlen w = length (chunk_bytes cfg obj i)"
proof -
  define z p q n s e where "z = unat (chunk_size cfg)" and "p = unat i * z" and "q = Suc (unat i) * z"
    and "n = length obj" and "s = unat start" and "e = unat stop"
  note f = readable_facts [OF assms(1), folded z_def s_def e_def n_def]
    and ix = covering_index [OF assms(1,2), folded z_def s_def e_def n_def, folded p_def q_def]
  have lt: "max s p < min e q" using ix f by (auto simp: p_def q_def s_def e_def word_less_nat_alt)
  have cb: "chunk_bytes cfg obj i = seg p q obj"
    using chunk_bytes_seg [OF assms(1), of i] ix(1) by (simp add: p_def q_def z_def n_def)
  have len: "length (chunk_bytes cfg obj i) = min n q - p" by (simp add: cb n_def)
  have w: "src_at w = max s p - p" "wlen w = min e q - max s p" "whole w = (s \<le> p \<and> min q n \<le> e)"
    by (simp_all add: w_def window_of_def Let_def p_def q_def z_def s_def e_def n_def)
  show "idx w = i" by (simp add: w_def window_of_def Let_def)
  have sum: "src_at w + wlen w = min e q - p" using w lt by simp
  have "p + (min e q - p) = min e q" using lt by simp
  then show "seg (src_at w) (src_at w + wlen w) (chunk_bytes cfg obj i) = piece cfg obj start stop (unat i)"
    unfolding sum unfolding w cb seg_seg piece_def
    by (simp add: p_def q_def z_def s_def e_def)
  show "0 < wlen w" using w lt by simp
  show "src_at w + wlen w \<le> length (chunk_bytes cfg obj i)"
    unfolding sum len using f(4) by (intro diff_le_mono) simp
  show "whole w \<longleftrightarrow> src_at w = 0 \<and> wlen w = length (chunk_bytes cfg obj i)"
    unfolding w len using lt f(4) by (auto simp: min_def max_def)
qed

text \<open>Where one window lands: after everything the earlier windows carry.\<close>

lemma window_offset:
  assumes "readable cfg obj start stop" and "j < length (range_list (covering cfg start stop))"
  shows "dst_at (window_of cfg start stop (length obj) (range_list (covering cfg start stop) ! j))
       = sum_list (map wlen (take j (map (window_of cfg start stop (length obj)) (range_list (covering cfg start stop)))))"
proof -
  let ?is = "range_list (covering cfg start stop)" and ?z = "unat (chunk_size cfg)"
  let ?k = "unat (?is ! j)"
  note f = readable_facts [OF assms(1)] and ix = covering_index [OF assms(1) nth_mem [OF assms(2)]]
  have "map unat ?is = map unat (take j ?is) @ ?k # map unat (drop (Suc j) ?is)"
    using assms(2) by (metis id_take_nth_drop list.simps(9) map_append)
  then have "[unat start div ?z ..< Suc ((unat stop - 1) div ?z)]
      = map unat (take j ?is) @ ?k # map unat (drop (Suc j) ?is)"
    by (simp only: range_list_covering [OF ix(4)])
  note u = upt_split [OF this]
  have "sum_list (map wlen (take j (map (window_of cfg start stop (length obj)) ?is)))
      = length (concat (map (piece cfg obj start stop) (map unat (take j ?is))))"
    using sum_window_lengths [OF assms(1), of "take j ?is"] by (simp add: take_map comp_def)
  also have "\<dots> = length (seg (unat start) (max (unat start) (min (unat stop) (?k * ?z))) obj)"
    by (simp only: u(1) concat_pieces [OF assms(1) u(2)])
  also have "\<dots> = max (unat start) (?k * ?z) - unat start"
    using ix(3) f(3,4) by simp
  finally show ?thesis by (simp add: window_of_def Let_def)
qed

text \<open>
  For a readable range, the planned
  windows place each next piece where the previous one ended, starting at offset 0, so they
  are disjoint and leave no gap; each reads a non-empty part that lies inside its chunk, the
  parts in order are exactly the requested bytes, and a window is marked whole (eligible for
  an in-place RDMA write) exactly when it is its chunk's entire body.
\<close>

lemma chunk_windows_tile:
  assumes "readable cfg obj start stop"
  shows "let ws = chunk_windows cfg (of_nat (length obj)) start stop in
       concat (map (\<lambda>w. seg (src_at w) (src_at w + wlen w) (chunk_bytes cfg obj (idx w))) ws)
         = seg (unat start) (unat stop) obj
     \<and> (\<forall>j < length ws. dst_at (ws ! j) = sum_list (map wlen (take j ws)))
     \<and> (\<forall>w \<in> set ws. 0 < wlen w \<and> src_at w + wlen w \<le> length (chunk_bytes cfg obj (idx w))
         \<and> (whole w \<longleftrightarrow> src_at w = 0 \<and> wlen w = length (chunk_bytes cfg obj (idx w))))"
proof -
  let ?is = "range_list (covering cfg start stop)" and ?w = "window_of cfg start stop (length obj)"
  have ws: "chunk_windows cfg (of_nat (length obj)) start stop = map ?w ?is"
    unfolding chunk_windows_def by (rule windows_for_window_of [OF assms]) simp
  have "map (\<lambda>w. seg (src_at w) (src_at w + wlen w) (chunk_bytes cfg obj (idx w))) (map ?w ?is)
      = map (\<lambda>i. piece cfg obj start stop (unat i)) ?is"
    using window_part [OF assms] by simp
  then have "concat (map (\<lambda>w. seg (src_at w) (src_at w + wlen w) (chunk_bytes cfg obj (idx w))) (map ?w ?is))
      = seg (unat start) (unat stop) obj"
    using covering_pieces [OF assms] by (simp only:)
  moreover have "\<forall>j < length (map ?w ?is). dst_at (map ?w ?is ! j) = sum_list (map wlen (take j (map ?w ?is)))"
    using window_offset [OF assms] by simp
  moreover have "\<forall>w \<in> set (map ?w ?is). 0 < wlen w \<and> src_at w + wlen w \<le> length (chunk_bytes cfg obj (idx w))
         \<and> (whole w \<longleftrightarrow> src_at w = 0 \<and> wlen w = length (chunk_bytes cfg obj (idx w)))"
    using window_part [OF assms] by simp
  ultimately show ?thesis unfolding ws Let_def by (intro conjI)
qed

lemma chunk_windows_tile_example:
  "map (\<lambda>w. (dst_at w, src_at w, wlen w, whole w)) (chunk_windows \<lparr>chunk_size = 4\<rparr> 10 3 9)
     = [(0, 3, 1, False), (1, 0, 4, True), (5, 0, 1, False)]
   \<and> concat (map (\<lambda>w. seg (src_at w) (src_at w + wlen w) (chunk_bytes \<lparr>chunk_size = 4\<rparr> ''0123456789'' (idx w)))
       (chunk_windows \<lparr>chunk_size = 4\<rparr> 10 3 9)) = ''345678''"
proof -
  have "readable \<lparr>chunk_size = 4\<rparr> ''0123456789'' 3 9"
    by (simp add: readable_def addressable_def chunk_config_ok_def)
  from chunk_windows_tile [OF this]
  have "concat (map (\<lambda>w. seg (src_at w) (src_at w + wlen w) (chunk_bytes \<lparr>chunk_size = 4\<rparr> ''0123456789'' (idx w)))
       (chunk_windows \<lparr>chunk_size = 4\<rparr> 10 3 9)) = ''345678''"
    by (simp add: Let_def seg_def)
  moreover have "range_list (covering \<lparr>chunk_size = 4\<rparr> 3 9) = [0, 1, 2]"
    by (simp add: range_list_def covering_def upt_rec)
  ultimately show ?thesis
    by (simp add: chunk_windows_def chunk_bounds_def Let_def)
qed

end
