(* ===== verification/Ring.thy ===== *)
theory Ring
  imports Prelude
begin

text \<open>
  Rendezvous hashing over the member set (\<^verbatim>\<open>pacer-ring/src/lib.rs\<close>): \<open>owner\<close> is the member with
  the highest score for a key and \<open>ranked\<close> is the members in order of preference. The hash
  \<open>xxh3\<close> is a crate of its own; it is the parameter \<open>xxh3\<close> of \<open>score\<close>, given the seed and the
  concatenation of the updates. Nothing is assumed of it: what holds for every hash is proved
  for every hash, and where ties matter the statement says so.
\<close>

section \<open>Members and the ring\<close>

record node_id =
  node_name :: string
  node_addr :: string

definition node_id_new :: "string \<Rightarrow> string \<Rightarrow> node_id" where
  "node_id_new n a = \<lparr>node_name = n, node_addr = a\<rparr>"

record ring =
  members :: "node_id list"

definition ring_new :: "node_id list \<Rightarrow> ring" where
  "ring_new ms = \<lparr>members = ms\<rparr>"

definition member_named :: "ring \<Rightarrow> string \<Rightarrow> node_id option" where
  "member_named r nm = find (\<lambda>n. node_name n = nm) (members r)"

definition ring_is_empty :: "ring \<Rightarrow> bool" where
  "ring_is_empty r \<longleftrightarrow> members r = []"

definition set_members :: "node_id list \<Rightarrow> ring \<Rightarrow> ring" where
  "set_members ms r = r\<lparr>members := ms\<rparr>"

section \<open>Scores, the owner and the ranking\<close>

type_synonym hash_fn = "u64 \<Rightarrow> bytes \<Rightarrow> u64"

definition SCORE_SEED :: u64 where
  "SCORE_SEED = 0x107a"

definition SCORE_SEPARATOR :: bytes where
  "SCORE_SEPARATOR = [char_of (0xff :: nat)]"

definition score :: "hash_fn \<Rightarrow> string \<Rightarrow> string \<Rightarrow> u64" where
  "score xxh3 nm key = xxh3 SCORE_SEED (nm @ SCORE_SEPARATOR @ key)"

definition owner :: "hash_fn \<Rightarrow> ring \<Rightarrow> string \<Rightarrow> node_id option" where
  "owner xxh3 r key = max_by_key (\<lambda>n. score xxh3 (node_name n) key) (members r)"

text \<open>\<open>sort_by_key(Reverse(score))\<close>: a stable sort, highest score first.\<close>

definition ranked :: "hash_fn \<Rightarrow> ring \<Rightarrow> string \<Rightarrow> node_id list" where
  "ranked xxh3 r key = sort_key (\<lambda>n. - uint (score xxh3 (node_name n) key)) (members r)"

text \<open>
  \<open>SharedRing\<close> is a lock around one ring: \<open>store\<close> replaces the members, \<open>owner\<close> and \<open>homes\<close> read.
\<close>

definition shared_store :: "node_id list \<Rightarrow> ring \<Rightarrow> ring" where
  "shared_store ms r = set_members ms r"

definition shared_owner :: "hash_fn \<Rightarrow> ring \<Rightarrow> string \<Rightarrow> node_id option" where
  "shared_owner xxh3 r key = owner xxh3 r key"

definition homes :: "hash_fn \<Rightarrow> ring \<Rightarrow> string \<Rightarrow> nat \<Rightarrow> node_id list" where
  "homes xxh3 r key n = take n (ranked xxh3 r key)"

section \<open>Lemmas\<close>

text \<open>The separator is no byte of a UTF-8 string, so the hash input determines its parts.\<close>

lemma separator_not_utf8: "valid_utf8 s \<Longrightarrow> char_of (0xff :: nat) \<notin> set s"
proof (induction s rule: valid_utf8.induct)
  case (2 b0 rest)
  then show ?case
    by (auto simp: byte_in_def cont_byte_def of_char_of Let_def split: if_splits list.splits)
qed simp

lemma score_input_injective:
  assumes "valid_utf8 n" "valid_utf8 n'" and "n @ SCORE_SEPARATOR @ k = n' @ SCORE_SEPARATOR @ k'"
  shows "n = n' \<and> k = k'"
  using assms separator_not_utf8 [OF assms(1)] separator_not_utf8 [OF assms(2)]
  by (auto simp: SCORE_SEPARATOR_def append_eq_append_conv2 append_eq_Cons_conv Cons_eq_append_conv)

lemma owner_max:
  assumes "owner xxh3 r key = Some n" "m \<in> set (members r)"
  shows "score xxh3 (node_name m) key \<le> score xxh3 (node_name n) key"
proof -
  obtain ys zs where "members r = ys @ n # zs"
    "\<And>y. y \<in> set ys \<Longrightarrow> score xxh3 (node_name y) key \<le> score xxh3 (node_name n) key"
    "\<And>z. z \<in> set zs \<Longrightarrow> score xxh3 (node_name z) key < score xxh3 (node_name n) key"
    using max_by_key_split [OF assms(1) [unfolded owner_def]] by blast
  then show ?thesis using assms(2) by (auto simp: less_imp_le)
qed

lemma owner_member: "owner xxh3 r key = Some n \<Longrightarrow> n \<in> set (members r)"
  by (auto simp: owner_def elim: max_by_key_split)

lemma owner_exists: "(\<exists>n. owner xxh3 r key = Some n) \<longleftrightarrow> members r \<noteq> []"
  using max_by_key_None [of "\<lambda>n. score xxh3 (node_name n) key" "members r"]
  by (auto simp: owner_def simp del: max_by_key_None)

lemma ranked_set [simp]: "set (ranked xxh3 r key) = set (members r)"
  by (simp add: ranked_def)

lemma ranked_mset: "mset (ranked xxh3 r key) = mset (members r)"
  by (simp add: ranked_def)

lemma ranked_sorted:
  "sorted_wrt (\<lambda>a b. score xxh3 (node_name b) key \<le> score xxh3 (node_name a) key) (ranked xxh3 r key)"
proof -
  have "sorted (map (\<lambda>n. - uint (score xxh3 (node_name n) key)) (ranked xxh3 r key))"
    unfolding ranked_def by (rule sorted_sort_key)
  then show ?thesis by (simp add: sorted_map word_le_def)
qed

lemma homes_length: "length (homes xxh3 r key n) = min n (length (members r))"
  by (simp add: homes_def ranked_def min.commute)

text \<open>Untied scores: no two different members have the same score for the key.\<close>

definition untied :: "hash_fn \<Rightarrow> ring \<Rightarrow> string \<Rightarrow> bool" where
  "untied xxh3 r key \<longleftrightarrow> distinct (map (\<lambda>n. score xxh3 (node_name n) key) (members r))"

lemma untied_inj:
  assumes "untied xxh3 r key" "a \<in> set (members r)" "b \<in> set (members r)"
    and "score xxh3 (node_name a) key = score xxh3 (node_name b) key"
  shows "a = b"
  using assms by (auto simp: untied_def distinct_map dest: inj_onD)

lemma owner_unique:
  assumes "untied xxh3 r key" "n \<in> set (members r)"
    and "\<And>m. m \<in> set (members r) \<Longrightarrow> score xxh3 (node_name m) key \<le> score xxh3 (node_name n) key"
  shows "owner xxh3 r key = Some n"
proof -
  obtain o' where o: "owner xxh3 r key = Some o'" using assms(2) owner_exists by (metis empty_iff list.set(1))
  then have "score xxh3 (node_name o') key = score xxh3 (node_name n) key"
    using owner_max [OF o assms(2)] assms(3) [OF owner_member [OF o]] by simp
  then show ?thesis using untied_inj [OF assms(1)] owner_member [OF o] assms(2) o by auto
qed

text \<open>Two lists with the same common part: what is in a prefix of one and common is in that prefix of the other, unless something of its own is there.\<close>

lemma common_prefix:
  assumes "filter (\<lambda>x. x \<in> set ys) xs = filter (\<lambda>x. x \<in> set xs) ys" "m \<in> set (take k xs)" "m \<in> set ys" "set (take k ys) \<subseteq> set xs"
  shows "m \<in> set (take k ys)"
proof -
  have pre: "filter P (take k zs) = take (length (filter P (take k zs))) (filter P zs)" for P and zs :: "'a list"
    by (metis append_eq_conv_conj append_take_drop_id filter_append)
  let ?a = "length (filter (\<lambda>x. x \<in> set ys) (take k xs))"
  have ys: "filter (\<lambda>x. x \<in> set xs) (take k ys) = take k ys" using assms(4) by (auto simp: filter_id_conv)
  have "?a \<le> k" by (rule le_trans [OF length_filter_le]) simp
  moreover have "?a \<le> length (filter (\<lambda>x. x \<in> set ys) xs)" by (subst pre) simp
  then have "?a \<le> length ys" unfolding assms(1) by (rule le_trans) simp
  ultimately have "?a \<le> length (take k ys)" by simp
  then have "set (take ?a (filter (\<lambda>x. x \<in> set xs) ys)) \<subseteq> set (take (length (take k ys)) (filter (\<lambda>x. x \<in> set xs) ys))" by (rule set_take_subset_set_take)
  moreover have "take (length (take k ys)) (filter (\<lambda>x. x \<in> set xs) ys) = take k ys" using pre [of "\<lambda>x. x \<in> set xs" ys] unfolding ys by (rule sym)
  moreover have "m \<in> set (filter (\<lambda>x. x \<in> set ys) (take k xs))" using assms(2,3) by simp
  then have "m \<in> set (take ?a (filter (\<lambda>x. x \<in> set xs) ys))" using pre [of "\<lambda>x. x \<in> set ys" xs] assms(1) by simp
  ultimately show ?thesis by auto
qed

section \<open>Properties\<close>

text \<open>
  C32 (a membership change moves only the keys of nodes that left or joined): let a ring be replaced by any other that lists the members they share in the same
  order, as published rings, sorted by name, do; a node that comes back with another address counts as one that left and one that joined. For every hash and every key, the new owner is the old one, or the
  old one left, or the new one joined; the members that stayed are ranked in the same order; a node that stayed loses its place among the \<open>k\<close>
  homes only when a new node is among them, and gains one only when one of them left.
\<close>

theorem membership_change_moves_few:
  assumes "filter (\<lambda>n. n \<in> set (members r')) (members r) = filter (\<lambda>n. n \<in> set (members r)) (members r')"
  shows "(owner xxh3 r key = Some n \<longrightarrow> owner xxh3 r' key = Some n' \<longrightarrow> n' = n \<or> n \<notin> set (members r') \<or> n' \<notin> set (members r))
       \<and> filter (\<lambda>n. n \<in> set (members r')) (ranked xxh3 r key) = filter (\<lambda>n. n \<in> set (members r)) (ranked xxh3 r' key)
       \<and> (m \<in> set (homes xxh3 r key k) \<longrightarrow> m \<in> set (members r') \<longrightarrow> m \<in> set (homes xxh3 r' key k) \<or> \<not> set (homes xxh3 r' key k) \<subseteq> set (members r))
       \<and> (m \<in> set (homes xxh3 r' key k) \<longrightarrow> m \<in> set (members r) \<longrightarrow> m \<in> set (homes xxh3 r key k) \<or> \<not> set (homes xxh3 r key k) \<subseteq> set (members r'))"
proof (intro conjI)
  let ?f = "\<lambda>n. score xxh3 (node_name n) key"
  have "max_by_key ?f (filter (\<lambda>n. n \<in> set (members r')) (members r)) = Some n" if "owner xxh3 r key = Some n" "n \<in> set (members r')"
    using max_by_key_filter [of ?f "members r" n "\<lambda>n. n \<in> set (members r')"] that by (simp add: owner_def)
  moreover have "max_by_key ?f (filter (\<lambda>n. n \<in> set (members r)) (members r')) = Some n'" if "owner xxh3 r' key = Some n'" "n' \<in> set (members r)"
    using max_by_key_filter [of ?f "members r'" n' "\<lambda>n. n \<in> set (members r)"] that by (simp add: owner_def)
  ultimately show "owner xxh3 r key = Some n \<longrightarrow> owner xxh3 r' key = Some n' \<longrightarrow> n' = n \<or> n \<notin> set (members r') \<or> n' \<notin> set (members r)"
    using assms by auto
  have f: "filter P (ranked xxh3 q key) = sort_key (\<lambda>n. - uint (?f n)) (filter P (members q))" for P q
    unfolding ranked_def by (rule filter_sort)
  show rk: "filter (\<lambda>n. n \<in> set (members r')) (ranked xxh3 r key) = filter (\<lambda>n. n \<in> set (members r)) (ranked xxh3 r' key)"
    unfolding f assms ..
  show "m \<in> set (homes xxh3 r key k) \<longrightarrow> m \<in> set (members r') \<longrightarrow> m \<in> set (homes xxh3 r' key k) \<or> \<not> set (homes xxh3 r' key k) \<subseteq> set (members r)"
    using common_prefix [of "ranked xxh3 r' key" "ranked xxh3 r key" m k] rk by (auto simp: homes_def)
  show "m \<in> set (homes xxh3 r' key k) \<longrightarrow> m \<in> set (members r) \<longrightarrow> m \<in> set (homes xxh3 r key k) \<or> \<not> set (homes xxh3 r key k) \<subseteq> set (members r')"
    using common_prefix [of "ranked xxh3 r key" "ranked xxh3 r' key" m k] rk by (auto simp: homes_def)
qed

theorem membership_change_moves_few_witness:
  "owner (\<lambda>_ bs. of_nat (length bs)) (ring_new [node_id_new ''a'' ''1'', node_id_new ''bbb'' ''2'', node_id_new ''cc'' ''3'']) ''k'' = Some (node_id_new ''bbb'' ''2'')
   \<and> owner (\<lambda>_ bs. of_nat (length bs)) (ring_new [node_id_new ''bbb'' ''2'', node_id_new ''cc'' ''3'', node_id_new ''d'' ''4'']) ''k'' = Some (node_id_new ''bbb'' ''2'')
   \<and> node_id_new ''cc'' ''3'' \<in> set (homes (\<lambda>_ bs. of_nat (length bs)) (ring_new [node_id_new ''bbb'' ''2'', node_id_new ''cc'' ''3'', node_id_new ''d'' ''4'']) ''k'' 2)"
proof -
  let ?h = "\<lambda>_ bs. of_nat (length bs)" and ?r = "ring_new [node_id_new ''a'' ''1'', node_id_new ''bbb'' ''2'', node_id_new ''cc'' ''3'']"
  let ?r' = "ring_new [node_id_new ''bbb'' ''2'', node_id_new ''cc'' ''3'', node_id_new ''d'' ''4'']"
  have o: "owner ?h ?r ''k'' = Some (node_id_new ''bbb'' ''2'')" by (simp add: owner_def ring_new_def node_id_new_def score_def SCORE_SEPARATOR_def)
  have h: "homes ?h ?r' ''k'' 2 = [node_id_new ''bbb'' ''2'', node_id_new ''cc'' ''3'']"
    by (simp add: homes_def ranked_def ring_new_def node_id_new_def score_def SCORE_SEPARATOR_def)
  have c: "filter (\<lambda>n. n \<in> set (members ?r')) (members ?r) = filter (\<lambda>n. n \<in> set (members ?r)) (members ?r')" by (simp add: ring_new_def node_id_new_def)
  obtain n' where n': "owner ?h ?r' ''k'' = Some n'" "n' \<in> {node_id_new ''bbb'' ''2'', node_id_new ''cc'' ''3'', node_id_new ''d'' ''4''}"
    using owner_exists [of ?h ?r' "''k''"] owner_member by (fastforce simp: ring_new_def)
  have "n' \<noteq> node_id_new ''d'' ''4''" using n'(1) by (auto simp: owner_def ring_new_def node_id_new_def score_def SCORE_SEPARATOR_def)
  then have "n' = node_id_new ''bbb'' ''2''"
    using membership_change_moves_few [OF c, of ?h "''k''" "node_id_new ''bbb'' ''2''" n'] o n' by (auto simp: ring_new_def node_id_new_def)
  then show ?thesis using o n'(1) by (simp add: h)
qed

text \<open>
  When no two members tie on a key, the
  owner is the first of the ranking and so of every non-empty replication set, and the owner
  does not depend on the order in which the members are listed, so two nodes with the same
  members agree on every owner.
\<close>

lemma owner_leads_homes:
  assumes "untied xxh3 r key"
  shows "owner xxh3 r key = (case homes xxh3 r key (Suc k) of [] \<Rightarrow> None | n # _ \<Rightarrow> Some n)
       \<and> (\<forall>r' :: ring. mset (members r') = mset (members r) \<longrightarrow> owner xxh3 r' key = owner xxh3 r key)"
proof (intro conjI allI impI)
  show "owner xxh3 r key = (case homes xxh3 r key (Suc k) of [] \<Rightarrow> None | n # _ \<Rightarrow> Some n)"
  proof (cases "ranked xxh3 r key")
    case Nil
    then show ?thesis using owner_exists [of xxh3 r key] ranked_set [of xxh3 r key]
      by (auto simp: homes_def)
  next
    case (Cons n ns)
    then have "owner xxh3 r key = Some n"
      using ranked_sorted [of xxh3 key r] ranked_set [of xxh3 r key]
      by (intro owner_unique [OF assms]) auto
    then show ?thesis using Cons by (simp add: homes_def)
  qed
next
  fix r' :: ring
  assume eq: "mset (members r') = mset (members r)"
  have "untied xxh3 r' key"
    using assms eq unfolding untied_def by (metis mset_map mset_eq_imp_distinct_iff)
  then have "owner xxh3 r' key = Some n" if "owner xxh3 r key = Some n" for n
    using owner_member [OF that] owner_max [OF that] mset_eq_setD [OF eq] by (intro owner_unique) auto
  moreover have "owner xxh3 r' key = None" if "owner xxh3 r key = None"
    using that eq by (simp add: owner_def)
  ultimately show "owner xxh3 r' key = owner xxh3 r key" by (cases "owner xxh3 r key") auto
qed

lemma owner_leads_homes_example:
  "owner (\<lambda>_ bs. of_nat (length bs)) (ring_new [node_id_new ''a'' ''1'', node_id_new ''bbb'' ''2'']) ''k''
     = Some (node_id_new ''bbb'' ''2'')"
proof -
  have "untied (\<lambda>_ bs. of_nat (length bs)) (ring_new [node_id_new ''a'' ''1'', node_id_new ''bbb'' ''2'']) ''k''"
    by (simp add: untied_def ring_new_def node_id_new_def score_def SCORE_SEPARATOR_def)
  from owner_leads_homes [OF this, of 0] show ?thesis
    by (simp add: homes_def ranked_def ring_new_def node_id_new_def score_def SCORE_SEPARATOR_def)
qed

text \<open>
  C39 (ties split the owner from the ranking): \<open>ranked\<close> and \<open>homes\<close> are documented as ``owner first''. Of the members with the highest score for a key,
  \<open>owner\<close> answers the one listed last and the ranking starts with the one listed first. They agree exactly when these two are the same member. A name listed twice with two addresses,
  which a static peer list may have, ties with itself, so for every key such a name wins they differ.
\<close>

theorem ties_split_owner_from_ranking:
  assumes "members r \<noteq> []" and "winners = filter (\<lambda>n. \<forall>m \<in> set (members r). score xxh3 (node_name m) key \<le> score xxh3 (node_name n) key) (members r)"
  shows "owner xxh3 r key = Some (last winners) \<and> homes xxh3 r key 1 = [hd winners]
    \<and> (a \<in> set (members r) \<longrightarrow> b \<in> set winners \<longrightarrow> node_name a = node_name b \<longrightarrow> a \<in> set winners)"
proof (intro conjI)
  let ?f = "\<lambda>n. score xxh3 (node_name n) key"
  let ?best = "\<lambda>n. \<forall>m \<in> set (members r). ?f m \<le> ?f n"
  obtain n where "owner xxh3 r key = Some n" using owner_exists [of xxh3 r key] assms(1) by blast
  then obtain ys zs where n: "members r = ys @ n # zs" "\<And>y. y \<in> set ys \<Longrightarrow> ?f y \<le> ?f n" "\<And>z. z \<in> set zs \<Longrightarrow> ?f z < ?f n" "owner xxh3 r key = Some n"
    using max_by_key_split [of ?f "members r" n] unfolding owner_def by metis
  have "filter ?best zs = []" using n(1,3) by (auto simp: filter_empty_conv not_le)
  moreover have "?best n" using n(1-3) by (auto simp: less_imp_le)
  ultimately have "winners = filter ?best ys @ [n]" unfolding assms(2) n(1) filter_append filter.simps by simp
  then show "owner xxh3 r key = Some (last winners)" using n(4) by simp
  obtain h t where h: "ranked xxh3 r key = h # t" using assms(1) ranked_set [of xxh3 r key] by (cases "ranked xxh3 r key") auto
  have best: "?best x \<longleftrightarrow> - uint (?f x) = - uint (?f h)" if "x \<in> set (members r)" for x
  proof -
    have "?f m \<le> ?f h" if "m \<in> set (members r)" for m
      using ranked_sorted [of xxh3 key r] ranked_set [of xxh3 r key] that h by auto
    moreover have "h \<in> set (members r)" using h ranked_set [of xxh3 r key] by auto
    ultimately show ?thesis using that by (auto simp: word_uint_eq_iff [symmetric] intro: antisym)
  qed
  have "winners = filter (\<lambda>x. - uint (?f x) = - uint (?f h)) (members r)" unfolding assms(2) using best by (intro filter_cong) auto
  also have "\<dots> = filter (\<lambda>x. - uint (?f x) = - uint (?f h)) (ranked xxh3 r key)" unfolding ranked_def sort_key_stable ..
  finally show "homes xxh3 r key 1 = [hd winners]" using h by (simp add: homes_def)
  show "a \<in> set (members r) \<longrightarrow> b \<in> set winners \<longrightarrow> node_name a = node_name b \<longrightarrow> a \<in> set winners" by (simp add: assms(2))
qed

theorem ties_split_owner_from_ranking_witness:
  "let r = ring_new [node_id_new ''a'' ''0'', node_id_new ''nn'' ''1'', node_id_new ''b'' ''0'', node_id_new ''nn'' ''2''] in
     owner (\<lambda>_ bs. of_nat (length bs)) r ''k'' = Some (node_id_new ''nn'' ''2'') \<and> homes (\<lambda>_ bs. of_nat (length bs)) r ''k'' 1 = [node_id_new ''nn'' ''1'']"
  using ties_split_owner_from_ranking [of "ring_new [node_id_new ''a'' ''0'', node_id_new ''nn'' ''1'', node_id_new ''b'' ''0'', node_id_new ''nn'' ''2'']"
      "[node_id_new ''nn'' ''1'', node_id_new ''nn'' ''2'']" "\<lambda>_ bs. of_nat (length bs)" "''k''"]
  by (simp add: ring_new_def node_id_new_def score_def SCORE_SEPARATOR_def)

end
