(* ===== verification/Membership.thy ===== *)
theory Membership
  imports Ring
begin

text \<open>
  Where the member set comes from (\<^verbatim>\<open>pacer-ring/src/membership.rs\<close>): the static peer list and
  the EndpointSlice watch. The watch is the state machine its loop is: a map from slice name
  to ready members, the buffer of a re-list in progress, and the ring it publishes into. The
  events come from the Kubernetes client, which is not modelled: the theorems hold for every
  sequence of events.
\<close>

section \<open>The static peer list\<close>

definition parse_peer :: "string \<Rightarrow> node_id option" where
  "parse_peer pair = (case split_once CHR ''='' pair of
      None \<Rightarrow> None
    | Some (nm, ad) \<Rightarrow>
        (let nm = trim nm; ad = trim ad in
         if nm \<noteq> [] \<and> ad \<noteq> [] then Some (node_id_new nm ad) else None))"

definition parse_static_peers :: "string \<Rightarrow> node_id list" where
  "parse_static_peers s = List.map_filter parse_peer (split_on CHR '','' s)"

section \<open>EndpointSlices\<close>

text \<open>The fields of the Kubernetes objects the watch reads.\<close>

record endpoint =
  ep_ready :: "bool option option" \<comment> \<open>\<open>conditions\<close>, then its \<open>ready\<close>\<close>
  ep_node_name :: "string option"
  ep_addresses :: "string list"

record endpoint_slice =
  meta_name :: "string option"
  endpoints :: "endpoint list"

definition slice_name :: "endpoint_slice \<Rightarrow> string" where
  "slice_name es = (case meta_name es of None \<Rightarrow> [] | Some n \<Rightarrow> n)"

definition is_ready :: "endpoint \<Rightarrow> bool" where
  "is_ready ep = (case Option.bind (ep_ready ep) (\<lambda>r. r) of None \<Rightarrow> False | Some b \<Rightarrow> b)"

definition endpoint_member :: "endpoint \<Rightarrow> node_id option" where
  "endpoint_member ep = (case ep_node_name ep of
      None \<Rightarrow> None
    | Some nm \<Rightarrow> (case ep_addresses ep of [] \<Rightarrow> None | ad # _ \<Rightarrow> Some (node_id_new nm ad)))"

definition ready_members :: "endpoint_slice \<Rightarrow> node_id list" where
  "ready_members es = List.map_filter endpoint_member (filter is_ready (endpoints es))"

section \<open>Publishing\<close>

type_synonym slice_map = "(string, node_id list) btree_map"

text \<open>\<open>dedup_by\<close>: of a run of equal names the first stays.\<close>

fun dedup_names :: "node_id list \<Rightarrow> node_id list" where
  "dedup_names (a # b # ms) =
     (if node_name a = node_name b then dedup_names (a # ms) else a # dedup_names (b # ms))"
| "dedup_names ms = ms"

definition union_members :: "slice_map \<Rightarrow> node_id list" where
  "union_members slices = dedup_names (sort_key node_name (concat (map snd slices)))"

definition publish :: "ring \<Rightarrow> slice_map \<Rightarrow> ring" where
  "publish r slices = shared_store (union_members slices) r"

section \<open>The watch loop\<close>

datatype watch_event =
    Init
  | InitApply endpoint_slice
  | InitDone
  | Apply endpoint_slice
  | Delete endpoint_slice

record watch_state =
  slices :: slice_map
  pending :: "slice_map option"
  watched :: ring

definition watch_init :: "ring \<Rightarrow> watch_state" where
  "watch_init r = \<lparr>slices = [], pending = None, watched = r\<rparr>"

fun watch_step :: "watch_event \<Rightarrow> watch_state \<Rightarrow> watch_state" where
  "watch_step Init st = st\<lparr>pending := Some []\<rparr>"
| "watch_step (InitApply es) st = (case pending st of
      None \<Rightarrow> st
    | Some p \<Rightarrow> st\<lparr>pending := Some (btree_insert (slice_name es) (ready_members es) p)\<rparr>)"
| "watch_step InitDone st = (case pending st of
      None \<Rightarrow> st
    | Some p \<Rightarrow> st\<lparr>pending := None, slices := p, watched := publish (watched st) p\<rparr>)"
| "watch_step (Apply es) st =
     (let s = btree_insert (slice_name es) (ready_members es) (slices st)
      in st\<lparr>slices := s, watched := publish (watched st) s\<rparr>)"
| "watch_step (Delete es) st =
     (let s = btree_remove (slice_name es) (slices st)
      in st\<lparr>slices := s, watched := publish (watched st) s\<rparr>)"

section \<open>Lemmas\<close>

lemma dedup_names_subset: "set (dedup_names ms) \<subseteq> set ms"
  by (induction ms rule: dedup_names.induct) auto

lemma dedup_names_names: "node_name ` set (dedup_names ms) = node_name ` set ms"
  by (induction ms rule: dedup_names.induct) auto

lemma dedup_names_sorted:
  "sorted (map node_name ms) \<Longrightarrow> sorted_wrt (<) (map node_name (dedup_names ms))"
proof (induction ms rule: dedup_names.induct)
  case (1 a b ms)
  have "node_name ` set (dedup_names (b # ms)) = insert (node_name b) (node_name ` set ms)"
    by (simp add: dedup_names_names)
  with 1 show ?case by (auto simp: order_less_le)
qed simp_all

lemma union_members_sorted: "sorted_wrt (<) (map node_name (union_members s))"
  unfolding union_members_def by (rule dedup_names_sorted) simp

lemma union_members_names:
  "node_name ` set (union_members s) = {node_name m | m ms nm. (nm, ms) \<in> set s \<and> m \<in> set ms}"
  by (force simp: union_members_def dedup_names_names)

lemma union_members_subset: "m \<in> set (union_members s) \<Longrightarrow> \<exists>(nm, ms) \<in> set s. m \<in> set ms"
  using dedup_names_subset by (fastforce simp: union_members_def)

lemma members_publish [simp]: "members (publish r s) = union_members s"
  by (simp add: publish_def shared_store_def set_members_def)

text \<open>What the slices are: a map from the names last applied and not deleted since.\<close>

fun world_step :: "watch_event \<Rightarrow> (string \<rightharpoonup> node_id list) \<times> (string \<rightharpoonup> node_id list) option
    \<Rightarrow> (string \<rightharpoonup> node_id list) \<times> (string \<rightharpoonup> node_id list) option" where
  "world_step Init (w, p) = (w, Some Map.empty)"
| "world_step (InitApply es) (w, p) = (w, map_option (\<lambda>m. m(slice_name es \<mapsto> ready_members es)) p)"
| "world_step InitDone (w, p) = (case p of None \<Rightarrow> (w, None) | Some m \<Rightarrow> (m, None))"
| "world_step (Apply es) (w, p) = (w(slice_name es \<mapsto> ready_members es), p)"
| "world_step (Delete es) (w, p) = (w(slice_name es := None), p)"

definition world_of :: "watch_state \<Rightarrow> (string \<rightharpoonup> node_id list) \<times> (string \<rightharpoonup> node_id list) option" where
  "world_of st = (map_of (slices st), map_option map_of (pending st))"

text \<open>
  The invariant of the loop: both maps are ordered maps, and unless nothing was published
  yet, the ring holds exactly the union of the slices.
\<close>

definition watch_ok :: "watch_state \<Rightarrow> bool" where
  "watch_ok st \<longleftrightarrow> btree_ok (slices st) \<and> (case pending st of None \<Rightarrow> True | Some p \<Rightarrow> btree_ok p)
     \<and> (slices st = [] \<or> members (watched st) = union_members (slices st))"

lemma watch_step_ok: "watch_ok st \<Longrightarrow> watch_ok (watch_step e st)"
  by (cases e) (auto simp: watch_ok_def Let_def split: option.splits)

lemma watch_step_world: "watch_ok st \<Longrightarrow> world_of (watch_step e st) = world_step e (world_of st)"
  by (cases e) (auto simp: world_of_def watch_ok_def Let_def split: option.splits)

interpretation watch: invariant_system "\<lambda>st. \<exists>r. st = watch_init r" watch_step watch_ok
  by unfold_locales (auto simp: watch_init_def watch_ok_def watch_step_ok [unfolded watch_ok_def])

lemma watch_run_world: "watch_ok st \<Longrightarrow> world_of (fold watch_step es st) = fold world_step es (world_of st)"
  by (induction es arbitrary: st) (simp_all add: watch_step_world watch_step_ok)

section \<open>Properties\<close>

text \<open>
  C30 (nodes that watched the same world agree on every owner). The watch refines the map
  from slice name to ready members that its events describe; whatever events two nodes saw and in
  whatever order, if these leave the same non-empty map, both rings hold the same members in
  the same order, and so for every hash and key the two nodes name the same owner and the same
  replication set.
\<close>

theorem watchers_agree:
  assumes "fst (fold world_step es (Map.empty, None)) = fst (fold world_step es' (Map.empty, None))"
    and "fst (fold world_step es (Map.empty, None)) \<noteq> Map.empty"
  shows "let r = watched (fold watch_step es (watch_init r0)); r' = watched (fold watch_step es' (watch_init r0'))
     in members r = members r' \<and> owner xxh3 r key = owner xxh3 r' key \<and> homes xxh3 r key n = homes xxh3 r' key n"
proof -
  let ?s = "fold watch_step es (watch_init r0)" and ?s' = "fold watch_step es' (watch_init r0')"
  have ok: "watch_ok ?s" "watch_ok ?s'" by (rule watch.reachable_holds, blast)+
  have "watch_ok (watch_init r)" for r by (rule watch.initially) blast
  then have "map_of (slices ?s) = fst (fold world_step es (Map.empty, None))"
    "map_of (slices ?s') = fst (fold world_step es' (Map.empty, None))"
    using watch_run_world by (simp_all add: world_of_def watch_init_def prod_eq_iff)
  moreover from this ok have "slices ?s = slices ?s'"
    using assms(1) by (intro btree_ok_unique) (auto simp: watch_ok_def)
  ultimately have "members (watched ?s) = members (watched ?s')"
    using ok assms(2) by (auto simp: watch_ok_def)
  then show ?thesis by (simp add: Let_def owner_def homes_def ranked_def)
qed

definition example_slice :: endpoint_slice where
  "example_slice = \<lparr>meta_name = Some ''s'', endpoints =
     [\<lparr>ep_ready = Some (Some True), ep_node_name = Some ''n'', ep_addresses = [''1'']\<rparr>]\<rparr>"

theorem watchers_agree_witness:
  "members (watched (fold watch_step [Apply example_slice] (watch_init (ring_new []))))
     = members (watched (fold watch_step [Init, InitApply example_slice, InitDone] (watch_init (ring_new []))))"
proof -
  have 1: "fst (fold world_step [Apply example_slice] (Map.empty, None))
      = fst (fold world_step [Init, InitApply example_slice, InitDone] (Map.empty, None))"
    and 2: "fst (fold world_step [Apply example_slice] (Map.empty, None)) \<noteq> Map.empty"
    by simp_all
  from watchers_agree [OF 1 2] show ?thesis by (simp only: Let_def)
qed

text \<open>
  C31 (a re-list is atomic). From the start of a re-list to its end the published ring does
  not change whatever slices arrive; the end publishes exactly the slices of the re-list.
  Whenever anything is published, every published node is a ready endpoint of a current slice,
  every ready node's name is listed, and no name is listed twice.
\<close>

theorem relist_atomic:
  "watched (fold watch_step (Init # map InitApply es) st) = watched st
       \<and> (let st' = fold watch_step (Init # map InitApply es @ [InitDone]) st in
           map_of (slices st') = map_of (rev (map (\<lambda>e. (slice_name e, ready_members e)) es))
         \<and> members (watched st') = union_members (slices st')
         \<and> node_name ` set (members (watched st')) = {node_name m | m ms nm. (nm, ms) \<in> set (slices st') \<and> m \<in> set ms}
         \<and> sorted_wrt (<) (map node_name (members (watched st'))))"
proof -
  have run: "\<exists>p. fold watch_step (map InitApply es) st = st\<lparr>pending := Some p\<rparr> \<and> btree_ok p
      \<and> map_of p = map_of (rev (map (\<lambda>e. (slice_name e, ready_members e)) es) @ q)"
    if "pending st = Some q" "btree_ok q" for st q
    using that
  proof (induction es arbitrary: st q)
    case (Cons e es)
    have "btree_ok (btree_insert (slice_name e) (ready_members e) q)" using Cons.prems by simp
    from Cons.IH [OF _ this, of "watch_step (InitApply e) st"] Cons.prems
    show ?case by (auto simp: map_add_def fun_eq_iff)
  next
    case Nil
    then show ?case by (intro exI [of _ q]) (cases st, simp)
  qed
  from run [of "watch_step Init st" "[]"] obtain p where
    p: "fold watch_step (map InitApply es) (watch_step Init st) = st\<lparr>pending := Some p\<rparr>" "btree_ok p"
      "map_of p = map_of (rev (map (\<lambda>e. (slice_name e, ready_members e)) es))" by auto
  then show ?thesis
    using union_members_sorted union_members_names by (simp add: Let_def)
qed

definition print_peer :: "node_id \<Rightarrow> string" where
  "print_peer n = node_name n @ ''='' @ node_addr n"

definition peer_text :: "string \<Rightarrow> bool" where
  "peer_text s \<longleftrightarrow> s \<noteq> [] \<and> CHR '','' \<notin> set s \<and> graphic (hd s) \<and> graphic (last s)"

lemma parse_print_peer:
  assumes "peer_text (node_name n)" "peer_text (node_addr n)" "CHR ''='' \<notin> set (node_name n)"
  shows "parse_peer (print_peer n) = Some n"
proof -
  have "split_once CHR ''='' (print_peer n) = Some (node_name n, node_addr n)"
    using assms(3) by (simp add: split_once_Some print_peer_def)
  then show ?thesis using assms(1,2) trim_graphic [of "node_name n"] trim_graphic [of "node_addr n"]
    by (simp add: parse_peer_def peer_text_def Let_def node_id_new_def)
qed

text \<open>
  The static peer list reads back what it lists: printing nodes as \<open>name=addr\<close>
  separated by commas and parsing the result gives the nodes back, in order, provided no name
  or address holds a comma, no name an equals sign, and each begins and ends with a printable
  ASCII character.
\<close>

lemma static_peers_roundtrip:
  assumes "ns \<noteq> []" and "\<forall>n \<in> set ns. peer_text (node_name n) \<and> peer_text (node_addr n) \<and> CHR ''='' \<notin> set (node_name n)"
  shows "parse_static_peers (concat (map (\<lambda>n. print_peer n @ '','') (butlast ns)) @ print_peer (last ns)) = ns"
proof -
  have "CHR '','' \<notin> set (print_peer n)" if "n \<in> set ns" for n
    using assms(2) that by (auto simp: print_peer_def peer_text_def)
  then have "split_on CHR '','' (concat (map (\<lambda>n. print_peer n @ '','') (butlast ns)) @ print_peer (last ns))
      = map print_peer ns"
    using assms(1)
    by (induction ns rule: induct_list012) (auto simp: split_on_no_sep split_on_append)
  moreover have "map parse_peer (map print_peer ns) = map Some ns"
    using assms(2) by (simp add: parse_print_peer)
  ultimately show ?thesis
    unfolding parse_static_peers_def map_filter_def
    by (simp add: comp_def) (metis (mono_tags, lifting) filter_True assms(2) map_idI option.sel option.simps(3) parse_print_peer)
qed

lemma static_peers_roundtrip_example:
  "parse_static_peers ''node-a=10.0.0.1,node-b=10.0.0.2''
     = [node_id_new ''node-a'' ''10.0.0.1'', node_id_new ''node-b'' ''10.0.0.2'']"
  using static_peers_roundtrip [of "[node_id_new ''node-a'' ''10.0.0.1'', node_id_new ''node-b'' ''10.0.0.2'']"]
  by (simp add: node_id_new_def print_peer_def peer_text_def graphic_def)

end
