(* ===== verification/Directory.thy ===== *)
theory Directory
  imports Prelude
begin

text \<open>
  The chunk directory (\<^verbatim>\<open>pacer-ring/src/directory.rs\<close>): which nodes hold a chunk, as the
  chunk's home records it. Each operation is one definition; \<open>directory_op\<close> is what can arrive
  at a home, in any order. \<open>SharedDirectory\<close> is a lock around these operations, each taken
  whole, so a concurrent history is a sequence of them.
\<close>

section \<open>State\<close>

definition DEFAULT_MAX_SHARERS_TRACKED :: nat where
  "DEFAULT_MAX_SHARERS_TRACKED = 16"

datatype tier = Dram | Nvme

record holder =
  holder_node :: string
  holder_tier :: tier
  holder_generation :: u64

record sharer_set =
  sharers :: "holder list"
  sharers_widely_held :: bool

definition sharer_set_is_empty :: "sharer_set \<Rightarrow> bool" where
  "sharer_set_is_empty s \<longleftrightarrow> sharers s = [] \<and> \<not> sharers_widely_held s"

record entry =
  holders :: "(string, tier \<times> u64) hash_map"
  widely_held :: bool

definition entry_default :: entry where
  "entry_default = \<lparr>holders = [], widely_held = False\<rparr>"

record directory =
  max_sharers_tracked :: nat
  entries :: "(string, entry) hash_map"

definition directory_new :: "nat \<Rightarrow> directory" where
  "directory_new n = \<lparr>max_sharers_tracked = n, entries = []\<rparr>"

definition directory_default :: directory where
  "directory_default = directory_new DEFAULT_MAX_SHARERS_TRACKED"

section \<open>Operations\<close>

text \<open>\<open>admit\<close> on the entry it found or created.\<close>

definition admit_entry :: "nat \<Rightarrow> string \<Rightarrow> tier \<Rightarrow> u64 \<Rightarrow> entry \<Rightarrow> entry" where
  "admit_entry cap node t g e = (case map_of (holders e) node of
      Some (_, existing) \<Rightarrow>
        if existing \<le> g then e\<lparr>holders := AList.update node (t, g) (holders e)\<rparr> else e
    | None \<Rightarrow>
        if widely_held e \<or> cap \<le> length (holders e) then e\<lparr>widely_held := True\<rparr>
        else e\<lparr>holders := AList.update node (t, g) (holders e)\<rparr>)"

definition dir_admit :: "string \<Rightarrow> string \<Rightarrow> tier \<Rightarrow> u64 \<Rightarrow> directory \<Rightarrow> directory" where
  "dir_admit key node t g d =
     (let e = (case map_of (entries d) key of None \<Rightarrow> entry_default | Some e \<Rightarrow> e)
      in d\<lparr>entries := AList.update key (admit_entry (max_sharers_tracked d) node t g e) (entries d)\<rparr>)"

definition next_gen :: "string \<Rightarrow> string \<Rightarrow> directory \<Rightarrow> u64" where
  "next_gen key node d =
     (case Option.bind (map_of (entries d) key) (\<lambda>e. map_of (holders e) node) of
        None \<Rightarrow> 1 | Some (_, g) \<Rightarrow> g + 1)"

definition admit_next :: "string \<Rightarrow> string \<Rightarrow> tier \<Rightarrow> directory \<Rightarrow> directory \<times> u64" where
  "admit_next key node t d = (let g = next_gen key node d in (dir_admit key node t g d, g))"

definition dir_evict :: "string \<Rightarrow> string \<Rightarrow> u64 \<Rightarrow> directory \<Rightarrow> directory" where
  "dir_evict key node g d = (case map_of (entries d) key of
      None \<Rightarrow> d
    | Some e \<Rightarrow>
        (let e' = (case map_of (holders e) node of
              Some (_, existing) \<Rightarrow> if existing \<le> g then e\<lparr>holders := AList.delete node (holders e)\<rparr> else e
            | None \<Rightarrow> e)
         in if holders e' = [] \<and> \<not> widely_held e'
            then d\<lparr>entries := AList.delete key (entries d)\<rparr>
            else d\<lparr>entries := AList.update key e' (entries d)\<rparr>))"

definition dir_lookup :: "directory \<Rightarrow> string \<Rightarrow> sharer_set option" where
  "dir_lookup d key = map_option (\<lambda>e.
      \<lparr>sharers = map (\<lambda>(n, t, g). \<lparr>holder_node = n, holder_tier = t, holder_generation = g\<rparr>) (holders e),
       sharers_widely_held = widely_held e\<rparr>) (map_of (entries d) key)"

definition holdings_of :: "directory \<Rightarrow> string \<Rightarrow> (string \<times> tier \<times> u64) list" where
  "holdings_of d node = List.map_filter (\<lambda>(key, e).
      map_option (\<lambda>(t, g). (key, t, g)) (map_of (holders e) node)) (entries d)"

definition dir_remove :: "string \<Rightarrow> directory \<Rightarrow> directory" where
  "dir_remove key d = d\<lparr>entries := AList.delete key (entries d)\<rparr>"

definition dir_len :: "directory \<Rightarrow> nat" where
  "dir_len d = length (entries d)"

definition dir_is_empty :: "directory \<Rightarrow> bool" where
  "dir_is_empty d \<longleftrightarrow> entries d = []"

datatype directory_op =
    Admit string string tier u64
  | AdmitNext string string tier
  | Evict string string u64
  | Remove string

fun dir_apply :: "directory_op \<Rightarrow> directory \<Rightarrow> directory" where
  "dir_apply (Admit key node t g) d = dir_admit key node t g d"
| "dir_apply (AdmitNext key node t) d = fst (admit_next key node t d)"
| "dir_apply (Evict key node g) d = dir_evict key node g d"
| "dir_apply (Remove key) d = dir_remove key d"

section \<open>Invariant\<close>

text \<open>An entry within the cap that is not an empty residue.\<close>

definition entry_ok :: "nat \<Rightarrow> entry \<Rightarrow> bool" where
  "entry_ok cap e \<longleftrightarrow> keys_distinct (holders e) \<and> length (holders e) \<le> cap
     \<and> (holders e \<noteq> [] \<or> widely_held e)"

definition directory_ok :: "directory \<Rightarrow> bool" where
  "directory_ok d \<longleftrightarrow> keys_distinct (entries d)
     \<and> (\<forall>(k, e) \<in> set (entries d). entry_ok (max_sharers_tracked d) e)"

lemma directory_ok_entry: "directory_ok d \<Longrightarrow> map_of (entries d) k = Some e \<Longrightarrow> entry_ok (max_sharers_tracked d) e"
  by (auto simp: directory_ok_def dest: map_of_SomeD)

lemma set_update_subset: "set (AList.update k v m) \<subseteq> insert (k, v) (set m)"
  by (induction m) auto

lemma set_delete_subset: "set (AList.delete k m) \<subseteq> set m"
  by (auto simp: AList.delete_eq)

lemma length_update:
  "length (AList.update k v m) = (case map_of m k of Some _ \<Rightarrow> length m | None \<Rightarrow> Suc (length m))"
  by (induction m) (auto split: option.splits)

lemma update_nonempty [simp]: "AList.update k v m \<noteq> []"
  by (cases m) auto

lemma directory_ok_update:
  "directory_ok d \<Longrightarrow> entry_ok (max_sharers_tracked d) e \<Longrightarrow> directory_ok (d\<lparr>entries := AList.update k e (entries d)\<rparr>)"
  using set_update_subset [of k e "entries d"] by (auto simp: directory_ok_def distinct_update)

lemma directory_ok_delete:
  "directory_ok d \<Longrightarrow> directory_ok (d\<lparr>entries := AList.delete k (entries d)\<rparr>)"
  using set_delete_subset [of k "entries d"] by (auto simp: directory_ok_def distinct_delete)

lemma admit_entry_ok:
  assumes "entry_ok cap e \<or> e = entry_default"
  shows "entry_ok cap (admit_entry cap node t g e)"
  using assms
  by (auto simp: entry_ok_def admit_entry_def entry_default_def distinct_update length_update
      split: option.splits)

lemma dir_admit_ok: "directory_ok d \<Longrightarrow> directory_ok (dir_admit key node t g d)"
  unfolding dir_admit_def Let_def
  by (rule directory_ok_update) (auto intro!: admit_entry_ok dest: directory_ok_entry split: option.splits)

lemma dir_evict_ok:
  assumes "directory_ok d"
  shows "directory_ok (dir_evict key node g d)"
proof (cases "map_of (entries d) key")
  case (Some e)
  then have "entry_ok (max_sharers_tracked d) e" using directory_ok_entry assms by blast
  moreover have "length (AList.delete node (holders e)) \<le> length (holders e)"
    by (simp add: AList.delete_eq length_filter_le)
  ultimately show ?thesis using assms Some
    by (auto simp: dir_evict_def Let_def entry_ok_def distinct_delete
        intro!: directory_ok_update directory_ok_delete split: option.splits)
qed (simp add: dir_evict_def assms)

lemma dir_apply_ok: "directory_ok d \<Longrightarrow> directory_ok (dir_apply x d)"
  by (cases x) (auto simp: dir_admit_ok dir_evict_ok admit_next_def Let_def dir_remove_def directory_ok_delete)

interpretation dir: invariant_system "\<lambda>d. \<exists>n. d = directory_new n" dir_apply directory_ok
  by unfold_locales (auto simp: directory_new_def directory_ok_def dir_apply_ok [unfolded directory_ok_def])

section \<open>What is recorded of one holder\<close>

definition recorded :: "directory \<Rightarrow> string \<Rightarrow> string \<Rightarrow> (tier \<times> u64) option" where
  "recorded d key node = Option.bind (map_of (entries d) key) (\<lambda>e. map_of (holders e) node)"

lemma recorded_admit:
  "recorded (dir_admit key node t g d) key' node' =
     (if key' = key \<and> node' = node then
        (case recorded d key node of
           Some (t', g') \<Rightarrow> Some (if g' \<le> g then (t, g) else (t', g'))
         | None \<Rightarrow> (case map_of (entries d) key of
              Some e \<Rightarrow> if widely_held e \<or> max_sharers_tracked d \<le> length (holders e) then None else Some (t, g)
            | None \<Rightarrow> if max_sharers_tracked d = 0 then None else Some (t, g)))
      else recorded d key' node')"
  by (auto simp: recorded_def dir_admit_def Let_def admit_entry_def entry_default_def update_conv'
      split: option.splits)

lemma recorded_evict:
  "recorded (dir_evict key node g d) key' node' =
     (if key' = key \<and> node' = node then
        (case recorded d key node of Some (t', g') \<Rightarrow> if g' \<le> g then None else Some (t', g') | None \<Rightarrow> None)
      else recorded d key' node')"
proof (cases "map_of (entries d) key")
  case (Some e)
  have "map_of (holders e) node' = None" if "AList.delete node (holders e) = []" "node' \<noteq> node"
    using that by (metis delete_conv' fun_upd_other map_of.simps(1))
  with Some show ?thesis
    by (auto simp: recorded_def dir_evict_def Let_def update_conv' delete_conv' split: option.splits)
qed (auto simp: recorded_def dir_evict_def)

lemma recorded_remove: "recorded (dir_remove key d) key' node' = (if key' = key then None else recorded d key' node')"
  by (auto simp: recorded_def dir_remove_def delete_conv')

text \<open>The operations that may take a registration of generation \<open>g\<close> away.\<close>

fun may_drop :: "string \<Rightarrow> string \<Rightarrow> u64 \<Rightarrow> directory_op \<Rightarrow> bool" where
  "may_drop key node g (Evict key' node' g') \<longleftrightarrow> key' = key \<and> node' = node \<and> g \<le> g'"
| "may_drop key node g (Remove key') \<longleftrightarrow> key' = key"
| "may_drop key node g _ \<longleftrightarrow> False"

lemma recorded_step:
  assumes "recorded d key node = Some (t, g)" and "g0 \<le> g" and "\<not> (\<exists>g' \<ge> g0. may_drop key node g' x)"
  shows "\<exists>t' g'. recorded (dir_apply x d) key node = Some (t', g') \<and> g \<le> g'"
proof (cases x)
  case (Evict key' node' g')
  then show ?thesis using assms
    by (auto simp: recorded_evict)
qed (use assms in \<open>auto simp: recorded_admit recorded_remove admit_next_def Let_def\<close>)

section \<open>Properties\<close>

text \<open>
  After any sequence of admissions, evictions and
  invalidations, in any order, no key has two entries and no node is listed twice in one, no entry lists
  more holders than the cap, and a fully evicted chunk leaves no residue: an entry with no
  holder exists only once the cap was hit.
\<close>

lemma directory_reachable_ok:
  "let d = fold dir_apply ops (directory_new cap) in
     max_sharers_tracked d = cap \<and> keys_distinct (entries d)
   \<and> (\<forall>(k, e) \<in> set (entries d). keys_distinct (holders e) \<and> length (holders e) \<le> cap
        \<and> (holders e = [] \<longrightarrow> widely_held e))"
proof -
  have "max_sharers_tracked (dir_apply x d) = max_sharers_tracked d" for x d
    by (cases x) (auto simp: dir_admit_def admit_next_def dir_evict_def dir_remove_def Let_def split: option.splits)
  then have "max_sharers_tracked (fold dir_apply ops d) = max_sharers_tracked d" for d
    by (induction ops arbitrary: d) simp_all
  moreover have "directory_ok (fold dir_apply ops (directory_new cap))"
    by (rule dir.reachable_holds) blast
  ultimately show ?thesis
    by (auto simp: Let_def directory_ok_def entry_ok_def directory_new_def)
qed

lemma directory_reachable_ok_example:
  "length (holders (the (map_of (entries (fold dir_apply [Admit ''k'' ''a'' Dram 1, Admit ''k'' ''b'' Nvme 1]
     (directory_new 1))) ''k''))) \<le> 1"
  using directory_reachable_ok [of "[Admit ''k'' ''a'' Dram 1, Admit ''k'' ''b'' Nvme 1]" 1]
  by (simp add: Let_def dir_admit_def directory_new_def admit_entry_def entry_default_def)

text \<open>
  C29 (a stale message never undoes a fresher registration). Once a holder is recorded with a
  generation, then whatever messages follow in whatever order (duplicates, stale admissions
  and evictions of older generations included), it stays recorded with at least that generation
  until an eviction of that or a newer generation, or an invalidation of the key.
\<close>

theorem stale_messages_keep_holder:
  assumes "recorded d key node = Some (t, g)"
    and "\<forall>x \<in> set ops. \<forall>g' \<ge> g. \<not> may_drop key node g' x"
  shows "\<exists>t' g'. recorded (fold dir_apply ops d) key node = Some (t', g') \<and> g \<le> g'"
proof -
  have "\<exists>t' g'. recorded (fold dir_apply ops d) key node = Some (t', g') \<and> g \<le> g'"
    if "recorded d key node = Some (t, h)" "g \<le> h" for t h
    using that assms(2)
  proof (induction ops arbitrary: d t h)
    case (Cons x ops)
    obtain t' h' where "recorded (dir_apply x d) key node = Some (t', h')" "h \<le> h'"
      using recorded_step [OF Cons.prems(1,2), of x] Cons.prems(3) by auto
    then show ?case using Cons.IH [of "dir_apply x d" t' h'] Cons.prems by auto
  qed auto
  then show ?thesis using assms(1) by blast
qed

theorem stale_messages_keep_holder_witness:
  "\<exists>t' g'. recorded (fold dir_apply [Evict ''k'' ''a'' 1, Admit ''k'' ''a'' Nvme 1]
       (dir_admit ''k'' ''a'' Dram 2 (directory_new 16))) ''k'' ''a'' = Some (t', g') \<and> 2 \<le> g'"
proof (rule stale_messages_keep_holder)
  show "recorded (dir_admit ''k'' ''a'' Dram 2 (directory_new 16)) ''k'' ''a'' = Some (Dram, 2)"
    by (simp add: recorded_admit) (simp add: recorded_def directory_new_def)
  have "\<not> g' \<le> 1" if "2 \<le> g'" for g' :: u64 using that by (auto simp: word_le_nat_alt)
  then show "\<forall>x \<in> set [Evict ''k'' ''a'' 1, Admit ''k'' ''a'' Nvme 1]. \<forall>g' \<ge> 2. \<not> may_drop ''k'' ''a'' g' x"
    by simp
qed

text \<open>
  In every directory reached, a node's holdings are exactly the keys
  whose lookup lists the node, with the tier and generation the lookup reports, and a lookup never
  answers the empty sharer set: a key with nothing to report has no entry.
\<close>

lemma holdings_match_lookup:
  "let d = fold dir_apply ops (directory_new cap) in
     ((key, t, g) \<in> set (holdings_of d node) \<longleftrightarrow>
        (\<exists>s. dir_lookup d key = Some s \<and> \<lparr>holder_node = node, holder_tier = t, holder_generation = g\<rparr> \<in> set (sharers s)))
   \<and> (case dir_lookup d key of None \<Rightarrow> True | Some s \<Rightarrow> \<not> sharer_set_is_empty s)"
proof -
  let ?d = "fold dir_apply ops (directory_new cap)"
  have ok: "directory_ok ?d" by (rule dir.reachable_holds) blast
  then have "(key, t, g) \<in> set (holdings_of ?d node) \<longleftrightarrow>
      (\<exists>e. map_of (entries ?d) key = Some e \<and> map_of (holders e) node = Some (t, g))"
    by (force simp: holdings_of_def map_filter_def directory_ok_def intro: rev_image_eqI split: option.splits)
  also have "\<dots> \<longleftrightarrow> (\<exists>e. map_of (entries ?d) key = Some e \<and> (node, t, g) \<in> set (holders e))"
    using directory_ok_entry [OF ok] by (auto simp: entry_ok_def)
  finally show ?thesis
    using directory_ok_entry [OF ok, of key]
    by (auto simp: Let_def dir_lookup_def sharer_set_is_empty_def entry_ok_def image_iff split: option.splits) force+
qed

text \<open>
  C40 (an eviction that overtakes its admission leaves a phantom holder). The module
  says that the generation lets an admission and eviction pair that arrives out of
  order fold correctly. It does not for one pair of the same generation: in order they
  leave no record, but when the eviction arrives first, the node stays listed as a holder.
\<close>

theorem overtaken_admit_leaves_phantom:
  "recorded (fold dir_apply [Admit key node t g, Evict key node g] (directory_new (Suc cap))) key node = None
   \<and> recorded (fold dir_apply [Evict key node g, Admit key node t g] (directory_new (Suc cap))) key node = Some (t, g)"
  by (simp add: recorded_evict recorded_admit) (simp add: recorded_def directory_new_def dir_evict_def)

end
