(* ===== verification/Slot.thy ===== *)
theory Slot
  imports Prelude
begin

text \<open>
  The on-disk header of one chunk slot (\<^verbatim>\<open>pacer-cache/src/slot.rs\<close>): its byte layout, \<open>write_to\<close>
  and \<open>parse\<close>. Both assert the length of their buffer, so both are partial: \<open>None\<close> is the
  panic. The theorems show that a header reads back as written, that whatever parses has
  the canonical layout, and that a page of zeros is a free slot.
\<close>

section \<open>Layout\<close>

definition SLOT_HEADER_BYTES :: nat where "SLOT_HEADER_BYTES = 4096"
definition SLOT_MAGIC :: u64 where "SLOT_MAGIC = 0x50414345525f534c"
definition SLOT_FORMAT_VERSION :: u32 where "SLOT_FORMAT_VERSION = 3"
definition OFF_MAGIC :: nat where "OFF_MAGIC = 0"
definition OFF_VERSION :: nat where "OFF_VERSION = 8"
definition OFF_BODY_LEN :: nat where "OFF_BODY_LEN = 12"
definition OFF_BODY_CRC :: nat where "OFF_BODY_CRC = 16"
definition OFF_KEY_LEN :: nat where "OFF_KEY_LEN = 20"
definition OFF_ETAG_LEN :: nat where "OFF_ETAG_LEN = 22"
definition OFF_KEY :: nat where "OFF_KEY = 24"
definition MAX_ETAG_BYTES :: nat where "MAX_ETAG_BYTES = 256"
definition MAX_KEY_BYTES :: nat where "MAX_KEY_BYTES = SLOT_HEADER_BYTES - OFF_KEY - MAX_ETAG_BYTES"

lemmas slot_layout = SLOT_HEADER_BYTES_def OFF_MAGIC_def OFF_VERSION_def OFF_BODY_LEN_def OFF_BODY_CRC_def
  OFF_KEY_LEN_def OFF_ETAG_LEN_def OFF_KEY_def MAX_ETAG_BYTES_def MAX_KEY_BYTES_def

record slot_header =
  hdr_key :: string
  body_len :: u32
  hdr_crc :: u32
  hdr_e_tag :: "string option"

datatype slot_state = Free | Corrupt | KeyNotUtf8

datatype slot_write_error = KeyTooLong nat | ETagTooLong nat

section \<open>Operations\<close>

text \<open>\<open>dst[at..at + src.len()].copy_from_slice(src)\<close>, in range at every call below.\<close>

definition copy_at :: "nat \<Rightarrow> bytes \<Rightarrow> bytes \<Rightarrow> bytes" where
  "copy_at at src dst = take at dst @ src @ drop (at + length src) dst"

definition slot_etag_bytes :: "slot_header \<Rightarrow> bytes" where
  "slot_etag_bytes h = (case hdr_e_tag h of None \<Rightarrow> [] | Some t \<Rightarrow> t)"

definition write_to :: "slot_header \<Rightarrow> bytes \<Rightarrow> (slot_write_error + bytes) option" where
  "write_to h dst =
     (if length dst \<noteq> SLOT_HEADER_BYTES then None
      else let key = hdr_key h; etag = slot_etag_bytes h in
        if MAX_KEY_BYTES < length key then Some (Inl (KeyTooLong (length key)))
        else if MAX_ETAG_BYTES < length etag then Some (Inl (ETagTooLong (length etag)))
        else let dst = replicate (length dst) (char_of (0 :: nat));
                 dst = copy_at OFF_MAGIC (le_bytes 8 (unat SLOT_MAGIC)) dst;
                 dst = copy_at OFF_VERSION (le_bytes 4 (unat SLOT_FORMAT_VERSION)) dst;
                 dst = copy_at OFF_BODY_LEN (le_bytes 4 (unat (body_len h))) dst;
                 dst = copy_at OFF_BODY_CRC (le_bytes 4 (unat (hdr_crc h))) dst;
                 dst = copy_at OFF_KEY_LEN (le_bytes 2 (unat (of_nat (length key) :: u16))) dst;
                 dst = copy_at OFF_ETAG_LEN (le_bytes 2 (unat (of_nat (length etag) :: u16))) dst;
                 dst = copy_at OFF_KEY key dst;
                 dst = copy_at (OFF_KEY + length key) etag dst
             in Some (Inr dst))"

text \<open>\<open>read_array\<close>: the \<open>N\<close> bytes at an offset.\<close>

definition read_array :: "nat \<Rightarrow> bytes \<Rightarrow> nat \<Rightarrow> bytes" where
  "read_array n src at = seg at (at + n) src"

definition slot_parse :: "bytes \<Rightarrow> nat \<Rightarrow> (slot_state + slot_header) option" where
  "slot_parse src capacity =
     (if length src < SLOT_HEADER_BYTES then None
      else Some (
        let magic = of_nat (from_le (read_array 8 src OFF_MAGIC)) :: u64;
            version = of_nat (from_le (read_array 4 src OFF_VERSION)) :: u32
        in if magic \<noteq> SLOT_MAGIC \<or> version \<noteq> SLOT_FORMAT_VERSION then Inl Free
        else let blen = of_nat (from_le (read_array 4 src OFF_BODY_LEN)) :: u32;
                 bcrc = of_nat (from_le (read_array 4 src OFF_BODY_CRC)) :: u32;
                 key_len = from_le (read_array 2 src OFF_KEY_LEN)
             in if key_len = 0 \<or> MAX_KEY_BYTES < key_len \<or> capacity < unat blen then Inl Corrupt
        else let key = seg OFF_KEY (OFF_KEY + key_len) src
             in if \<not> valid_utf8 key then Inl KeyNotUtf8
        else let etag_len = from_le (read_array 2 src OFF_ETAG_LEN)
             in if MAX_ETAG_BYTES < etag_len then Inl Corrupt
        else let etag_at = OFF_KEY + key_len; etag = seg etag_at (etag_at + etag_len) src
             in if etag_len = 0
                then Inr \<lparr>hdr_key = key, body_len = blen, hdr_crc = bcrc, hdr_e_tag = None\<rparr>
                else if \<not> valid_utf8 etag then Inl Corrupt
                else Inr \<lparr>hdr_key = key, body_len = blen, hdr_crc = bcrc, hdr_e_tag = Some etag\<rparr>))"

section \<open>The canonical layout\<close>

definition header_prefix :: "slot_header \<Rightarrow> bytes" where
  "header_prefix h = le_bytes 8 (unat SLOT_MAGIC) @ le_bytes 4 (unat SLOT_FORMAT_VERSION)
     @ le_bytes 4 (unat (body_len h)) @ le_bytes 4 (unat (hdr_crc h))
     @ le_bytes 2 (length (hdr_key h)) @ le_bytes 2 (length (slot_etag_bytes h))
     @ hdr_key h @ slot_etag_bytes h"

text \<open>A header the format can hold, and one that also reads back unchanged.\<close>

definition header_fits :: "slot_header \<Rightarrow> bool" where
  "header_fits h \<longleftrightarrow> length (hdr_key h) \<le> MAX_KEY_BYTES \<and> length (slot_etag_bytes h) \<le> MAX_ETAG_BYTES"

definition header_ok :: "nat \<Rightarrow> slot_header \<Rightarrow> bool" where
  "header_ok capacity h \<longleftrightarrow> header_fits h \<and> hdr_key h \<noteq> [] \<and> valid_utf8 (hdr_key h)
     \<and> unat (body_len h) \<le> capacity \<and> valid_utf8 (slot_etag_bytes h) \<and> hdr_e_tag h \<noteq> Some []"

lemma length_header_prefix: "length (header_prefix h) = OFF_KEY + length (hdr_key h) + length (slot_etag_bytes h)"
  by (simp add: header_prefix_def OFF_KEY_def)

lemma header_prefix_bound: "header_fits h \<Longrightarrow> length (header_prefix h) \<le> SLOT_HEADER_BYTES"
  by (simp add: length_header_prefix header_fits_def slot_layout)

lemma copy_at_end:
  "at = length a \<Longrightarrow> length b \<le> n \<Longrightarrow> copy_at at b (a @ replicate n z) = (a @ b) @ replicate (n - length b) z"
  by (simp add: copy_at_def)

lemma unat_len_u16: "n < 65536 \<Longrightarrow> unat (of_nat n :: u16) = n"
  by (simp add: unat_of_nat)

lemma write_to_layout:
  assumes "length dst = SLOT_HEADER_BYTES" "header_fits h"
  shows "write_to h dst = Some (Inr (header_prefix h
           @ replicate (SLOT_HEADER_BYTES - length (header_prefix h)) (char_of (0 :: nat))))"
proof -
  have len: "length (hdr_key h) \<le> 3816" "length (slot_etag_bytes h) \<le> 256"
    using assms(2) by (simp_all add: header_fits_def slot_layout)
  have n: "4096 - (8 + 4 + 4 + 4 + 2 + 2 :: nat) = 4072" by simp
  show ?thesis
    using len assms(1) copy_at_end [of 0 "[]" _ 4096]
    by (simp add: write_to_def Let_def slot_layout copy_at_end unat_len_u16 header_prefix_def del: append_assoc)
qed

lemma write_to_error:
  assumes "length dst = SLOT_HEADER_BYTES"
  shows "write_to h dst = Some (Inl (KeyTooLong (length (hdr_key h)))) \<longleftrightarrow> MAX_KEY_BYTES < length (hdr_key h)"
    and "(\<exists>e. write_to h dst = Some (Inl e)) \<longleftrightarrow> \<not> header_fits h"
  using assms by (auto simp: write_to_def Let_def header_fits_def)

text \<open>Reading a field out of a canonical page.\<close>

lemma seg_skip: "i = length a + k \<Longrightarrow> j = length a + l \<Longrightarrow> seg i j (a @ b) = seg k l b"
  by (simp add: seg_def)

lemma seg_hit: "j = length a \<Longrightarrow> seg 0 j (a @ b) = a"
  by (simp add: seg_def)

lemma read_fields:
  assumes "header_fits h"
  shows "read_array 8 (header_prefix h @ z) OFF_MAGIC = le_bytes 8 (unat SLOT_MAGIC)"
    and "read_array 4 (header_prefix h @ z) OFF_VERSION = le_bytes 4 (unat SLOT_FORMAT_VERSION)"
    and "read_array 4 (header_prefix h @ z) OFF_BODY_LEN = le_bytes 4 (unat (body_len h))"
    and "read_array 4 (header_prefix h @ z) OFF_BODY_CRC = le_bytes 4 (unat (hdr_crc h))"
    and "read_array 2 (header_prefix h @ z) OFF_KEY_LEN = le_bytes 2 (length (hdr_key h))"
    and "read_array 2 (header_prefix h @ z) OFF_ETAG_LEN = le_bytes 2 (length (slot_etag_bytes h))"
    and "seg OFF_KEY (OFF_KEY + length (hdr_key h)) (header_prefix h @ z) = hdr_key h"
    and "seg (OFF_KEY + length (hdr_key h)) (OFF_KEY + length (hdr_key h) + length (slot_etag_bytes h)) (header_prefix h @ z)
      = slot_etag_bytes h"
  unfolding read_array_def header_prefix_def slot_layout by (simp_all add: seg_def)

lemma header_numbers:
  "of_nat (from_le (le_bytes 8 (unat m))) = m" "of_nat (from_le (le_bytes 4 (unat w))) = w"
  for m :: u64 and w :: u32
  by (simp_all only: from_le_u64 from_le_u32) simp_all

lemma header_lengths:
  assumes "header_fits h"
  shows "from_le (le_bytes 2 (length (hdr_key h))) = length (hdr_key h)"
    and "from_le (le_bytes 2 (length (slot_etag_bytes h))) = length (slot_etag_bytes h)"
  using assms by (simp_all add: from_le_le_bytes_mod header_fits_def slot_layout)

lemma parse_canonical:
  assumes "header_ok capacity h" "SLOT_HEADER_BYTES \<le> length (header_prefix h @ z)"
  shows "slot_parse (header_prefix h @ z) capacity = Some (Inr h)"
proof -
  have fits: "header_fits h" and ok: "hdr_key h \<noteq> []" "valid_utf8 (hdr_key h)" "unat (body_len h) \<le> capacity"
    "valid_utf8 (slot_etag_bytes h)" "hdr_e_tag h \<noteq> Some []"
    using assms(1) by (auto simp: header_ok_def)
  have bounds: "\<not> MAX_KEY_BYTES < length (hdr_key h)" "\<not> MAX_ETAG_BYTES < length (slot_etag_bytes h)"
    using fits by (auto simp: header_fits_def)
  have "hdr_e_tag h = (if slot_etag_bytes h = [] then None else Some (slot_etag_bytes h))"
    using ok(5) by (auto simp: slot_etag_bytes_def split: option.splits)
  then show ?thesis
    using assms(2) ok bounds unfolding slot_parse_def Let_def
    by (simp only: read_fields [OF fits] header_numbers header_lengths [OF fits]) auto
qed

lemma write_then_parse:
  assumes "header_ok capacity h" and "length dst = SLOT_HEADER_BYTES"
  shows "\<exists>page. write_to h dst = Some (Inr page) \<and> length page = SLOT_HEADER_BYTES
     \<and> slot_parse (page @ rest) capacity = Some (Inr h)"
proof -
  have fits: "header_fits h" using assms(1) by (simp add: header_ok_def)
  show ?thesis
    using header_prefix_bound [OF fits] parse_canonical [OF assms(1)]
    by (simp add: write_to_layout [OF assms(2) fits])
qed

section \<open>Properties\<close>

text \<open>
  C18 (a slot header reads back as written). Into any one-page buffer, whatever it held,
  \<open>write_to\<close> writes a page that \<open>parse\<close> reads as the same header, whatever follows the page,
  for every header with a non-empty UTF-8 key and a UTF-8 witness within the budgets and a body
  the slot can hold.
\<close>

theorem slot_roundtrip:
  assumes "header_ok capacity h" and "length dst = SLOT_HEADER_BYTES"
  shows "\<exists>page. write_to h dst = Some (Inr page) \<and> length page = SLOT_HEADER_BYTES
     \<and> slot_parse (page @ rest) capacity = Some (Inr h)"
  by (rule write_then_parse [OF assms])

theorem slot_roundtrip_witness:
  "\<exists>page. write_to \<lparr>hdr_key = ''b/k#4:0'', body_len = 3, hdr_crc = 7, hdr_e_tag = Some ''v1''\<rparr>
       (replicate 4096 CHR ''x'') = Some (Inr page) \<and> length page = SLOT_HEADER_BYTES
     \<and> slot_parse (page @ ''tail'') 4
       = Some (Inr \<lparr>hdr_key = ''b/k#4:0'', body_len = 3, hdr_crc = 7, hdr_e_tag = Some ''v1''\<rparr>)"
  by (rule slot_roundtrip)
     (simp_all add: header_ok_def header_fits_def slot_etag_bytes_def slot_layout byte_in_def)

lemma read_array_u64:
  "off + 8 \<le> length src \<Longrightarrow> le_bytes 8 (unat (of_nat (from_le (read_array 8 src off)) :: u64)) = read_array 8 src off"
  using le_bytes_from_le [of "read_array 8 src off"] from_le_bound [of "read_array 8 src off"]
  by (simp add: read_array_def unat_of_nat)

lemma read_array_u32:
  "off + 4 \<le> length src \<Longrightarrow> le_bytes 4 (unat (of_nat (from_le (read_array 4 src off)) :: u32)) = read_array 4 src off"
  using le_bytes_from_le [of "read_array 4 src off"] from_le_bound [of "read_array 4 src off"]
  by (simp add: read_array_def unat_of_nat)

lemma read_array_len:
  "off + n \<le> length src \<Longrightarrow> le_bytes n (from_le (read_array n src off)) = read_array n src off"
  using le_bytes_from_le [of "read_array n src off"] by (simp add: read_array_def)

lemma seg_Nil: "seg i (i + n) xs = [] \<longleftrightarrow> n = 0 \<or> length xs \<le> i"
  by (auto simp: seg_def)

text \<open>The fields of a parsed page, and the page's front as their concatenation.\<close>

lemma parse_fields:
  assumes "slot_parse src capacity = Some (Inr h)"
  shows "SLOT_HEADER_BYTES \<le> length src" and "header_ok capacity h"
    and "SLOT_MAGIC = of_nat (from_le (read_array 8 src OFF_MAGIC))"
    and "SLOT_FORMAT_VERSION = of_nat (from_le (read_array 4 src OFF_VERSION))"
    and "body_len h = of_nat (from_le (read_array 4 src OFF_BODY_LEN))"
    and "hdr_crc h = of_nat (from_le (read_array 4 src OFF_BODY_CRC))"
    and "length (hdr_key h) = from_le (read_array 2 src OFF_KEY_LEN)"
    and "length (slot_etag_bytes h) = from_le (read_array 2 src OFF_ETAG_LEN)"
    and "hdr_key h = seg OFF_KEY (OFF_KEY + length (hdr_key h)) src"
    and "slot_etag_bytes h = seg (OFF_KEY + length (hdr_key h)) (OFF_KEY + length (hdr_key h) + length (slot_etag_bytes h)) src"
  using assms unfolding slot_parse_def Let_def
  by (auto simp: header_ok_def header_fits_def slot_etag_bytes_def slot_layout seg_Nil split: if_splits)

lemma parse_prefix:
  assumes "slot_parse src capacity = Some (Inr h)"
  shows "header_prefix h = take (length (header_prefix h)) src"
proof -
  note f = parse_fields [OF assms]
  let ?k = "length (hdr_key h)" and ?e = "length (slot_etag_bytes h)"
  have "4096 \<le> length src" using f(1) by (simp add: SLOT_HEADER_BYTES_def)
  then have "header_prefix h = seg 0 8 src @ seg 8 12 src @ seg 12 16 src @ seg 16 20 src @ seg 20 22 src
      @ seg 22 24 src @ seg 24 (24 + ?k) src @ seg (24 + ?k) (24 + ?k + ?e) src"
    unfolding header_prefix_def f(3) f(4) f(5) f(6) f(7) f(8)
    by (subst f(9), subst f(10))
       (simp add: read_array_u64 read_array_u32 read_array_len slot_layout f(7,8), simp add: read_array_def)
  also have "\<dots> = seg 0 (24 + ?k + ?e) src"
    by (simp add: seg_append)
  also have "\<dots> = take (length (header_prefix h)) src"
    by (simp add: seg_def length_header_prefix OFF_KEY_def)
  finally show ?thesis .
qed

lemma header_prefix_hd: "\<exists>t. header_prefix h = CHR ''L'' # t"
proof -
  have "le_bytes (Suc 7) (unat SLOT_MAGIC) = CHR ''L'' # le_bytes 7 (unat SLOT_MAGIC div 256)"
    by (subst le_bytes.simps) (simp add: SLOT_MAGIC_def char_of_def)
  then show ?thesis by (simp add: header_prefix_def)
qed

lemma parse_zeros: "slot_parse (replicate n (char_of (0 :: nat))) capacity \<noteq> Some (Inr h)"
proof
  assume p: "slot_parse (replicate n (char_of (0 :: nat))) capacity = Some (Inr h)"
  obtain t where "header_prefix h = CHR ''L'' # t" using header_prefix_hd by blast
  with parse_prefix [OF p] have "CHR ''L'' \<in> set (replicate n (char_of (0 :: nat)))"
    by (metis in_set_takeD list.set_intros(1))
  then show False by (auto simp: char_of_def)
qed

text \<open>
  If any page, from whatever
  source, parses to a header, then that header satisfies every bound a reader relies on (a
  non-empty UTF-8 key within the page, a body within the slot, a UTF-8 witness within its
  budget) and the page starts with exactly the bytes \<open>write_to\<close> would put there; in particular
  a page of zeros, which is what a hole in the file reads, is never a header.
\<close>

lemma parse_sound:
  assumes "slot_parse src capacity = Some (Inr h)"
  shows "header_ok capacity h \<and> take (length (header_prefix h)) src = header_prefix h
     \<and> (\<forall>n. src \<noteq> replicate n (char_of (0 :: nat)))"
  using parse_fields(2) [OF assms] parse_prefix [OF assms] parse_zeros assms by auto

lemma parse_sound_example:
  "\<exists>page h. slot_parse page 4 = Some (Inr h) \<and> header_ok 4 h \<and> take (length (header_prefix h)) page = header_prefix h"
proof -
  define h where "h = \<lparr>hdr_key = ''b/k#4:0'', body_len = 3, hdr_crc = 7, hdr_e_tag = Some ''v1''\<rparr>"
  have "header_ok 4 h"
    by (simp add: h_def header_ok_def header_fits_def slot_etag_bytes_def slot_layout byte_in_def)
  then have "slot_parse (header_prefix h @ replicate 4096 CHR ''x'') 4 = Some (Inr h)"
    by (rule parse_canonical) (simp add: SLOT_HEADER_BYTES_def)
  with parse_sound [OF this] show ?thesis by blast
qed

end
