(* ===== verification/Index.thy ===== *)
theory Index
  imports Prelude
begin

text \<open>
  The in-memory index of the chunk store (\<^verbatim>\<open>pacer-cache/src/store.rs\<close>, \<open>Index\<close> and the methods
  of \<open>ChunkStore\<close> that only touch it): a hash map from key to slot number, a vector of slots that
  carries the links of an intrusive doubly linked list in LRU order, and a free list. Every
  method runs under one lock, so each is one atomic step. Slot numbers are \<open>u32\<close> in the
  code; they index a vector, and the invariant bounds every one of them by its length,
  so no indexing below is out of range.
\<close>

section \<open>State\<close>

record slot =
  slot_key :: "string option"
  slot_body_len :: u32
  slot_body_crc :: u32
  slot_prev :: "nat option"
  slot_next :: "nat option"

definition slot_empty :: slot where
  "slot_empty = \<lparr>slot_key = None, slot_body_len = 0, slot_body_crc = 0, slot_prev = None, slot_next = None\<rparr>"

record index =
  imap :: "(string, nat) hash_map"
  islots :: "slot list"
  ifree :: "nat list" \<comment> \<open>a \<open>Vec\<close>: \<open>push\<close> and \<open>pop\<close> work at its end\<close>
  lru_head :: "nat option"
  lru_tail :: "nat option"

section \<open>Operations\<close>

definition upd_slot :: "nat \<Rightarrow> (slot \<Rightarrow> slot) \<Rightarrow> index \<Rightarrow> index" where
  "upd_slot i f ix = ix\<lparr>islots := (islots ix)[i := f (islots ix ! i)]\<rparr>"

definition unlink_linked :: "nat \<Rightarrow> index \<Rightarrow> index" where
  "unlink_linked s ix =
     (let p = slot_prev (islots ix ! s); n = slot_next (islots ix ! s);
          ix = (case p of Some p' \<Rightarrow> upd_slot p' (\<lambda>e. e\<lparr>slot_next := n\<rparr>) ix
                        | None \<Rightarrow> ix\<lparr>lru_head := n\<rparr>);
          ix = (case n of Some n' \<Rightarrow> upd_slot n' (\<lambda>e. e\<lparr>slot_prev := p\<rparr>) ix
                        | None \<Rightarrow> ix\<lparr>lru_tail := p\<rparr>)
      in upd_slot s (\<lambda>e. e\<lparr>slot_prev := None, slot_next := None\<rparr>) ix)"

definition push_back :: "nat \<Rightarrow> index \<Rightarrow> index" where
  "push_back s ix =
     (let old_tail = lru_tail ix;
          ix = ix\<lparr>lru_tail := Some s\<rparr>;
          ix = upd_slot s (\<lambda>e. e\<lparr>slot_prev := old_tail\<rparr>) ix;
          ix = upd_slot s (\<lambda>e. e\<lparr>slot_next := None\<rparr>) ix
      in case old_tail of Some t \<Rightarrow> upd_slot t (\<lambda>e. e\<lparr>slot_next := Some s\<rparr>) ix
                        | None \<Rightarrow> ix\<lparr>lru_head := Some s\<rparr>)"

definition occupy :: "nat \<Rightarrow> string \<Rightarrow> u32 \<Rightarrow> u32 \<Rightarrow> index \<Rightarrow> index" where
  "occupy s k blen bcrc ix =
     (let ix = upd_slot s (\<lambda>e. e\<lparr>slot_key := Some k, slot_body_len := blen, slot_body_crc := bcrc\<rparr>) ix;
          ix = ix\<lparr>imap := AList.update k s (imap ix)\<rparr>
      in push_back s ix)"

definition index_evict :: "nat \<Rightarrow> index \<Rightarrow> bool \<times> index" where
  "index_evict s ix = (case slot_key (islots ix ! s) of
      None \<Rightarrow> (False, ix)
    | Some k \<Rightarrow>
        (let ix = upd_slot s (\<lambda>e. e\<lparr>slot_key := None\<rparr>) ix;
             ix = unlink_linked s ix
         in (True, ix\<lparr>imap := AList.delete k (imap ix)\<rparr>)))"

definition touch :: "string \<Rightarrow> index \<Rightarrow> nat option \<times> index" where
  "touch k ix = (case map_of (imap ix) k of
      None \<Rightarrow> (None, ix)
    | Some s \<Rightarrow> (Some s, push_back s (unlink_linked s ix)))"

text \<open>\<open>claim\<close> also says whether it evicted, for the eviction counter.\<close>

definition claim :: "string \<Rightarrow> u32 \<Rightarrow> u32 \<Rightarrow> index \<Rightarrow> (nat \<times> bool) option \<times> index" where
  "claim k blen bcrc ix =
     (if map_of (imap ix) k \<noteq> None then (None, ix)
      else if ifree ix \<noteq> [] then
        (let s = last (ifree ix)
         in (Some (s, False), occupy s k blen bcrc (ix\<lparr>ifree := butlast (ifree ix)\<rparr>)))
      else case lru_head ix of
        None \<Rightarrow> (None, ix)
      | Some victim \<Rightarrow> (Some (victim, True), occupy victim k blen bcrc (snd (index_evict victim ix))))"

definition forget :: "nat \<Rightarrow> index \<Rightarrow> index" where
  "forget s ix = (case index_evict s ix of
      (True, ix) \<Rightarrow> ix\<lparr>ifree := ifree ix @ [s]\<rparr>
    | (False, ix) \<Rightarrow> ix)"

definition index_remove :: "string \<Rightarrow> index \<Rightarrow> bool \<times> index" where
  "index_remove k ix = (case map_of (imap ix) k of
      None \<Rightarrow> (False, ix)
    | Some s \<Rightarrow> (True, forget s ix))"

definition index_len :: "index \<Rightarrow> nat" where
  "index_len ix = length (imap ix)"

definition index_keys :: "index \<Rightarrow> string list" where
  "index_keys ix = map fst (imap ix)"

section \<open>The list the links spell\<close>

text \<open>\<open>chain\<close> is a segment of the doubly linked list, from predecessor \<open>p\<close> to successor \<open>q\<close>.\<close>

definition hd_opt :: "nat list \<Rightarrow> nat option \<Rightarrow> nat option" where
  "hd_opt xs q = (case xs of [] \<Rightarrow> q | x # _ \<Rightarrow> Some x)"

definition last_opt :: "nat list \<Rightarrow> nat option \<Rightarrow> nat option" where
  "last_opt xs p = (if xs = [] then p else Some (last xs))"

fun chain :: "slot list \<Rightarrow> nat option \<Rightarrow> nat list \<Rightarrow> nat option \<Rightarrow> bool" where
  "chain sl p [] q \<longleftrightarrow> True"
| "chain sl p (x # xs) q \<longleftrightarrow> x < length sl \<and> slot_prev (sl ! x) = p \<and> slot_next (sl ! x) = hd_opt xs q
     \<and> chain sl (Some x) xs q"

lemma hd_opt_simps [simp]: "hd_opt [] q = q" "hd_opt (x # xs) q = Some x"
  "hd_opt (xs @ ys) q = hd_opt xs (hd_opt ys q)"
  by (simp_all add: hd_opt_def split: list.splits)

lemma last_opt_simps [simp]: "last_opt [] p = p" "last_opt (x # xs) p = last_opt xs (Some x)"
  "last_opt (xs @ ys) p = last_opt ys (last_opt xs p)"
  by (simp_all add: last_opt_def)

lemma chain_append: "chain sl p (xs @ ys) q \<longleftrightarrow> chain sl p xs (hd_opt ys q) \<and> chain sl (last_opt xs p) ys q"
  by (induction xs arbitrary: p) auto

lemma chain_bound: "chain sl p xs q \<Longrightarrow> x \<in> set xs \<Longrightarrow> x < length sl"
  by (induction xs arbitrary: p) auto

text \<open>Frame: only the links of the listed slots matter.\<close>

lemma chain_cong:
  assumes "length sl' = length sl"
    and "\<And>x. x \<in> set xs \<Longrightarrow> slot_prev (sl' ! x) = slot_prev (sl ! x) \<and> slot_next (sl' ! x) = slot_next (sl ! x)"
  shows "chain sl' p xs q = chain sl p xs q"
  using assms(2) by (induction xs arbitrary: p) (auto simp: assms(1))

lemma chain_frame: "i \<notin> set xs \<Longrightarrow> chain (sl[i := e]) p xs q = chain sl p xs q"
  by (rule chain_cong) (simp, metis nth_list_update_neq)

lemma chain_set_next:
  assumes "chain sl p xs q" "distinct xs" "xs \<noteq> []"
  shows "chain (sl[last xs := (sl ! last xs)\<lparr>slot_next := q'\<rparr>]) p xs q'"
  using assms
proof (induction xs arbitrary: p)
  case (Cons x xs)
  show ?case
  proof (cases "xs = []")
    case False
    then have "x \<noteq> last xs" using Cons.prems(2) by auto
    moreover have "hd_opt xs q' = hd_opt xs q" using False by (cases xs) auto
    ultimately show ?thesis using Cons False by auto
  qed (use Cons.prems in auto)
qed simp

lemma chain_set_prev:
  assumes "chain sl p (x # xs) q" "x \<notin> set xs"
  shows "chain (sl[x := (sl ! x)\<lparr>slot_prev := p'\<rparr>]) p' (x # xs) q"
  using assms by (auto simp: chain_frame)

text \<open>The list is well linked: the links spell \<open>xs\<close> from head to tail.\<close>

definition linked :: "index \<Rightarrow> nat list \<Rightarrow> bool" where
  "linked ix xs \<longleftrightarrow> distinct xs \<and> chain (islots ix) None xs None
     \<and> lru_head ix = hd_opt xs None \<and> lru_tail ix = last_opt xs None"

definition same_keys :: "index \<Rightarrow> index \<Rightarrow> bool" where
  "same_keys ix ix' \<longleftrightarrow> imap ix' = imap ix \<and> ifree ix' = ifree ix
     \<and> map slot_key (islots ix') = map slot_key (islots ix)"

lemma same_keys_nth:
  assumes "same_keys ix ix'"
  shows "length (islots ix') = length (islots ix)"
    and "i < length (islots ix) \<Longrightarrow> slot_key (islots ix' ! i) = slot_key (islots ix ! i)"
proof -
  show l: "length (islots ix') = length (islots ix)"
    using assms by (metis same_keys_def length_map)
  show "slot_key (islots ix' ! i) = slot_key (islots ix ! i)" if "i < length (islots ix)"
  proof -
    have "map slot_key (islots ix') ! i = map slot_key (islots ix) ! i" using assms by (simp add: same_keys_def)
    then show ?thesis using that l by simp
  qed
qed

lemma same_keys_trans: "same_keys ix ix' \<Longrightarrow> same_keys ix' ix'' \<Longrightarrow> same_keys ix ix''"
  by (simp add: same_keys_def)

lemma map_update_id: "(map f xs)[i := f (xs ! i)] = map f xs"
  by (simp flip: map_update)

lemma same_keys_upd:
  "(\<And>e. slot_key (f e) = slot_key e) \<Longrightarrow> same_keys ix (upd_slot i f ix)"
  by (simp add: same_keys_def upd_slot_def map_update map_update_id)

lemma same_keys_ends: "same_keys ix (ix\<lparr>lru_head := h\<rparr>)" "same_keys ix (ix\<lparr>lru_tail := t\<rparr>)"
  by (simp_all add: same_keys_def)

lemma upd_slot_twice: "upd_slot i g (upd_slot i f ix) = upd_slot i (g \<circ> f) ix"
  by (cases "i < length (islots ix)") (simp_all add: upd_slot_def list_update_beyond)

lemma push_back_unfold:
  "push_back s ix = (let ix' = upd_slot s (\<lambda>e. e\<lparr>slot_prev := lru_tail ix, slot_next := None\<rparr>) (ix\<lparr>lru_tail := Some s\<rparr>)
     in case lru_tail ix of Some t \<Rightarrow> upd_slot t (\<lambda>e. e\<lparr>slot_next := Some s\<rparr>) ix' | None \<Rightarrow> ix'\<lparr>lru_head := Some s\<rparr>)"
  by (cases "lru_tail ix") (simp_all add: push_back_def Let_def upd_slot_twice comp_def)

lemma push_back_same_keys: "same_keys ix (push_back s ix)"
proof -
  have "same_keys ix (case t of Some t' \<Rightarrow> upd_slot t' (\<lambda>e. e\<lparr>slot_next := n\<rparr>) ix | None \<Rightarrow> ix\<lparr>lru_head := n\<rparr>)" for t n ix
    by (cases t) (auto intro: same_keys_upd same_keys_ends)
  moreover have "same_keys ix (upd_slot s (\<lambda>e. e\<lparr>slot_prev := p, slot_next := None\<rparr>) ix)" for p ix
    by (rule same_keys_upd) simp
  ultimately show ?thesis unfolding push_back_unfold Let_def by (blast intro: same_keys_trans same_keys_ends)
qed

lemma push_back_linked:
  assumes "linked ix xs" "s \<notin> set xs" "s < length (islots ix)"
  shows "linked (push_back s ix) (xs @ [s])"
proof -
  define sl where "sl = (islots ix)[s := (islots ix ! s)\<lparr>slot_prev := lru_tail ix, slot_next := None\<rparr>]"
  have ch: "chain sl None xs None" "chain sl (last_opt xs None) [s] None" "distinct xs"
    "lru_head ix = hd_opt xs None" "lru_tail ix = last_opt xs None"
    using assms by (auto simp: linked_def sl_def chain_frame)
  show "linked (push_back s ix) (xs @ [s])"
  proof (cases "xs = []")
    case True
    then show ?thesis using ch
      by (simp add: linked_def push_back_unfold upd_slot_def Let_def sl_def)
  next
    case False
    then have t: "lru_tail ix = Some (last xs)" "last xs \<noteq> s"
      using ch(5) assms(2) by (auto simp: last_opt_def)
    define sl' where "sl' = sl[last xs := (sl ! last xs)\<lparr>slot_next := Some s\<rparr>]"
    have "islots (push_back s ix) = sl'" "lru_head (push_back s ix) = lru_head ix" "lru_tail (push_back s ix) = Some s"
      using t by (simp_all add: push_back_unfold upd_slot_def Let_def sl_def sl'_def)
    moreover have "chain sl' None xs (Some s)"
      unfolding sl'_def using chain_set_next [OF ch(1,3) False] .
    moreover have "chain sl' (last_opt xs None) [s] None"
      using ch(2) t(2) by (simp add: sl'_def chain_frame del: chain.simps)
    ultimately show ?thesis
      using ch(3,4) assms(2) False by (cases xs) (auto simp: linked_def chain_append)
  qed
qed

lemma unlink_same_keys: "same_keys ix (unlink_linked s ix)"
proof -
  have "same_keys ix (case p of Some p' \<Rightarrow> upd_slot p' (\<lambda>e. e\<lparr>slot_next := n\<rparr>) ix | None \<Rightarrow> ix\<lparr>lru_head := n\<rparr>)" for p n ix
    by (cases p) (auto intro: same_keys_upd same_keys_ends)
  moreover have "same_keys ix (case n of Some n' \<Rightarrow> upd_slot n' (\<lambda>e. e\<lparr>slot_prev := p\<rparr>) ix | None \<Rightarrow> ix\<lparr>lru_tail := p\<rparr>)" for p n ix
    by (cases n) (auto intro: same_keys_upd same_keys_ends)
  moreover have "same_keys ix (upd_slot s (\<lambda>e. e\<lparr>slot_prev := None, slot_next := None\<rparr>) ix)" for ix
    by (rule same_keys_upd) simp
  ultimately show ?thesis unfolding unlink_linked_def Let_def by (blast intro: same_keys_trans)
qed

lemma unlink_linked_linked:
  assumes "linked ix (xs @ s # ys)"
  shows "linked (unlink_linked s ix) (xs @ ys)"
proof -
  have d: "distinct xs" "distinct ys" "s \<notin> set xs" "s \<notin> set ys" "set xs \<inter> set ys = {}"
    and ch: "chain (islots ix) None xs (Some s)" "chain (islots ix) (Some s) ys None"
    and sl: "slot_prev (islots ix ! s) = last_opt xs None" "slot_next (islots ix ! s) = hd_opt ys None"
    and ends: "lru_head ix = hd_opt xs (Some s)" "lru_tail ix = last_opt ys (Some s)"
    using assms by (auto simp: linked_def chain_append)
  define a where "a = (if xs = [] then ix\<lparr>lru_head := hd_opt ys None\<rparr>
      else upd_slot (last xs) (\<lambda>e. e\<lparr>slot_next := hd_opt ys None\<rparr>) ix)"
  define b where "b = (case ys of [] \<Rightarrow> a\<lparr>lru_tail := last_opt xs None\<rparr>
      | y # _ \<Rightarrow> upd_slot y (\<lambda>e. e\<lparr>slot_prev := last_opt xs None\<rparr>) a)"
  have u: "unlink_linked s ix = upd_slot s (\<lambda>e. e\<lparr>slot_prev := None, slot_next := None\<rparr>) b"
    unfolding unlink_linked_def Let_def sl b_def a_def by (auto simp: last_opt_def hd_opt_def split: list.splits)
  have a1: "chain (islots a) None xs (hd_opt ys None)"
    using ch(1) d(1) by (auto simp: a_def upd_slot_def chain_set_next)
  have a2: "chain (islots a) (Some s) ys None"
  proof (cases "xs = []")
    case False
    then have "last xs \<notin> set ys" using d(5) last_in_set [of xs] by blast
    then show ?thesis using ch(2) False by (simp add: a_def upd_slot_def chain_frame)
  qed (use ch(2) in \<open>simp add: a_def\<close>)
  have b1: "chain (islots b) None xs (hd_opt ys None)"
    using a1 d(5) by (auto simp: b_def upd_slot_def chain_frame split: list.splits)
  have b2: "chain (islots b) (last_opt xs None) ys None"
  proof (cases ys)
    case (Cons y ys')
    then show ?thesis using chain_set_prev [of "islots a" _ y ys' None] a2 d(2)
      by (simp add: b_def upd_slot_def del: chain.simps)
  qed simp
  have "lru_head b = hd_opt xs (hd_opt ys None)" "lru_tail b = last_opt ys (last_opt xs None)"
    using ends by (cases xs; cases ys; auto simp: a_def b_def upd_slot_def last_opt_def)+
  then show ?thesis using b1 b2 d
    by (auto simp: u linked_def upd_slot_def chain_append chain_frame)
qed

section \<open>Keys, the map and the free list\<close>

abbreviation slot_keys :: "index \<Rightarrow> string option list" where
  "slot_keys ix \<equiv> map slot_key (islots ix)"

text \<open>The map is exactly the inverse of the slots' keys.\<close>

definition keymap :: "string option list \<Rightarrow> (string, nat) hash_map \<Rightarrow> bool" where
  "keymap ks m \<longleftrightarrow> keys_distinct m \<and> (\<forall>k i. map_of m k = Some i \<longleftrightarrow> i < length ks \<and> ks ! i = Some k)"

lemma keymap_get: "keymap ks m \<Longrightarrow> map_of m k = Some i \<longleftrightarrow> i < length ks \<and> ks ! i = Some k"
  by (simp add: keymap_def)

lemma keymap_occupy:
  assumes "keymap ks m" "s < length ks" "ks ! s = None" "map_of m k = None"
  shows "keymap (ks[s := Some k]) (AList.update k s m)"
proof -
  have "\<not> (i < length ks \<and> ks ! i = Some k)" for i
    using keymap_get [OF assms(1), of k i] assms(4) by simp
  then show ?thesis using assms
    by (auto simp: keymap_def distinct_update update_conv' nth_list_update)
qed

lemma keymap_evict:
  assumes "keymap ks m" "s < length ks" "ks ! s = Some k"
  shows "keymap (ks[s := None]) (AList.delete k m)"
proof -
  have "map_of m k = Some s" using assms by (simp add: keymap_def)
  then have u: "ks ! i \<noteq> Some k" if "i < length ks" "i \<noteq> s" for i
    using keymap_get [OF assms(1), of k i] that by simp
  have "map_of (AList.delete k m) k' = Some i \<longleftrightarrow> i < length ks \<and> ks[s := None] ! i = Some k'" for k' i
    using keymap_get [OF assms(1), of k' i] u [of i] assms(2,3)
    by (cases "i = s"; cases "k' = k") (auto simp: delete_conv')
  then show ?thesis using assms(1) by (simp add: keymap_def distinct_delete)
qed

text \<open>
  The representation: \<open>xs\<close> is the LRU order, it lists exactly the occupied slots, and the free
  list lists exactly the others.
\<close>

definition index_rep :: "index \<Rightarrow> nat list \<Rightarrow> bool" where
  "index_rep ix xs \<longleftrightarrow> linked ix xs \<and> keymap (slot_keys ix) (imap ix)
     \<and> set xs = {i. i < length (islots ix) \<and> slot_keys ix ! i \<noteq> None}
     \<and> distinct (ifree ix) \<and> set (ifree ix) = {i. i < length (islots ix) \<and> slot_keys ix ! i = None}"

fun lru_walk_from :: "nat \<Rightarrow> slot list \<Rightarrow> nat option \<Rightarrow> nat list" where
  "lru_walk_from (Suc fuel) sl (Some i) = i # lru_walk_from fuel sl (slot_next (sl ! i))"
| "lru_walk_from _ _ _ = []"

definition lru_walk :: "index \<Rightarrow> nat list" where
  "lru_walk ix = lru_walk_from (length (islots ix)) (islots ix) (lru_head ix)"

definition index_ok :: "index \<Rightarrow> bool" where
  "index_ok ix \<longleftrightarrow> index_rep ix (lru_walk ix)"

lemma lru_walk_chain:
  "chain sl p xs None \<Longrightarrow> length xs \<le> fuel \<Longrightarrow> lru_walk_from fuel sl (hd_opt xs None) = xs"
proof (induction xs arbitrary: p fuel)
  case (Cons x xs)
  then show ?case by (cases fuel) auto
qed (cases fuel; simp)

text \<open>The links determine the order: walking them from the head, at most as many steps as there are slots, lists it.\<close>

lemma linked_walk:
  assumes "linked ix xs"
  shows "lru_walk ix = xs"
proof -
  have "set xs \<subseteq> {..< length (islots ix)}" using assms chain_bound by (auto simp: linked_def)
  moreover have "distinct xs" using assms by (simp add: linked_def)
  ultimately have "length xs \<le> length (islots ix)"
    by (metis card_lessThan card_mono distinct_card finite_lessThan)
  then show ?thesis
    using assms by (auto simp: linked_def lru_walk_def intro: lru_walk_chain)
qed

lemma index_okI: "index_rep ix xs \<Longrightarrow> index_ok ix"
  by (metis index_ok_def index_rep_def linked_walk)

lemma index_rep_walk: "index_rep ix xs \<Longrightarrow> lru_walk ix = xs"
  by (simp add: index_rep_def linked_walk)

lemma remove1_split: "s \<notin> set xs \<Longrightarrow> remove1 s (xs @ s # ys) = xs @ ys"
  by (simp add: remove1_append)

lemma linked_unlink:
  assumes "linked ix xs" "s \<in> set xs"
  shows "linked (unlink_linked s ix) (remove1 s xs)"
proof -
  obtain a b where "xs = a @ s # b" "s \<notin> set a" using split_list_first [OF assms(2)] by blast
  then show ?thesis using assms(1) unlink_linked_linked by (simp add: remove1_append)
qed

lemma linked_cong:
  assumes "linked ix xs" and "length (islots ix') = length (islots ix)" "lru_head ix' = lru_head ix" "lru_tail ix' = lru_tail ix"
    and "\<And>x. slot_prev (islots ix' ! x) = slot_prev (islots ix ! x) \<and> slot_next (islots ix' ! x) = slot_next (islots ix ! x)"
  shows "linked ix' xs"
  using assms chain_cong [of "islots ix'" "islots ix" xs None None] by (simp add: linked_def)

text \<open>\<open>evict\<close> and \<open>occupy\<close> between two represented states: the slot is in neither list.\<close>

lemma evict_parts:
  assumes "index_rep ix xs" "s \<in> set xs"
  obtains k ix' where "slot_keys ix ! s = Some k" "index_evict s ix = (True, ix')"
    "linked ix' (remove1 s xs)" "slot_keys ix' = (slot_keys ix)[s := None]"
    "keymap (slot_keys ix') (imap ix')" "ifree ix' = ifree ix"
proof -
  have s: "s < length (islots ix)" and "slot_keys ix ! s \<noteq> None" using assms by (auto simp: index_rep_def)
  then obtain k where k: "slot_key (islots ix ! s) = Some k" by auto
  let ?a = "upd_slot s (\<lambda>e. e\<lparr>slot_key := None\<rparr>) ix"
  let ?b = "unlink_linked s ?a"
  let ?c = "?b\<lparr>imap := AList.delete k (imap ?b)\<rparr>"
  have "linked ?a xs"
    by (rule linked_cong [of ix]) (use assms in \<open>auto simp: index_rep_def upd_slot_def nth_list_update\<close>)
  then have "linked ?b (remove1 s xs)" using linked_unlink assms(2) by blast
  then have l: "linked ?c (remove1 s xs)" by (rule linked_cong) simp_all
  have sk: "same_keys ?a ?b" by (rule unlink_same_keys)
  then have ks: "slot_keys ?c = (slot_keys ix)[s := None]"
    by (simp add: same_keys_def upd_slot_def map_update)
  have "keymap (slot_keys ?c) (imap ?c)"
    unfolding ks using keymap_evict [of "slot_keys ix" "imap ix" s k] assms s k sk
    by (simp add: index_rep_def same_keys_def upd_slot_def)
  moreover have "ifree ?c = ifree ix" using sk by (simp add: same_keys_def upd_slot_def)
  moreover have "index_evict s ix = (True, ?c)" using k by (simp add: index_evict_def Let_def)
  ultimately show thesis using that [of k ?c] l ks k s by simp
qed

lemma occupy_parts:
  assumes "linked ix xs" "s \<notin> set xs" "s < length (islots ix)"
    and "keymap (slot_keys ix) (imap ix)" "slot_keys ix ! s = None" "map_of (imap ix) k = None"
  shows "linked (occupy s k blen bcrc ix) (xs @ [s])"
    and "slot_keys (occupy s k blen bcrc ix) = (slot_keys ix)[s := Some k]"
    and "keymap (slot_keys (occupy s k blen bcrc ix)) (imap (occupy s k blen bcrc ix))"
    and "ifree (occupy s k blen bcrc ix) = ifree ix"
proof -
  define a where "a = (upd_slot s (\<lambda>e. e\<lparr>slot_key := Some k, slot_body_len := blen, slot_body_crc := bcrc\<rparr>) ix)
      \<lparr>imap := AList.update k s (imap ix)\<rparr>"
  have o: "occupy s k blen bcrc ix = push_back s a"
    by (simp add: occupy_def a_def upd_slot_def)
  have sk: "same_keys a (push_back s a)" by (rule push_back_same_keys)
  have "linked a xs"
    by (rule linked_cong [OF assms(1)]) (use assms(3) in \<open>auto simp: a_def upd_slot_def nth_list_update\<close>)
  moreover have "s < length (islots a)" using assms(3) by (simp add: a_def upd_slot_def)
  ultimately show "linked (occupy s k blen bcrc ix) (xs @ [s])"
    unfolding o using push_back_linked assms(2) by blast
  show ks: "slot_keys (occupy s k blen bcrc ix) = (slot_keys ix)[s := Some k]"
    unfolding o using sk by (simp add: same_keys_def a_def upd_slot_def map_update)
  show "keymap (slot_keys (occupy s k blen bcrc ix)) (imap (occupy s k blen bcrc ix))"
    unfolding ks using sk keymap_occupy [OF assms(4) _ assms(5,6)] assms(3)
    by (simp add: o same_keys_def a_def)
  show "ifree (occupy s k blen bcrc ix) = ifree ix"
    using sk by (simp add: o same_keys_def a_def upd_slot_def)
qed

section \<open>Every operation keeps the representation\<close>

lemma index_rep_slot:
  assumes "index_rep ix xs" "map_of (imap ix) k = Some s"
  shows "s \<in> set xs" and "s < length (islots ix)" and "slot_keys ix ! s = Some k"
  using assms keymap_get [of "slot_keys ix" "imap ix" k s] by (auto simp: index_rep_def)

lemma touch_rep:
  assumes "index_rep ix xs" "map_of (imap ix) k = Some s"
  shows "index_rep (snd (touch k ix)) (remove1 s xs @ [s])" and "same_keys ix (snd (touch k ix))"
proof -
  note s = index_rep_slot [OF assms]
  have t: "snd (touch k ix) = push_back s (unlink_linked s ix)" using assms(2) by (simp add: touch_def)
  show sk: "same_keys ix (snd (touch k ix))"
    unfolding t by (rule same_keys_trans [OF unlink_same_keys push_back_same_keys])
  have "linked (unlink_linked s ix) (remove1 s xs)" "distinct xs"
    using linked_unlink s(1) assms(1) by (auto simp: index_rep_def linked_def)
  then have "linked (snd (touch k ix)) (remove1 s xs @ [s])"
    unfolding t using s(2) same_keys_nth(1) [OF unlink_same_keys] by (intro push_back_linked) auto
  moreover have "set (remove1 s xs @ [s]) = set xs" using s(1) \<open>distinct xs\<close> by auto
  ultimately show "index_rep (snd (touch k ix)) (remove1 s xs @ [s])"
    using assms(1) sk same_keys_nth(1) [OF sk] by (simp add: index_rep_def same_keys_def)
qed

lemma forget_rep:
  assumes "index_rep ix xs" "s \<in> set xs"
  shows "index_rep (forget s ix) (remove1 s xs)" and "slot_keys (forget s ix) = (slot_keys ix)[s := None]"
proof -
  obtain k ix' where e: "index_evict s ix = (True, ix')" "linked ix' (remove1 s xs)"
      "slot_keys ix' = (slot_keys ix)[s := None]" "keymap (slot_keys ix') (imap ix')" "ifree ix' = ifree ix"
    using evict_parts [OF assms] by metis
  have f: "forget s ix = ix'\<lparr>ifree := ifree ix' @ [s]\<rparr>" by (simp add: forget_def e(1))
  have l: "linked (forget s ix) (remove1 s xs)" unfolding f using e(2) by (rule linked_cong) simp_all
  have n: "length (islots ix') = length (islots ix)" using e(3) by (metis length_list_update length_map)
  have x: "distinct xs" "s < length (islots ix)" "slot_keys ix ! s \<noteq> None"
    using assms by (auto simp: index_rep_def linked_def)
  show ks: "slot_keys (forget s ix) = (slot_keys ix)[s := None]" using e(3) by (simp add: f)
  show "index_rep (forget s ix) (remove1 s xs)"
    unfolding index_rep_def ks using l e(3,4,5) x assms n
    by (auto simp: f index_rep_def nth_list_update split: if_splits)
qed

lemma forget_free: "slot_keys ix ! s = None \<Longrightarrow> s < length (islots ix) \<Longrightarrow> forget s ix = ix"
  by (simp add: forget_def index_evict_def)

lemma claim_free_rep:
  assumes "index_rep ix xs" "map_of (imap ix) k = None" "ifree ix \<noteq> []"
  defines "s \<equiv> last (ifree ix)"
  shows "fst (claim k blen bcrc ix) = Some (s, False)"
    and "index_rep (snd (claim k blen bcrc ix)) (xs @ [s])"
    and "slot_keys (snd (claim k blen bcrc ix)) = (slot_keys ix)[s := Some k]" and "s < length (islots ix)"
    and "slot_keys ix ! s = None"
proof -
  let ?a = "ix\<lparr>ifree := butlast (ifree ix)\<rparr>"
  have "s \<in> set (ifree ix)" using assms(3) by (simp add: s_def)
  then show s: "s < length (islots ix)" "slot_keys ix ! s = None"
    using assms(1) by (auto simp: index_rep_def)
  show "fst (claim k blen bcrc ix) = Some (s, False)" using assms(2,3) by (simp add: claim_def Let_def s_def)
  have c: "snd (claim k blen bcrc ix) = occupy s k blen bcrc ?a"
    using assms(2,3) by (simp add: claim_def Let_def s_def)
  have "linked ?a xs" using assms(1) by (auto simp: index_rep_def intro: linked_cong)
  note o = occupy_parts [OF this, of s k blen bcrc]
  have pre: "s \<notin> set xs" "s < length (islots ?a)" "keymap (slot_keys ?a) (imap ?a)" "slot_keys ?a ! s = None"
      "map_of (imap ?a) k = None"
    using s assms by (auto simp: index_rep_def)
  have fr: "set (butlast (ifree ix)) = set (ifree ix) - {s}" "distinct (butlast (ifree ix))"
    using assms(1,3) append_butlast_last_id [OF assms(3)] unfolding s_def index_rep_def
    by (metis distinct_append Diff_insert_absorb Un_insert_right append_Nil2 disjoint_insert(1) inf_commute list.simps(15) set_append sup_bot_right empty_set, metis distinct_butlast)
  show ks: "slot_keys (snd (claim k blen bcrc ix)) = (slot_keys ix)[s := Some k]"
    unfolding c using o(2) [OF pre] by simp
  then have n: "length (islots (snd (claim k blen bcrc ix))) = length (islots ix)"
    by (metis length_list_update length_map)
  show "index_rep (snd (claim k blen bcrc ix)) (xs @ [s])"
    unfolding index_rep_def ks n
    using o(1) [OF pre] o(3) [OF pre] o(4) [OF pre] ks [unfolded c] fr s assms(1)
    by (auto simp: c index_rep_def nth_list_update split: if_splits)
qed

lemma claim_full_rep:
  assumes "index_rep ix (v # xs)" "map_of (imap ix) k = None" "ifree ix = []"
  shows "fst (claim k blen bcrc ix) = Some (v, True)"
    and "index_rep (snd (claim k blen bcrc ix)) (xs @ [v])"
    and "slot_keys (snd (claim k blen bcrc ix)) = (slot_keys ix)[v := Some k]" and "v < length (islots ix)"
proof -
  have h: "lru_head ix = Some v" and v: "v < length (islots ix)" "v \<notin> set xs"
    using assms(1) by (auto simp: index_rep_def linked_def)
  then show "v < length (islots ix)" by simp
  obtain k0 a where e: "slot_keys ix ! v = Some k0" "index_evict v ix = (True, a)" "linked a xs"
      "slot_keys a = (slot_keys ix)[v := None]" "keymap (slot_keys a) (imap a)" "ifree a = ifree ix"
    using evict_parts [OF assms(1), of v] by auto
  have c: "claim k blen bcrc ix = (Some (v, True), occupy v k blen bcrc a)"
    using assms(2,3) h e(2) by (simp add: claim_def)
  then show "fst (claim k blen bcrc ix) = Some (v, True)" by simp
  have n: "length (islots a) = length (islots ix)" using e(4) by (metis length_list_update length_map)
  have km: "keymap (slot_keys ix) (imap ix)" using assms(1) by (simp add: index_rep_def)
  have "map_of (imap a) k = None"
  proof (rule ccontr)
    assume "map_of (imap a) k \<noteq> None"
    then obtain i where "i < length (islots a)" "slot_keys a ! i = Some k"
      using keymap_get [OF e(5)] by auto
    then have "i < length (islots ix)" "slot_keys ix ! i = Some k"
      using n v(1) unfolding e(4) by (auto simp: nth_list_update split: if_splits)
    then show False using keymap_get [OF km, of k i] assms(2) by simp
  qed
  note o = occupy_parts [OF e(3) v(2) _ e(5) _ this, of blen bcrc, unfolded n, OF v(1)]
  have vN: "slot_keys a ! v = None" using v(1) unfolding e(4) by simp
  show ks: "slot_keys (snd (claim k blen bcrc ix)) = (slot_keys ix)[v := Some k]"
    using o(2) [OF vN] by (simp add: c e(4))
  then have m: "length (islots (snd (claim k blen bcrc ix))) = length (islots ix)"
    by (metis length_list_update length_map)
  show "index_rep (snd (claim k blen bcrc ix)) (xs @ [v])"
    unfolding index_rep_def ks m
    using o(1) [OF vN] o(3) [OF vN] o(4) [OF vN] ks assms(1,3) e(6) v
    by (auto simp: c index_rep_def nth_list_update split: if_splits)
qed

lemma index_ok_rep: "index_ok ix \<Longrightarrow> \<exists>xs. index_rep ix xs"
  by (auto simp: index_ok_def)

lemma touch_ok: "index_ok ix \<Longrightarrow> index_ok (snd (touch k ix))"
proof (cases "map_of (imap ix) k")
  case (Some s)
  assume "index_ok ix"
  then show ?thesis using touch_rep(1) [OF _ Some] index_okI by (auto simp: index_ok_def)
qed (simp add: touch_def)

lemma claim_ok: "index_ok ix \<Longrightarrow> index_ok (snd (claim k blen bcrc ix))"
proof -
  assume ok: "index_ok ix"
  then obtain xs where xs: "index_rep ix xs" using index_ok_rep by blast
  consider "map_of (imap ix) k \<noteq> None" | "map_of (imap ix) k = None" "ifree ix \<noteq> []"
    | v ys where "map_of (imap ix) k = None" "ifree ix = []" "xs = v # ys"
    | "map_of (imap ix) k = None" "ifree ix = []" "xs = []" by (cases xs) auto
  then show ?thesis
  proof cases
    case 2
    then show ?thesis using claim_free_rep(2) [OF xs] index_okI by blast
  next
    case 3
    then show ?thesis using claim_full_rep(2) xs index_okI by blast
  next
    case 4
    then have "lru_head ix = None" using xs by (simp add: index_rep_def linked_def)
    then show ?thesis using 4 ok by (simp add: claim_def)
  qed (use ok in \<open>auto simp: claim_def\<close>)
qed

lemma forget_ok: "index_ok ix \<Longrightarrow> s < length (islots ix) \<Longrightarrow> index_ok (forget s ix)"
proof -
  assume ok: "index_ok ix" and s: "s < length (islots ix)"
  then obtain xs where xs: "index_rep ix xs" using index_ok_rep by blast
  show ?thesis
  proof (cases "s \<in> set xs")
    case True
    then show ?thesis using forget_rep(1) [OF xs] index_okI by blast
  next
    case False
    then have "slot_keys ix ! s = None" using xs s by (auto simp: index_rep_def)
    then show ?thesis using forget_free s ok by simp
  qed
qed

lemma index_remove_ok: "index_ok ix \<Longrightarrow> index_ok (snd (index_remove k ix))"
proof (cases "map_of (imap ix) k")
  case (Some s)
  assume ok: "index_ok ix"
  then have "s < length (islots ix)" using index_ok_rep index_rep_slot(2) Some by blast
  then show ?thesis using forget_ok ok by (simp add: index_remove_def Some)
qed (simp add: index_remove_def)

text \<open>The number of slots never changes.\<close>

lemma length_upd_slot [simp]: "length (islots (upd_slot i f ix)) = length (islots ix)"
  by (simp add: upd_slot_def)

lemma length_unlink [simp]: "length (islots (unlink_linked s ix)) = length (islots ix)"
  by (rule same_keys_nth(1)) (rule unlink_same_keys)

lemma length_push_back [simp]: "length (islots (push_back s ix)) = length (islots ix)"
  by (rule same_keys_nth(1)) (rule push_back_same_keys)

lemma length_evict [simp]: "length (islots (snd (index_evict s ix))) = length (islots ix)"
  by (simp add: index_evict_def Let_def split: option.splits)

lemma length_occupy [simp]: "length (islots (occupy s k blen bcrc ix)) = length (islots ix)"
  by (simp add: occupy_def Let_def)

lemma length_touch [simp]: "length (islots (snd (touch k ix))) = length (islots ix)"
  by (simp add: touch_def split: option.splits)

lemma length_claim [simp]: "length (islots (snd (claim k blen bcrc ix))) = length (islots ix)"
  by (simp add: claim_def Let_def split: option.splits)

lemma length_forget [simp]: "length (islots (forget s ix)) = length (islots ix)"
  using length_evict [of s ix] by (auto simp: forget_def split: prod.splits bool.splits simp del: length_evict)

lemma length_index_remove [simp]: "length (islots (snd (index_remove k ix))) = length (islots ix)"
  by (simp add: index_remove_def split: option.splits)

section \<open>The LRU contract\<close>

text \<open>
  What an LRU cache promises, over the list of its keys from the least to the most recently
  used. The laws are the interface the store's readers rely on; the lemmas are proved from
  them alone.
\<close>

definition lru_touch :: "'k \<Rightarrow> 'k list \<Rightarrow> 'k list" where
  "lru_touch k l = (if k \<in> set l then remove1 k l @ [k] else l)"

definition lru_insert :: "nat \<Rightarrow> 'k \<Rightarrow> 'k list \<Rightarrow> 'k list" where
  "lru_insert n k l = (if k \<in> set l then l else (if length l < n then l else tl l) @ [k])"

datatype ('k, 'v) cache_op = Use 'k | Insert 'k 'v | Drop 'k

fun run_cache_op :: "('k \<Rightarrow> 's \<Rightarrow> 's) \<Rightarrow> ('k \<Rightarrow> 'v \<Rightarrow> 's \<Rightarrow> 's) \<Rightarrow> ('k \<Rightarrow> 's \<Rightarrow> 's) \<Rightarrow> ('k, 'v) cache_op \<Rightarrow> 's \<Rightarrow> 's" where
  "run_cache_op use ins del (Use k) s = use k s"
| "run_cache_op use ins del (Insert k v) s = ins k v s"
| "run_cache_op use ins del (Drop k) s = del k s"

lemma lru_touch_position:
  "distinct (xs @ k # ys) \<Longrightarrow> \<exists>xs' ys'. lru_touch j (xs @ k # ys) = xs' @ k # ys' \<and> length ys' \<le> Suc (length ys)"
proof -
  assume d: "distinct (xs @ k # ys)"
  consider "j = k" | "j \<in> set xs" | "j \<noteq> k" "j \<in> set ys" | "j \<notin> set (xs @ k # ys)" by auto
  then show ?thesis
  proof cases
    case 1
    then show ?thesis using d by (intro exI [of _ "xs @ ys"] exI [of _ "[]"]) (simp add: lru_touch_def remove1_append)
  next
    case 2
    then show ?thesis by (intro exI [of _ "remove1 j xs"] exI [of _ "ys @ [j]"]) (simp add: lru_touch_def remove1_append)
  next
    case 3
    then have "j \<notin> set xs" using d by auto
    then show ?thesis using 3
      by (intro exI [of _ xs] exI [of _ "remove1 j ys @ [j]"]) (simp add: lru_touch_def remove1_append length_remove1)
  next
    case 4
    then show ?thesis by (intro exI [of _ xs] exI [of _ ys]) (simp add: lru_touch_def)
  qed
qed

lemma lru_insert_position:
  assumes "Suc (length ys) < n"
  shows "\<exists>xs' ys'. lru_insert n j (xs @ k # ys) = xs' @ k # ys' \<and> length ys' \<le> Suc (length ys)"
proof (cases "j \<in> set (xs @ k # ys) \<or> length (xs @ k # ys) < n")
  case True
  then show ?thesis
    by (cases "j \<in> set (xs @ k # ys)")
      (auto simp: lru_insert_def intro: exI [of _ xs] exI [of _ "ys @ [j]"])
next
  case False
  then obtain x xs' where "xs = x # xs'" using assms by (cases xs) auto
  then show ?thesis using False by (intro exI [of _ xs'] exI [of _ "ys @ [j]"]) (simp add: lru_insert_def)
qed

lemma remove1_position:
  "distinct (xs @ k # ys) \<Longrightarrow> j \<noteq> k \<Longrightarrow> \<exists>xs' ys'. remove1 j (xs @ k # ys) = xs' @ k # ys' \<and> length ys' \<le> length ys"
  by (cases "j \<in> set xs")
    (auto simp: remove1_append length_remove1 intro: exI [of _ "remove1 j xs"] exI [of _ xs] exI [of _ "remove1 j ys"])

locale lru_cache =
  fixes order :: "'s \<Rightarrow> 'k list" and capacity :: "'s \<Rightarrow> nat" and ok :: "'s \<Rightarrow> bool"
    and touching :: "'k \<Rightarrow> 's \<Rightarrow> 's" and inserting :: "'k \<Rightarrow> 'v \<Rightarrow> 's \<Rightarrow> 's" and dropping :: "'k \<Rightarrow> 's \<Rightarrow> 's"
  assumes order_distinct: "ok s \<Longrightarrow> distinct (order s)"
    and order_bounded: "ok s \<Longrightarrow> length (order s) \<le> capacity s"
    and touching_order: "ok s \<Longrightarrow> order (touching k s) = lru_touch k (order s)"
    and inserting_order: "ok s \<Longrightarrow> order (inserting k v s) = lru_insert (capacity s) k (order s)"
    and dropping_order: "ok s \<Longrightarrow> order (dropping k s) = remove1 k (order s)"
    and ok_kept: "ok s \<Longrightarrow> ok (run_cache_op touching inserting dropping x s)"
    and capacity_kept: "ok s \<Longrightarrow> capacity (run_cache_op touching inserting dropping x s) = capacity s"
begin

text \<open>A key with fewer keys behind it than there are operations left before the capacity stays held.\<close>

lemma recent_survives:
  assumes "ok s" "order s = xs @ k # ys" "length ys + length ops < capacity s" "Drop k \<notin> set ops"
  shows "k \<in> set (order (fold (run_cache_op touching inserting dropping) ops s))"
  using assms
proof (induction ops arbitrary: s xs ys)
  case (Cons x ops)
  let ?s = "run_cache_op touching inserting dropping x s"
  have d: "distinct (xs @ k # ys)" using order_distinct Cons.prems(1,2) by metis
  have "\<exists>xs' ys'. order ?s = xs' @ k # ys' \<and> length ys' \<le> Suc (length ys)"
  proof (cases x)
    case (Use j)
    then show ?thesis using touching_order [OF Cons.prems(1)] lru_touch_position [OF d] Cons.prems(2) by simp
  next
    case (Insert j v)
    then show ?thesis
      using inserting_order [OF Cons.prems(1)] lru_insert_position [of ys "capacity s" j xs k] Cons.prems(2,3) by simp
  next
    case (Drop j)
    then obtain xs' ys' where "remove1 j (xs @ k # ys) = xs' @ k # ys'" "length ys' \<le> length ys"
      using remove1_position [OF d, of j] Cons.prems(4) by auto
    then show ?thesis using Drop dropping_order [OF Cons.prems(1)] Cons.prems(2) by fastforce
  qed
  then obtain xs' ys' where "order ?s = xs' @ k # ys'" "length ys' \<le> Suc (length ys)" by blast
  then show ?case
    using Cons.IH [of ?s xs' ys'] ok_kept [OF Cons.prems(1)] capacity_kept [OF Cons.prems(1)] Cons.prems(3,4) by simp
qed simp

end

section \<open>The index is an LRU cache\<close>

definition lru_order :: "index \<Rightarrow> string list" where
  "lru_order ix = map (\<lambda>i. the (slot_key (islots ix ! i))) (lru_walk ix)"

lemma map_remove1_inj:
  "inj_on f (set xs) \<Longrightarrow> s \<in> set xs \<Longrightarrow> map f (remove1 s xs) = remove1 (f s) (map f xs)"
  by (induction xs) (auto simp: inj_on_def)

lemma bounded_Collect: "{i. i < n \<and> P i} = {} \<longleftrightarrow> (\<forall>i < n. \<not> P i)"
    "{i. i < n \<and> P i} = {..< n} \<longleftrightarrow> (\<forall>i < n. P i)" for n :: nat
  by auto

lemma lru_order_rep:
  assumes "index_rep ix xs"
  shows "lru_order ix = map (\<lambda>i. the (slot_keys ix ! i)) xs" and "distinct (lru_order ix)"
    and "k \<in> set (lru_order ix) \<longleftrightarrow> map_of (imap ix) k \<noteq> None"
    and "inj_on (\<lambda>i. the (slot_keys ix ! i)) (set xs)" and "length (lru_order ix) \<le> length (islots ix)"
    and "ifree ix = [] \<longleftrightarrow> \<not> length (lru_order ix) < length (islots ix)"
proof -
  have set: "set xs = {i. i < length (islots ix) \<and> slot_keys ix ! i \<noteq> None}" and d: "distinct xs"
    and km: "keymap (slot_keys ix) (imap ix)"
    and fr: "set (ifree ix) = {i. i < length (islots ix) \<and> slot_keys ix ! i = None}"
    using assms by (auto simp: index_rep_def linked_def)
  show o: "lru_order ix = map (\<lambda>i. the (slot_keys ix ! i)) xs"
    using set by (auto simp: lru_order_def index_rep_walk [OF assms])
  show inj: "inj_on (\<lambda>i. the (slot_keys ix ! i)) (set xs)"
  proof (rule inj_onI)
    fix i j
    assume ij: "i \<in> set xs" "j \<in> set xs" "the (slot_keys ix ! i) = the (slot_keys ix ! j)"
    then obtain k where "slot_keys ix ! i = Some k" "slot_keys ix ! j = Some k" using set by fastforce
    then show "i = j" using keymap_get [OF km, of k i] keymap_get [OF km, of k j] ij set by simp
  qed
  show "distinct (lru_order ix)" unfolding o using inj d by (simp add: distinct_map)
  have "k \<in> set (lru_order ix) \<longleftrightarrow> (\<exists>i. i < length (islots ix) \<and> slot_keys ix ! i = Some k)"
    unfolding o using set by force
  then show "k \<in> set (lru_order ix) \<longleftrightarrow> map_of (imap ix) k \<noteq> None"
    using keymap_get [OF km] by auto
  have len: "length xs = card (set xs)" using d by (simp add: distinct_card)
  have sub: "set xs \<subseteq> {..< length (islots ix)}" using set by auto
  show "length (lru_order ix) \<le> length (islots ix)"
    using card_mono [OF _ sub] by (simp add: o len)
  have "ifree ix = [] \<longleftrightarrow> set (ifree ix) = {}" by simp
  also have "\<dots> \<longleftrightarrow> set xs = {..< length (islots ix)}" unfolding fr set bounded_Collect ..
  also have "\<dots> \<longleftrightarrow> card (set xs) = length (islots ix)"
    using card_subset_eq [OF finite_lessThan sub] card_lessThan [of "length (islots ix)"] by metis
  finally have "ifree ix = [] \<longleftrightarrow> length xs = length (islots ix)" by (simp only: len)
  moreover have "length xs \<le> length (islots ix)" using card_mono [OF finite_lessThan sub] by (simp add: len)
  ultimately show "ifree ix = [] \<longleftrightarrow> \<not> length (lru_order ix) < length (islots ix)"
    unfolding o length_map by linarith
qed

lemma order_touch:
  assumes "index_rep ix xs"
  shows "lru_order (snd (touch k ix)) = lru_touch k (lru_order ix)"
proof (cases "map_of (imap ix) k")
  case None
  then show ?thesis using lru_order_rep(3) [OF assms, of k] by (simp add: touch_def lru_touch_def)
next
  case (Some s)
  note s = index_rep_slot [OF assms Some] and t = touch_rep [OF assms Some]
  have "lru_order (snd (touch k ix)) = map (\<lambda>i. the (slot_keys ix ! i)) (remove1 s xs @ [s])"
    using lru_order_rep(1) [OF t(1)] t(2) by (simp add: same_keys_def)
  also have "\<dots> = remove1 k (lru_order ix) @ [k]"
    using map_remove1_inj [OF lru_order_rep(4) [OF assms] s(1)] s(3) by (simp add: lru_order_rep(1) [OF assms])
  finally show ?thesis using lru_order_rep(3) [OF assms, of k] Some by (simp add: lru_touch_def)
qed

lemma order_forget:
  assumes "index_rep ix xs" "map_of (imap ix) k = Some s"
  shows "lru_order (forget s ix) = remove1 k (lru_order ix)"
proof -
  note s = index_rep_slot [OF assms]
  note f = forget_rep [OF assms(1) s(1)]
  have "distinct xs" using assms(1) by (simp add: index_rep_def linked_def)
  then have "lru_order (forget s ix) = map (\<lambda>i. the (slot_keys ix ! i)) (remove1 s xs)"
    unfolding lru_order_rep(1) [OF f(1)] f(2) by (auto simp: nth_list_update)
  then show ?thesis
    using map_remove1_inj [OF lru_order_rep(4) [OF assms(1)] s(1)] s(3) by (simp add: lru_order_rep(1) [OF assms(1)])
qed

lemma order_remove: "index_rep ix xs \<Longrightarrow> lru_order (snd (index_remove k ix)) = remove1 k (lru_order ix)"
  using order_forget [of ix xs k] lru_order_rep(3) [of ix xs k]
  by (cases "map_of (imap ix) k") (simp_all add: index_remove_def remove1_idem)

lemma order_claim:
  assumes "index_rep ix xs" "islots ix \<noteq> []"
  shows "lru_order (snd (claim k blen bcrc ix)) = lru_insert (length (islots ix)) k (lru_order ix)"
proof -
  note r = lru_order_rep [OF assms(1)]
  have d: "distinct xs" using assms(1) by (simp add: index_rep_def linked_def)
  consider "map_of (imap ix) k \<noteq> None" | "map_of (imap ix) k = None" "ifree ix \<noteq> []"
    | v ys where "map_of (imap ix) k = None" "ifree ix = []" "xs = v # ys"
    using assms(2) r(1,6) by (cases xs) auto
  then show ?thesis
  proof cases
    case 1
    then show ?thesis using r(3) [of k] by (auto simp: claim_def lru_insert_def)
  next
    case 2
    note c = claim_free_rep(2,3) [OF assms(1) 2, of blen bcrc] and s = claim_free_rep(4,5) [OF assms(1) 2]
    have "last (ifree ix) \<notin> set xs" using s(2) assms(1) by (auto simp: index_rep_def)
    then have "lru_order (snd (claim k blen bcrc ix)) = lru_order ix @ [k]"
      unfolding lru_order_rep(1) [OF c(1)] c(2) r(1) using s(1) by (auto simp: nth_list_update)
    then show ?thesis using r(3) [of k] r(6) 2 by (simp add: lru_insert_def)
  next
    case 3
    note c = claim_full_rep(2,3) [OF assms(1) [unfolded 3(3)] 3(1,2), of blen bcrc]
      and v = claim_full_rep(4) [OF assms(1) [unfolded 3(3)] 3(1,2)]
    have "lru_order (snd (claim k blen bcrc ix)) = tl (lru_order ix) @ [k]"
      unfolding lru_order_rep(1) [OF c(1)] c(2) r(1) using v d 3(3) by (auto simp: nth_list_update)
    then show ?thesis using r(3) [of k] r(6) 3 by (simp add: lru_insert_def)
  qed
qed

definition index_ready :: "index \<Rightarrow> bool" where
  "index_ready ix \<longleftrightarrow> index_ok ix \<and> islots ix \<noteq> []"

abbreviation index_cache_op :: "(string, u32 \<times> u32) cache_op \<Rightarrow> index \<Rightarrow> index" where
  "index_cache_op \<equiv> run_cache_op (\<lambda>k ix. snd (touch k ix)) (\<lambda>k (blen, bcrc) ix. snd (claim k blen bcrc ix))
     (\<lambda>k ix. snd (index_remove k ix))"

lemma index_ready_rep: "index_ready ix \<Longrightarrow> \<exists>xs. index_rep ix xs \<and> islots ix \<noteq> []"
  by (auto simp: index_ready_def dest: index_ok_rep)

lemma length_islots_Nil: "length (islots ix') = length (islots ix) \<Longrightarrow> islots ix \<noteq> [] \<Longrightarrow> islots ix' \<noteq> []"
  by auto

lemma index_cache_op_kept:
  "index_ready ix \<Longrightarrow> index_ready (index_cache_op x ix)" "length (islots (index_cache_op x ix)) = length (islots ix)"
proof -
  show l: "length (islots (index_cache_op x ix)) = length (islots ix)" by (cases x) auto
  show "index_ready (index_cache_op x ix)" if "index_ready ix"
    using that length_islots_Nil [OF l]
    by (cases x) (auto simp: index_ready_def touch_ok claim_ok index_remove_ok)
qed

interpretation lru: lru_cache lru_order "\<lambda>ix. length (islots ix)" index_ready
    "\<lambda>k ix. snd (touch k ix)" "\<lambda>k (blen, bcrc) ix. snd (claim k blen bcrc ix)" "\<lambda>k ix. snd (index_remove k ix)"
proof (unfold_locales, goal_cases)
  case (1 ix)
  then show ?case using index_ready_rep lru_order_rep(2) by blast
next
  case (2 ix)
  then show ?case using index_ready_rep lru_order_rep(5) by blast
next
  case (3 ix k)
  then show ?case using index_ready_rep order_touch by blast
next
  case (4 ix k v)
  then obtain xs where "index_rep ix xs" "islots ix \<noteq> []" using index_ready_rep by blast
  then show ?case by (cases v) (simp add: order_claim)
next
  case (5 ix k)
  then show ?case using index_ready_rep order_remove by blast
qed (auto simp: index_cache_op_kept)

text \<open>Every operation on the index, with the slot numbers its callers pass.\<close>

datatype index_op = Touch string | Claim string u32 u32 | Forget nat | RemoveKey string

fun index_apply :: "index_op \<Rightarrow> index \<Rightarrow> index" where
  "index_apply (Touch k) ix = snd (touch k ix)"
| "index_apply (Claim k blen bcrc) ix = snd (claim k blen bcrc ix)"
| "index_apply (Forget s) ix = (if s < length (islots ix) then forget s ix else ix)"
| "index_apply (RemoveKey k) ix = snd (index_remove k ix)"

text \<open>The index \<open>open\<close> builds over \<open>n\<close> unwritten slots.\<close>

definition index_fresh :: "nat \<Rightarrow> index" where
  "index_fresh n = \<lparr>imap = [], islots = replicate n slot_empty, ifree = [0..<n], lru_head = None, lru_tail = None\<rparr>"

lemma index_fresh_ok: "index_ok (index_fresh n)"
  by (rule index_okI [of _ "[]"])
    (auto simp: index_fresh_def index_rep_def linked_def keymap_def slot_empty_def)

lemma index_apply_ok: "index_ok ix \<Longrightarrow> index_ok (index_apply x ix)"
  by (cases x) (auto simp: touch_ok claim_ok forget_ok index_remove_ok)

interpretation idx: invariant_system "\<lambda>ix. \<exists>n. ix = index_fresh n" index_apply index_ok
  by unfold_locales (auto simp: index_fresh_ok index_apply_ok)

section \<open>Properties\<close>

text \<open>
  C15 (the index never loses or doubles a slot). After any sequence of reads, claims, failed
  reads and writes (\<open>forget\<close>) and invalidations: the map sends a key to a slot
  exactly when that slot carries the key; following the links from the head lists each occupied slot
  exactly once; the free list holds each other slot exactly once, so no slot is handed to
  two writers.
\<close>

theorem index_slots_partition:
  "let ix = fold index_apply ops (index_fresh n) in
     length (islots ix) = n
   \<and> (\<forall>k i. map_of (imap ix) k = Some i \<longleftrightarrow> i < n \<and> slot_key (islots ix ! i) = Some k)
   \<and> distinct (lru_walk ix @ ifree ix)
   \<and> set (lru_walk ix) = {i. i < n \<and> slot_key (islots ix ! i) \<noteq> None}
   \<and> set (ifree ix) = {i. i < n \<and> slot_key (islots ix ! i) = None}"
proof -
  let ?ix = "fold index_apply ops (index_fresh n)"
  have "length (islots (index_apply x ix)) = length (islots ix)" for x ix by (cases x) auto
  then have "length (islots (fold index_apply ops ix)) = length (islots ix)" for ix
    by (induction ops arbitrary: ix) simp_all
  then have n: "length (islots ?ix) = n" by (simp add: index_fresh_def)
  have "index_ok ?ix" by (rule idx.reachable_holds) blast
  then have rep: "index_rep ?ix (lru_walk ?ix)" by (simp add: index_ok_def)
  have "map_of (imap ?ix) k = Some i \<longleftrightarrow> i < n \<and> slot_key (islots ?ix ! i) = Some k" for k i
    using rep keymap_get [of "slot_keys ?ix" "imap ?ix" k i] by (auto simp: index_rep_def n)
  moreover have "set (lru_walk ?ix) = {i. i < n \<and> slot_key (islots ?ix ! i) \<noteq> None}"
    "set (ifree ?ix) = {i. i < n \<and> slot_key (islots ?ix ! i) = None}"
    "distinct (lru_walk ?ix)" "distinct (ifree ?ix)"
    using rep by (auto simp: index_rep_def linked_def n)
  ultimately show ?thesis using n by (auto simp: Let_def)
qed

text \<open>
  C14 (the intrusive list implements LRU). Reading the keys along the links, \<open>touch\<close> moves
  its key to the most-recently-used end, \<open>claim\<close> appends a new key after dropping the
  least-recently-used one exactly when every slot is occupied, and \<open>remove\<close> takes its key out;
  each leaves every other key in place.
\<close>

theorem index_refines_lru:
  assumes "index_ready ix"
  shows "lru_order (snd (touch k ix)) = lru_touch k (lru_order ix)
   \<and> lru_order (snd (claim k blen bcrc ix)) = lru_insert (length (islots ix)) k (lru_order ix)
   \<and> lru_order (snd (index_remove k ix)) = remove1 k (lru_order ix)
   \<and> (k \<in> set (lru_order ix) \<longleftrightarrow> map_of (imap ix) k \<noteq> None)"
proof -
  obtain xs where xs: "index_rep ix xs" "islots ix \<noteq> []" using index_ready_rep [OF assms] by blast
  show ?thesis
    using order_touch [OF xs(1)] order_claim [OF xs] order_remove [OF xs(1)] lru_order_rep(3) [OF xs(1)] by simp
qed

lemma index_fresh_ready: "0 < n \<Longrightarrow> index_ready (index_fresh n)"
  by (simp add: index_ready_def index_fresh_ok) (simp add: index_fresh_def)

lemma lru_order_fresh: "lru_order (index_fresh n) = []"
  by (cases n) (simp_all add: lru_order_def lru_walk_def index_fresh_def)

theorem index_refines_lru_witness:
  "lru_order (snd (claim ''k'' 3 7 (index_fresh 2))) = [''k'']"
proof -
  have "lru_order (snd (claim ''k'' 3 7 (index_fresh 2))) = lru_insert (length (islots (index_fresh 2))) ''k'' (lru_order (index_fresh 2))"
    using index_refines_lru [OF index_fresh_ready [of 2], of "''k''" 3 7] by simp
  then show ?thesis by (simp add: lru_insert_def lru_order_fresh)
qed

text \<open>
  Once a chunk has been read, it is still held
  after any sequence of reads, fills and invalidations of other keys that is shorter than the number of
  slots, whatever these operations are: an eviction only ever takes the least recently used.
\<close>

lemma recent_chunk_survives:
  assumes "index_ready ix" "map_of (imap ix) k \<noteq> None" "length ops < length (islots ix)" "Drop k \<notin> set ops"
  shows "map_of (imap (fold index_cache_op ops (snd (touch k ix)))) k \<noteq> None"
proof -
  let ?t = "snd (touch k ix)"
  have t: "index_ready ?t" using index_cache_op_kept(1) [OF assms(1), of "Use k"] by simp
  obtain xs where xs: "index_rep ix xs" using index_ready_rep [OF assms(1)] by blast
  have "lru_order ?t = remove1 k (lru_order ix) @ k # []"
    using order_touch [OF xs, of k] lru_order_rep(3) [OF xs, of k] assms(2) by (simp add: lru_touch_def)
  from lru.recent_survives [OF t this, of ops] have k: "k \<in> set (lru_order (fold index_cache_op ops ?t))"
    using assms(3,4) by simp
  have "index_ready (fold index_cache_op ops ix)" if "index_ready ix" for ix
    using that by (induction ops arbitrary: ix) (simp_all add: index_cache_op_kept)
  then obtain ys where "index_rep (fold index_cache_op ops ?t) ys" using t index_ready_rep by blast
  from lru_order_rep(3) [OF this] show ?thesis using k by simp
qed

lemma recent_chunk_survives_example:
  "map_of (imap (fold index_cache_op [Insert ''b'' (1, 1)] (snd (touch ''a'' (snd (claim ''a'' 3 7 (index_fresh 2))))))) ''a'' \<noteq> None"
proof (rule recent_chunk_survives)
  show "index_ready (snd (claim ''a'' 3 7 (index_fresh 2)))"
    using index_cache_op_kept(1) [OF index_fresh_ready [of 2], of "Insert ''a'' (3, 7)"] by simp
  show "map_of (imap (snd (claim ''a'' 3 7 (index_fresh 2)))) ''a'' \<noteq> None"
    by (simp add: claim_def index_fresh_def occupy_def push_back_def upd_slot_def Let_def)
qed (simp_all add: index_fresh_def)

end
