(* ===== verification/Store.thy ===== *)
theory Store
  imports Chunk Slot Index
begin

text \<open>
  The chunk store (\<^verbatim>\<open>pacer-cache/src/store.rs\<close>): slots on disk, the index in memory. The extent
  files are a function from extent and offset to a byte; a file that was only sized reads
  zeros. Reads and writes may fail: each operation takes an \<open>io_env\<close> that says which of its
  system calls fail, how much of a failed write reached the file, and what the clocks measure. The CRC of
  the \<^verbatim>\<open>crc32fast\<close> crate is the parameter \<open>crc32\<close>. The semaphore that bounds reads in
  flight and the choice between a registered frame and the heap as the destination of a read
  do not change what is read and are left out. Offsets are \<open>u64\<close> in the code; a tier whose offsets
  do not fit would be larger than \<open>2 ^ 64\<close> bytes.
\<close>

section \<open>Layout\<close>

definition SLOTS_PER_EXTENT :: nat where "SLOTS_PER_EXTENT = 4096"
definition HEADER_REGION_BYTES :: nat where "HEADER_REGION_BYTES = SLOTS_PER_EXTENT * SLOT_HEADER_BYTES"
definition STRIPE_BYTES :: nat where "STRIPE_BYTES = 4 * 1024 * 1024"
definition DIRECT_IO_ALIGN :: nat where "DIRECT_IO_ALIGN = 4096"

definition header_offset :: "nat \<Rightarrow> nat" where
  "header_offset within = within * SLOT_HEADER_BYTES"

definition body_offset :: "nat \<Rightarrow> nat \<Rightarrow> nat" where
  "body_offset within csize = HEADER_REGION_BYTES + within * csize"

definition slots_in_extent :: "nat \<Rightarrow> nat \<Rightarrow> nat" where
  "slots_in_extent slot_count idx = min (slot_count - idx * SLOTS_PER_EXTENT) SLOTS_PER_EXTENT"

text \<open>\<open>format!("chunks-{index:05}.slots")\<close>: padded with zeros to five digits.\<close>

definition extent_name :: "nat \<Rightarrow> string" where
  "extent_name idx = ''chunks-'' @ replicate (5 - length (decimal idx)) CHR ''0'' @ decimal idx @ ''.slots''"

definition align_up :: "nat \<Rightarrow> nat" where
  "align_up n = (n + DIRECT_IO_ALIGN - 1) div DIRECT_IO_ALIGN * DIRECT_IO_ALIGN"

datatype read_shape = TwoRead | Overlap

fun read_shape_from_str :: "string \<Rightarrow> (string + read_shape)" where
  "read_shape_from_str s =
     (if s = ''two-read'' \<or> s = '''' then Inr TwoRead
      else if s = ''overlap'' then Inr Overlap
      else Inl s)"

record store_config =
  st_chunk_size :: nat
  capacity_bytes :: u64
  verify_body :: bool
  st_read_shape :: read_shape
  read_concurrency :: nat

definition slot_bytes :: "store_config \<Rightarrow> nat" where
  "slot_bytes cfg = SLOT_HEADER_BYTES + st_chunk_size cfg"

definition slot_count :: "store_config \<Rightarrow> nat" where
  "slot_count cfg = max (unat (capacity_bytes cfg) div slot_bytes cfg) 1"

record slot_at =
  at_extent :: nat
  header_at :: nat
  body_at :: nat

definition locate :: "store_config \<Rightarrow> nat \<Rightarrow> slot_at" where
  "locate cfg s = (let within = s mod SLOTS_PER_EXTENT in
     \<lparr>at_extent = s div SLOTS_PER_EXTENT, header_at = header_offset within,
      body_at = body_offset within (st_chunk_size cfg)\<rparr>)"

definition extent_count :: "store_config \<Rightarrow> nat" where
  "extent_count cfg = (slot_count cfg + SLOTS_PER_EXTENT - 1) div SLOTS_PER_EXTENT"

text \<open>The size \<open>open_extents\<close> gives extent \<open>idx\<close>.\<close>

definition extent_len :: "store_config \<Rightarrow> nat \<Rightarrow> nat" where
  "extent_len cfg idx = HEADER_REGION_BYTES + slots_in_extent (slot_count cfg) idx * st_chunk_size cfg"

section \<open>Files\<close>

type_synonym disk = "nat \<Rightarrow> nat \<Rightarrow> u8"

definition blank_disk :: disk where
  "blank_disk = (\<lambda>_ _. char_of (0 :: nat))"

definition disk_bytes :: "disk \<Rightarrow> nat \<Rightarrow> nat \<Rightarrow> nat \<Rightarrow> bytes" where
  "disk_bytes d e off n = map (d e) [off..<off + n]"

definition disk_put :: "disk \<Rightarrow> nat \<Rightarrow> nat \<Rightarrow> bytes \<Rightarrow> disk" where
  "disk_put d e off bs = d(e := (\<lambda>o'. if off \<le> o' \<and> o' < off + length bs then bs ! (o' - off) else d e o'))"

text \<open>
  What the system calls of one operation do. \<open>hdr_read_ok\<close> and \<open>body_read_ok\<close>: the read succeeds;
  a failed write is \<open>Some n\<close> when \<open>n\<close> bytes reached the file before the error. The last four are
  the nanoseconds the clocks of a read measure.
\<close>

record io_env =
  hdr_read_ok :: bool
  body_read_ok :: bool
  body_write :: "nat option"
  sync_ok :: bool
  hdr_write :: "nat option"
  read_took :: nat
  service_took :: nat
  header_took :: nat
  body_took :: nat

definition io_good :: io_env where
  "io_good = \<lparr>hdr_read_ok = True, body_read_ok = True, body_write = None, sync_ok = True, hdr_write = None,
     read_took = 0, service_took = 0, header_took = 0, body_took = 0\<rparr>"

definition read_exact_at :: "store_config \<Rightarrow> bool \<Rightarrow> disk \<Rightarrow> nat \<Rightarrow> nat \<Rightarrow> nat \<Rightarrow> bytes option" where
  "read_exact_at cfg works d e off n =
     (if works \<and> off + n \<le> extent_len cfg e then Some (disk_bytes d e off n) else None)"

section \<open>Counters\<close>

record store_stats =
  hits :: u64
  misses :: u64
  writes :: u64
  write_dedups :: u64
  evictions :: u64
  key_mismatches :: u64
  crc_mismatches :: u64
  corrupt_slots :: u64
  io_errors :: u64
  read_bytes :: u64
  written_bytes :: u64
  read_nanos_total :: u64
  read_nanos_max :: u64
  service_nanos_total :: u64
  service_nanos_max :: u64
  scan_nanos :: u64
  scan_recovered :: u64

definition store_stats_default :: store_stats where
  "store_stats_default = \<lparr>hits = 0, misses = 0, writes = 0, write_dedups = 0, evictions = 0, key_mismatches = 0,
     crc_mismatches = 0, corrupt_slots = 0, io_errors = 0, read_bytes = 0, written_bytes = 0,
     read_nanos_total = 0, read_nanos_max = 0, service_nanos_total = 0, service_nanos_max = 0, scan_nanos = 0, scan_recovered = 0\<rparr>"

text \<open>\<open>u64::try_from(elapsed.as_nanos()).unwrap_or(u64::MAX)\<close>.\<close>

definition nanos_u64 :: "nat \<Rightarrow> u64" where
  "nanos_u64 n = (if n < 2 ^ 64 then of_nat n else - 1)"

definition observe_read :: "u64 \<Rightarrow> nat \<Rightarrow> store_stats \<Rightarrow> store_stats" where
  "observe_read n elapsed stats = (let nanos = nanos_u64 elapsed in
     stats\<lparr>read_bytes := read_bytes stats + n, read_nanos_total := read_nanos_total stats + nanos,
       read_nanos_max := max (read_nanos_max stats) nanos\<rparr>)"

definition observe_service :: "nat \<Rightarrow> store_stats \<Rightarrow> store_stats" where
  "observe_service elapsed stats = (let nanos = nanos_u64 elapsed in
     stats\<lparr>service_nanos_total := service_nanos_total stats + nanos,
       service_nanos_max := max (service_nanos_max stats) nanos\<rparr>)"

definition mean_read_nanos :: "store_stats \<Rightarrow> u64 option" where
  "mean_read_nanos stats = (if hits stats > 0 then Some (read_nanos_total stats div hits stats) else None)"

definition mean_service_nanos :: "store_stats \<Rightarrow> u64 option" where
  "mean_service_nanos stats = (if hits stats > 0 then Some (service_nanos_total stats div hits stats) else None)"

definition mean_queue_nanos :: "store_stats \<Rightarrow> u64 option" where
  "mean_queue_nanos stats = (case mean_read_nanos stats of
      None \<Rightarrow> None
    | Some tot \<Rightarrow> (case mean_service_nanos stats of
          None \<Rightarrow> None
        | Some service \<Rightarrow> Some (if tot < service then 0 else tot - service)))"

section \<open>Reading one slot\<close>

text \<open>\<open>None\<close> is the I/O error; \<open>Some None\<close> a slot that is free or damaged.\<close>

definition read_header :: "store_config \<Rightarrow> io_env \<Rightarrow> nat \<Rightarrow> disk \<Rightarrow> store_stats \<Rightarrow> slot_header option option \<times> store_stats" where
  "read_header cfg env s d stats =
     (let at = locate cfg s in
      case read_exact_at cfg (hdr_read_ok env) d (at_extent at) (header_at at) SLOT_HEADER_BYTES of
        None \<Rightarrow> (None, stats)
      | Some page \<Rightarrow> (case slot_parse page (st_chunk_size cfg) of
            Some (Inr h) \<Rightarrow> (Some (Some h), stats)
          | Some (Inl Free) \<Rightarrow> (Some None, stats)
          | _ \<Rightarrow> (Some None, stats\<lparr>corrupt_slots := corrupt_slots stats + 1\<rparr>)))"

definition read_body :: "store_config \<Rightarrow> io_env \<Rightarrow> nat \<Rightarrow> nat \<Rightarrow> disk \<Rightarrow> bytes option" where
  "read_body cfg env s read_len d =
     (let at = locate cfg s in read_exact_at cfg (body_read_ok env) d (at_extent at) (body_at at) read_len)"

definition accept :: "string \<Rightarrow> slot_header \<Rightarrow> store_stats \<Rightarrow> nat option \<times> store_stats" where
  "accept key h stats =
     (if hdr_key h \<noteq> key then (None, stats\<lparr>key_mismatches := key_mismatches stats + 1\<rparr>)
      else (Some (unat (body_len h)), stats))"

datatype read_result = Served cached_chunk | Refused | ReadFailed | ReadPanic

definition verified :: "(bytes \<Rightarrow> u32) \<Rightarrow> store_config \<Rightarrow> slot_header \<Rightarrow> bytes \<Rightarrow> nat \<Rightarrow> store_stats \<Rightarrow> read_result \<times> store_stats" where
  "verified crc32 cfg h bs len stats = (case bytes_slice bs 0 len of
      None \<Rightarrow> (ReadPanic, stats)
    | Some b \<Rightarrow>
        if verify_body cfg \<and> crc32 b \<noteq> hdr_crc h
        then (Refused, stats\<lparr>crc_mismatches := crc_mismatches stats + 1\<rparr>)
        else (Served \<lparr>body = b, e_tag = hdr_e_tag h\<rparr>, stats))"

text \<open>The service time is recorded only when a chunk is served.\<close>

definition note_service :: "nat \<Rightarrow> read_result \<times> store_stats \<Rightarrow> read_result \<times> store_stats" where
  "note_service elapsed r = (case r of
      (Served c, stats) \<Rightarrow> (Served c, observe_service elapsed stats)
    | _ \<Rightarrow> r)"

definition read_slot :: "(bytes \<Rightarrow> u32) \<Rightarrow> store_config \<Rightarrow> io_env \<Rightarrow> string \<Rightarrow> nat \<Rightarrow> disk \<Rightarrow> store_stats \<Rightarrow> read_result \<times> store_stats" where
  "read_slot crc32 cfg env key s d stats =
     (case read_header cfg env s d stats of
        (None, stats) \<Rightarrow> (ReadFailed, stats)
      | (Some None, stats) \<Rightarrow> (Refused, stats)
      | (Some (Some h), stats) \<Rightarrow> (case accept key h stats of
            (None, stats) \<Rightarrow> (Refused, stats)
          | (Some len, stats) \<Rightarrow> (case read_body cfg env s (min (align_up len) (st_chunk_size cfg)) d of
                None \<Rightarrow> (ReadFailed, stats)
              | Some bs \<Rightarrow> note_service (service_took env) (verified crc32 cfg h bs len stats))))"

text \<open>Both reads are issued and awaited before either is looked at.\<close>

definition read_overlapped :: "(bytes \<Rightarrow> u32) \<Rightarrow> store_config \<Rightarrow> io_env \<Rightarrow> string \<Rightarrow> nat \<Rightarrow> disk \<Rightarrow> store_stats \<Rightarrow> read_result \<times> store_stats" where
  "read_overlapped crc32 cfg env key s d stats =
     (let (hdr, stats) = read_header cfg env s d stats;
          bdy = read_body cfg env s (st_chunk_size cfg) d
      in case hdr of
        None \<Rightarrow> (ReadFailed, stats)
      | Some h' \<Rightarrow> (case bdy of
            None \<Rightarrow> (ReadFailed, stats)
          | Some bs \<Rightarrow> (case h' of
                None \<Rightarrow> (Refused, stats)
              | Some h \<Rightarrow> (case accept key h stats of
                    (None, stats) \<Rightarrow> (Refused, stats)
                  | (Some len, stats) \<Rightarrow>
                      note_service (max (header_took env) (body_took env)) (verified crc32 cfg h bs len stats)))))"

section \<open>Writing one slot\<close>

datatype store_error = Io | BadHeader slot_write_error | BodyTooLarge nat | JoinFailed

definition write_slot :: "store_config \<Rightarrow> io_env \<Rightarrow> nat \<Rightarrow> slot_header \<Rightarrow> bytes \<Rightarrow> disk \<Rightarrow> store_error option \<times> disk" where
  "write_slot cfg env s h bs d =
     (let at = locate cfg s in
      case write_to h (replicate SLOT_HEADER_BYTES (char_of (0 :: nat))) of
        None \<Rightarrow> (Some Io, d)
      | Some (Inl e) \<Rightarrow> (Some (BadHeader e), d)
      | Some (Inr page) \<Rightarrow> (case body_write env of
            Some n \<Rightarrow> (Some Io, disk_put d (at_extent at) (body_at at) (take n bs))
          | None \<Rightarrow>
              (let d = disk_put d (at_extent at) (body_at at) bs in
               if \<not> sync_ok env then (Some Io, d)
               else case hdr_write env of
                 Some n \<Rightarrow> (Some Io, disk_put d (at_extent at) (header_at at) (take n page))
               | None \<Rightarrow> (None, disk_put d (at_extent at) (header_at at) page))))"

section \<open>The store\<close>

record store =
  scfg :: store_config
  sdisk :: disk
  sindex :: index
  sstats :: store_stats

text \<open>\<open>None\<close> is a panic, \<open>Inl\<close> the error. A panic on the blocking pool is the join error of that task, returned before anything is counted.\<close>

definition store_get :: "(bytes \<Rightarrow> u32) \<Rightarrow> io_env \<Rightarrow> string \<Rightarrow> store \<Rightarrow> (store_error + cached_chunk option) option \<times> store" where
  "store_get crc32 env key st =
     (case touch key (sindex st) of
        (None, ix) \<Rightarrow> (Some (Inr None), st\<lparr>sindex := ix, sstats := (sstats st)\<lparr>misses := misses (sstats st) + 1\<rparr>\<rparr>)
      | (Some s, ix) \<Rightarrow>
          (let (r, stats) = (case st_read_shape (scfg st) of
                TwoRead \<Rightarrow> read_slot crc32 (scfg st) env key s (sdisk st) (sstats st)
              | Overlap \<Rightarrow> read_overlapped crc32 (scfg st) env key s (sdisk st) (sstats st))
           in case r of
             Served c \<Rightarrow> (Some (Inr (Some c)), st\<lparr>sindex := ix, 
                 sstats := observe_read (of_nat (length (body c))) (read_took env) (stats\<lparr>hits := hits stats + 1\<rparr>)\<rparr>)
           | Refused \<Rightarrow> (Some (Inr None), st\<lparr>sindex := forget s ix, sstats := stats\<rparr>)
           | ReadFailed \<Rightarrow> (Some (Inl Io), st\<lparr>sindex := ix, sstats := stats\<lparr>io_errors := io_errors stats + 1\<rparr>\<rparr>)
           | ReadPanic \<Rightarrow> (case st_read_shape (scfg st) of TwoRead \<Rightarrow> Some (Inl JoinFailed) | Overlap \<Rightarrow> None, st\<lparr>sindex := ix, sstats := stats\<rparr>)))"

definition put_header :: "(bytes \<Rightarrow> u32) \<Rightarrow> string \<Rightarrow> cached_chunk \<Rightarrow> slot_header" where
  "put_header crc32 key c = \<lparr>hdr_key = key, body_len = of_nat (length (body c)), hdr_crc = crc32 (body c), hdr_e_tag = e_tag c\<rparr>"

definition store_put :: "(bytes \<Rightarrow> u32) \<Rightarrow> io_env \<Rightarrow> string \<Rightarrow> cached_chunk \<Rightarrow> store \<Rightarrow> store_error option \<times> store" where
  "store_put crc32 env key c st =
     (if st_chunk_size (scfg st) < length (body c) then (Some (BodyTooLarge (length (body c))), st)
      else let h = put_header crc32 key c in
        case claim key (body_len h) (hdr_crc h) (sindex st) of
          (None, ix) \<Rightarrow> (None, st\<lparr>sindex := ix, sstats := (sstats st)\<lparr>write_dedups := write_dedups (sstats st) + 1\<rparr>\<rparr>)
        | (Some (s, evicted), ix) \<Rightarrow>
            (let stats = (if evicted then (sstats st)\<lparr>evictions := evictions (sstats st) + 1\<rparr> else sstats st) in
             case write_slot (scfg st) env s h (body c) (sdisk st) of
               (None, d) \<Rightarrow> (None, st\<lparr>sdisk := d, sindex := ix, sstats := stats
                   \<lparr>writes := writes stats + 1, written_bytes := written_bytes stats + of_nat (length (body c))\<rparr>\<rparr>)
             | (Some err, d) \<Rightarrow> (Some err, st\<lparr>sdisk := d, sindex := forget s ix,
                   sstats := stats\<lparr>io_errors := io_errors stats + 1\<rparr>\<rparr>)))"

definition store_remove :: "string \<Rightarrow> store \<Rightarrow> bool \<times> store" where
  "store_remove key st = (let (held, ix) = index_remove key (sindex st) in (held, st\<lparr>sindex := ix\<rparr>))"

section \<open>Opening a store\<close>

definition u32_cast :: "nat \<Rightarrow> nat" where
  "u32_cast n = n mod 2 ^ 32"

text \<open>One extent's header region, read whole; damaged entries are counted and read as \<open>None\<close>.\<close>

definition scan_entry :: "store_config \<Rightarrow> bytes \<Rightarrow> nat \<Rightarrow> slot_header option \<times> nat" where
  "scan_entry cfg region within =
     (let at = within * SLOT_HEADER_BYTES in
      case slot_parse (seg at (at + SLOT_HEADER_BYTES) region) (st_chunk_size cfg) of
        Some (Inr h) \<Rightarrow> (Some h, 0)
      | Some (Inl Free) \<Rightarrow> (None, 0)
      | _ \<Rightarrow> (None, 1))"

definition scan_extent :: "store_config \<Rightarrow> bool \<Rightarrow> disk \<Rightarrow> nat \<Rightarrow> nat \<Rightarrow> (slot_header option \<times> nat) list option" where
  "scan_extent cfg works d idx slots =
     map_option (\<lambda>region. map (scan_entry cfg region) [0..<slots])
       (read_exact_at cfg works d idx 0 HEADER_REGION_BYTES)"

definition scan_occupy :: "nat \<Rightarrow> slot_header option \<Rightarrow> index \<Rightarrow> index" where
  "scan_occupy s h ix = (case h of
      Some h \<Rightarrow> occupy s (hdr_key h) (body_len h) (hdr_crc h) ix
    | None \<Rightarrow> ix\<lparr>ifree := ifree ix @ [s]\<rparr>)"

fun scan_headers :: "nat \<Rightarrow> nat \<Rightarrow> (slot_header option \<times> nat) list \<Rightarrow> index \<times> nat \<times> nat \<Rightarrow> index \<times> nat \<times> nat" where
  "scan_headers idx within [] acc = acc"
| "scan_headers idx within ((h, bad) # hs) (ix, found, corrupt) =
     scan_headers idx (Suc within) hs
       (scan_occupy (u32_cast (idx * SLOTS_PER_EXTENT + within)) h ix,
        found + (if h = None then 0 else 1), corrupt + bad)"

fun scan :: "store_config \<Rightarrow> (nat \<Rightarrow> bool) \<Rightarrow> disk \<Rightarrow> nat list \<Rightarrow> index \<times> nat \<times> nat \<Rightarrow> (index \<times> nat \<times> nat) option" where
  "scan cfg works d [] acc = Some acc"
| "scan cfg works d (idx # idxs) acc =
     (case scan_extent cfg (works idx) d idx (slots_in_extent (slot_count cfg) idx) of
        None \<Rightarrow> None
      | Some hs \<Rightarrow> scan cfg works d idxs (scan_headers idx 0 hs acc))"

definition index_empty :: "nat \<Rightarrow> index" where
  "index_empty n = \<lparr>imap = [], islots = replicate n slot_empty, ifree = [], lru_head = None, lru_tail = None\<rparr>"

datatype open_error = Misaligned nat | ScanFailed

text \<open>\<open>works i\<close>: the scan's read of extent \<open>i\<close> succeeds. The clock of the scan is not modelled.\<close>

definition store_open :: "store_config \<Rightarrow> (nat \<Rightarrow> bool) \<Rightarrow> disk \<Rightarrow> open_error + store" where
  "store_open cfg works d =
     (if st_chunk_size cfg mod DIRECT_IO_ALIGN \<noteq> 0 then Inl (Misaligned (st_chunk_size cfg))
      else case scan cfg works d [0..<extent_count cfg] (index_empty (slot_count cfg), 0, 0) of
        None \<Rightarrow> Inl ScanFailed
      | Some (ix, found, corrupt) \<Rightarrow>
          Inr \<lparr>scfg = cfg, sdisk = d, sindex = ix,
               sstats = store_stats_default\<lparr>corrupt_slots := of_nat corrupt, scan_recovered := of_nat found\<rparr>\<rparr>)"

end
