(* ===== verification/Chunk_Backend.thy ===== *)
theory Chunk_Backend
  imports Chunk
begin

text \<open>
  What a place that holds chunk bodies promises to the paths that read and fill it: the contract
  behind \<^verbatim>\<open>pacer-cache/src/tier.rs\<close>. A backend may lose any chunk at any time; it may never
  answer a chunk that was not put under the key since the key was last invalidated. The
  consequences are proved here from the laws alone; the chunk store and the tier interpret them.
\<close>

datatype 'e backend_op =
    BGet 'e string
  | BPut 'e string cached_chunk
  | BDrop string

text \<open>The chunks put under a key since it was last dropped, most recent history last.\<close>

fun live :: "(cached_chunk \<Rightarrow> cached_chunk) \<Rightarrow> 'e backend_op list \<Rightarrow> string \<Rightarrow> cached_chunk set" where
  "live stored [] k = {}"
| "live stored (x # earlier) k = (case x of
      BGet _ _ \<Rightarrow> live stored earlier k
    | BPut _ k' c \<Rightarrow> (if k' = k then insert (stored c) (live stored earlier k) else live stored earlier k)
    | BDrop k' \<Rightarrow> (if k' = k then {} else live stored earlier k))"

fun run_backend :: "('e \<Rightarrow> string \<Rightarrow> 's \<Rightarrow> cached_chunk option option \<times> 's) \<Rightarrow> ('e \<Rightarrow> string \<Rightarrow> cached_chunk \<Rightarrow> 's \<Rightarrow> bool \<times> 's)
    \<Rightarrow> (string \<Rightarrow> 's \<Rightarrow> 's) \<Rightarrow> 'e backend_op \<Rightarrow> 's \<Rightarrow> 's" where
  "run_backend get put drp (BGet e k) s = snd (get e k s)"
| "run_backend get put drp (BPut e k c) s = snd (put e k c s)"
| "run_backend get put drp (BDrop k) s = drp k s"

fun args_in :: "(string \<Rightarrow> cached_chunk \<Rightarrow> bool) \<Rightarrow> 'e backend_op \<Rightarrow> bool" where
  "args_in good (BPut e k c) = good k c"
| "args_in good _ = True"

locale chunk_backend =
  fixes sound :: "'s \<Rightarrow> bool" and view :: "'s \<Rightarrow> string \<Rightarrow> cached_chunk option"
    and get :: "'e \<Rightarrow> string \<Rightarrow> 's \<Rightarrow> cached_chunk option option \<times> 's"
    and put :: "'e \<Rightarrow> string \<Rightarrow> cached_chunk \<Rightarrow> 's \<Rightarrow> bool \<times> 's"
    and drp :: "string \<Rightarrow> 's \<Rightarrow> 's"
    and good_args :: "string \<Rightarrow> cached_chunk \<Rightarrow> bool" and stored :: "cached_chunk \<Rightarrow> cached_chunk"
  assumes get_sound: "sound s \<Longrightarrow> sound (snd (get e k s))"
    and get_view: "sound s \<Longrightarrow> view (snd (get e k s)) \<subseteq>\<^sub>m view s"
    and get_answer: "sound s \<Longrightarrow> fst (get e k s) = Some (Some c) \<Longrightarrow> view s k = Some c"
    and put_sound: "sound s \<Longrightarrow> good_args k c \<Longrightarrow> sound (snd (put e k c s))"
    and put_view: "sound s \<Longrightarrow> good_args k c \<Longrightarrow> view (snd (put e k c s)) \<subseteq>\<^sub>m (view s)(k \<mapsto> stored c)
        \<or> view (snd (put e k c s)) \<subseteq>\<^sub>m view s"
    and drp_sound: "sound s \<Longrightarrow> sound (drp k s)"
    and drp_view: "sound s \<Longrightarrow> view (drp k s) \<subseteq>\<^sub>m (view s)(k := None)"
begin

lemma run_sound: "sound s \<Longrightarrow> args_in good_args x \<Longrightarrow> sound (run_backend get put drp x s)"
  by (cases x) (auto intro: get_sound put_sound drp_sound)

lemma runs_sound: "sound s \<Longrightarrow> \<forall>x \<in> set ops. args_in good_args x \<Longrightarrow> sound (fold (run_backend get put drp) ops s)"
  by (induction ops arbitrary: s) (auto intro: run_sound)

lemma map_le_value: "m \<subseteq>\<^sub>m m' \<Longrightarrow> m k = Some c \<Longrightarrow> m' k = Some c"
  by (metis domI map_le_def)

text \<open>Every chunk in view was put under its key since the key was last dropped.\<close>

lemma view_live:
  assumes "sound s" "\<forall>x \<in> set ops. args_in good_args x"
    and "\<And>k c. view s k = Some c \<Longrightarrow> c \<in> live stored earlier k"
  shows "view (fold (run_backend get put drp) ops s) k = Some c \<Longrightarrow> c \<in> live stored (rev ops @ earlier) k"
  using assms
proof (induction ops arbitrary: s earlier)
  case (Cons x ops)
  let ?s = "run_backend get put drp x s"
  have "c \<in> live stored (x # earlier) k" if v: "view ?s k = Some c" for k c
  proof (cases x)
    case (BGet e j)
    then show ?thesis using map_le_value [OF get_view [OF Cons.prems(2)]] v Cons.prems(4) by simp
  next
    case (BPut e j d)
    then have "good_args j d" using Cons.prems(3) by simp
    from put_view [OF Cons.prems(2) this, of e]
    have "((view s)(j \<mapsto> stored d)) k = Some c \<or> view s k = Some c"
      using map_le_value [of "view ?s" "(view s)(j \<mapsto> stored d)" k c] map_le_value [of "view ?s" "view s" k c] v
      unfolding BPut run_backend.simps by blast
    then have "view s k = Some c \<or> j = k \<and> c = stored d" by (auto split: if_splits)
    then show ?thesis using BPut Cons.prems(4) by auto
  next
    case (BDrop j)
    then have "((view s)(j := None)) k = Some c" using map_le_value [OF drp_view [OF Cons.prems(2)]] v by simp
    then show ?thesis using BDrop Cons.prems(4) by (auto split: if_splits)
  qed
  with Cons.IH [of ?s "x # earlier"] Cons.prems(1,2,3) show ?case by (simp add: run_sound)
qed simp

text \<open>So a read answers only such a chunk.\<close>

lemma served_live:
  assumes "sound s" "\<forall>x \<in> set ops. args_in good_args x" "\<And>k. view s k = None"
    and "fst (get e k (fold (run_backend get put drp) ops s)) = Some (Some c)"
  shows "c \<in> live stored (rev ops) k"
  using view_live [OF assms(1,2), of "[]" k c] get_answer [OF runs_sound [OF assms(1,2)] assms(4)] assms(3) by simp

end

end
