(* ===== verification/Store_Correct.thy ===== *)
theory Store_Correct
  imports Store Chunk_Backend
begin

text \<open>
  Correctness of the chunk store: the slots' byte ranges are disjoint and inside the
  extent files, a slot written is a slot read back, and the store refines a map from key to
  chunk whose keys are the LRU order of the index, whichever system calls fail.
\<close>

section \<open>Bytes on disk\<close>

lemma length_disk_bytes [simp]: "length (disk_bytes d e off n) = n"
  by (simp add: disk_bytes_def)

lemma take_disk_bytes: "m \<le> n \<Longrightarrow> take m (disk_bytes d e off n) = disk_bytes d e off m"
  by (simp add: disk_bytes_def take_map)

lemma seg_disk_bytes: "j \<le> n \<Longrightarrow> seg i j (disk_bytes d e off n) = disk_bytes d e (off + i) (j - i)"
proof (cases "i \<le> j")
  case True
  assume "j \<le> n"
  then show ?thesis using True by (simp add: seg_def disk_bytes_def take_map drop_map take_upt add.assoc)
qed (simp add: disk_bytes_def)

lemma disk_bytes_put: "disk_bytes (disk_put d e off bs) e off (length bs) = bs"
  by (rule nth_equalityI) (simp_all add: disk_bytes_def disk_put_def)

definition apart :: "nat \<Rightarrow> nat \<Rightarrow> nat \<Rightarrow> nat \<Rightarrow> nat \<Rightarrow> nat \<Rightarrow> bool" where
  "apart e off n e' off' n' \<longleftrightarrow> e \<noteq> e' \<or> off + n \<le> off' \<or> off' + n' \<le> off"

lemma disk_bytes_frame:
  "apart e off (length bs) e' off' n \<Longrightarrow> disk_bytes (disk_put d e off bs) e' off' n = disk_bytes d e' off' n"
  by (auto simp: disk_bytes_def disk_put_def apart_def)

lemma apart_mono: "apart e off n e' off' n' \<Longrightarrow> m \<le> n \<Longrightarrow> m' \<le> n' \<Longrightarrow> apart e off m e' off' m'"
  by (auto simp: apart_def)

section \<open>Slot ranges\<close>

lemmas store_layout = SLOTS_PER_EXTENT_def HEADER_REGION_BYTES_def SLOT_HEADER_BYTES_def header_offset_def body_offset_def

lemma locate_sel [simp]:
  "at_extent (locate cfg s) = s div SLOTS_PER_EXTENT"
  "header_at (locate cfg s) = header_offset (s mod SLOTS_PER_EXTENT)"
  "body_at (locate cfg s) = body_offset (s mod SLOTS_PER_EXTENT) (st_chunk_size cfg)"
  by (simp_all add: locate_def Let_def)

lemma block_apart: "w \<noteq> w' \<Longrightarrow> w * z + z \<le> w' * z \<or> w' * z + z \<le> w * z" for w w' z :: nat
proof -
  assume "w \<noteq> w'"
  then have "Suc w \<le> w' \<or> Suc w' \<le> w" by linarith
  then show ?thesis
  proof
    assume "Suc w \<le> w'"
    then have "Suc w * z \<le> w' * z" by (rule mult_le_mono1)
    then show ?thesis by simp
  next
    assume "Suc w' \<le> w"
    then have "Suc w' * z \<le> w * z" by (rule mult_le_mono1)
    then show ?thesis by simp
  qed
qed

lemma slot_within_differs:
  "s \<noteq> s' \<Longrightarrow> s div SLOTS_PER_EXTENT = s' div SLOTS_PER_EXTENT \<Longrightarrow> s mod SLOTS_PER_EXTENT \<noteq> s' mod SLOTS_PER_EXTENT"
  by (metis div_mult_mod_eq)

lemma headers_apart:
  assumes "s \<noteq> s'"
  shows "apart (at_extent (locate cfg s)) (header_at (locate cfg s)) SLOT_HEADER_BYTES
      (at_extent (locate cfg s')) (header_at (locate cfg s')) SLOT_HEADER_BYTES"
  using slot_within_differs [OF assms] block_apart [of _ _ SLOT_HEADER_BYTES]
  by (auto simp: apart_def header_offset_def)

lemma bodies_apart:
  assumes "s \<noteq> s'"
  shows "apart (at_extent (locate cfg s)) (body_at (locate cfg s)) (st_chunk_size cfg)
      (at_extent (locate cfg s')) (body_at (locate cfg s')) (st_chunk_size cfg)"
  using slot_within_differs [OF assms] block_apart [of _ _ "st_chunk_size cfg"]
  by (auto simp: apart_def body_offset_def)

lemma header_region: "header_at (locate cfg s) + SLOT_HEADER_BYTES \<le> HEADER_REGION_BYTES"
  by (simp add: store_layout)

lemma header_body_apart:
  "apart (at_extent (locate cfg s)) (header_at (locate cfg s)) SLOT_HEADER_BYTES
     (at_extent (locate cfg s')) (body_at (locate cfg s')) n"
  "apart (at_extent (locate cfg s)) (body_at (locate cfg s)) n
     (at_extent (locate cfg s')) (header_at (locate cfg s')) SLOT_HEADER_BYTES"
  using header_region [of cfg s] header_region [of cfg s'] by (auto simp: apart_def body_offset_def)

lemma within_bound:
  assumes "s < n"
  shows "s mod SLOTS_PER_EXTENT < slots_in_extent n (s div SLOTS_PER_EXTENT)"
proof -
  have "s = s div SLOTS_PER_EXTENT * SLOTS_PER_EXTENT + s mod SLOTS_PER_EXTENT" by simp
  then have "s mod SLOTS_PER_EXTENT < n - s div SLOTS_PER_EXTENT * SLOTS_PER_EXTENT" using assms by linarith
  moreover have "s mod SLOTS_PER_EXTENT < SLOTS_PER_EXTENT" by (simp add: SLOTS_PER_EXTENT_def)
  ultimately show ?thesis by (simp add: slots_in_extent_def)
qed

lemma slot_in_extent:
  assumes "s < slot_count cfg"
  shows "header_at (locate cfg s) + SLOT_HEADER_BYTES \<le> extent_len cfg (at_extent (locate cfg s))"
    and "n \<le> st_chunk_size cfg \<Longrightarrow> body_at (locate cfg s) + n \<le> extent_len cfg (at_extent (locate cfg s))"
proof -
  show "header_at (locate cfg s) + SLOT_HEADER_BYTES \<le> extent_len cfg (at_extent (locate cfg s))"
    using header_region [of cfg s] by (simp add: extent_len_def)
  have "Suc (s mod SLOTS_PER_EXTENT) * st_chunk_size cfg
      \<le> slots_in_extent (slot_count cfg) (s div SLOTS_PER_EXTENT) * st_chunk_size cfg"
    using within_bound [OF assms] by (intro mult_le_mono1) simp
  then show "n \<le> st_chunk_size cfg \<Longrightarrow> body_at (locate cfg s) + n \<le> extent_len cfg (at_extent (locate cfg s))"
    by (simp add: extent_len_def body_offset_def)
qed

section \<open>What a slot holds\<close>

definition slot_page :: "store_config \<Rightarrow> disk \<Rightarrow> nat \<Rightarrow> bytes" where
  "slot_page cfg d s = disk_bytes d (at_extent (locate cfg s)) (header_at (locate cfg s)) SLOT_HEADER_BYTES"

definition slot_body :: "store_config \<Rightarrow> disk \<Rightarrow> nat \<Rightarrow> nat \<Rightarrow> bytes" where
  "slot_body cfg d s n = disk_bytes d (at_extent (locate cfg s)) (body_at (locate cfg s)) n"

definition slot_head :: "store_config \<Rightarrow> disk \<Rightarrow> nat \<Rightarrow> slot_header option" where
  "slot_head cfg d s = (case slot_parse (slot_page cfg d s) (st_chunk_size cfg) of Some (Inr h) \<Rightarrow> Some h | _ \<Rightarrow> None)"

text \<open>The chunk a slot's header describes.\<close>

definition slot_chunk :: "store_config \<Rightarrow> disk \<Rightarrow> nat \<Rightarrow> cached_chunk option" where
  "slot_chunk cfg d s = map_option (\<lambda>h. \<lparr>body = slot_body cfg d s (unat (body_len h)), e_tag = hdr_e_tag h\<rparr>) (slot_head cfg d s)"

text \<open>The slot holds a chunk of the key, with the CRC its header records.\<close>

definition slot_good :: "(bytes \<Rightarrow> u32) \<Rightarrow> store_config \<Rightarrow> disk \<Rightarrow> nat \<Rightarrow> string \<Rightarrow> bool" where
  "slot_good crc32 cfg d s k = (case slot_head cfg d s of
      None \<Rightarrow> False
    | Some h \<Rightarrow> hdr_key h = k \<and> crc32 (slot_body cfg d s (unat (body_len h))) = hdr_crc h)"

lemma slot_head_len: "slot_head cfg d s = Some h \<Longrightarrow> unat (body_len h) \<le> st_chunk_size cfg"
  using parse_fields(2) by (fastforce simp: slot_head_def header_ok_def split: option.splits sum.splits)

lemma read_header_eq:
  assumes "s < slot_count cfg"
  shows "fst (read_header cfg env s d stats) = (if hdr_read_ok env then Some (slot_head cfg d s) else None)"
    and "slot_head cfg d s = Some h \<Longrightarrow> snd (read_header cfg env s d stats) = stats"
proof -
  have "read_exact_at cfg (hdr_read_ok env) d (at_extent (locate cfg s)) (header_at (locate cfg s)) SLOT_HEADER_BYTES
      = (if hdr_read_ok env then Some (slot_page cfg d s) else None)"
    using slot_in_extent(1) [OF assms] by (simp add: read_exact_at_def slot_page_def)
  note r = read_header_def [of cfg env s d stats, unfolded Let_def this]
  show "fst (read_header cfg env s d stats) = (if hdr_read_ok env then Some (slot_head cfg d s) else None)"
    unfolding r slot_head_def by (auto split: option.splits sum.splits slot_state.splits)
  show "snd (read_header cfg env s d stats) = stats" if "slot_head cfg d s = Some h"
    using that unfolding r slot_head_def by (auto split: option.splits sum.splits)
qed

lemma read_body_eq:
  assumes "s < slot_count cfg" "n \<le> st_chunk_size cfg"
  shows "read_body cfg env s n d = (if body_read_ok env then Some (slot_body cfg d s n) else None)"
  using slot_in_extent(2) [OF assms] by (simp add: read_body_def Let_def read_exact_at_def slot_body_def)

lemma align_up_ge: "n \<le> align_up n"
  by (simp add: align_up_def DIRECT_IO_ALIGN_def)

text \<open>A read of a good slot serves its chunk, in either shape, or reports the failed system call.\<close>

lemma read_head:
  assumes "s < slot_count cfg" "slot_head cfg d s = Some h" "hdr_key h = k"
    and "verify_body cfg \<Longrightarrow> crc32 (slot_body cfg d s (unat (body_len h))) = hdr_crc h"
  shows "\<exists>c. slot_chunk cfg d s = Some c
     \<and> fst (read_slot crc32 cfg env k s d stats) = (if hdr_read_ok env \<and> body_read_ok env then Served c else ReadFailed)
     \<and> fst (read_overlapped crc32 cfg env k s d stats) = (if hdr_read_ok env \<and> body_read_ok env then Served c else ReadFailed)"
proof -
  let ?len = "unat (body_len h)" and ?z = "st_chunk_size cfg"
  let ?c = "\<lparr>body = slot_body cfg d s ?len, e_tag = hdr_e_tag h\<rparr>"
  have len: "?len \<le> ?z" by (rule slot_head_len [OF assms(2)])
  have hdr: "read_header cfg env s d stats = (if hdr_read_ok env then (Some (Some h), stats) else (None, stats))"
    using read_header_eq(1) [OF assms(1), of env d stats] read_header_eq(2) [OF assms(1,2), of env stats] assms(2)
    by (simp add: prod_eq_iff)
  have acc: "accept k h stats = (Some ?len, stats)" using assms(3) by (simp add: accept_def)
  have v: "note_service t (verified crc32 cfg h (slot_body cfg d s n) ?len stats) = (Served ?c, observe_service t stats)" if "?len \<le> n" for n t
    using that assms(4) by (simp add: verified_def bytes_slice_def slot_body_def take_disk_bytes note_service_def)
  have "?len \<le> min (align_up ?len) ?z" using align_up_ge len by simp
  then show ?thesis
    using v len assms(2) unfolding read_slot_def read_overlapped_def hdr
    by (auto simp: slot_chunk_def acc read_body_eq [OF assms(1)])
qed

lemma read_good:
  assumes "s < slot_count cfg" "slot_good crc32 cfg d s k"
  shows "\<exists>c. slot_chunk cfg d s = Some c
     \<and> fst (read_slot crc32 cfg env k s d stats) = (if hdr_read_ok env \<and> body_read_ok env then Served c else ReadFailed)
     \<and> fst (read_overlapped crc32 cfg env k s d stats) = (if hdr_read_ok env \<and> body_read_ok env then Served c else ReadFailed)"
proof -
  obtain h where "slot_head cfg d s = Some h" "hdr_key h = k" "crc32 (slot_body cfg d s (unat (body_len h))) = hdr_crc h"
    using assms(2) by (auto simp: slot_good_def split: option.splits)
  then show ?thesis by (rule read_head [OF assms(1)])
qed

section \<open>Writing a slot\<close>

lemma disk_put_frame:
  "apart e off (length bs) e' off' n \<Longrightarrow> disk_bytes d e' off' n = x \<Longrightarrow> disk_bytes (disk_put d e off bs) e' off' n = x"
  by (simp add: disk_bytes_frame)

lemma write_to_page:
  assumes "write_to h dst = Some (Inr page)"
  shows "length page = SLOT_HEADER_BYTES" and "header_fits h"
proof -
  have l: "length dst = SLOT_HEADER_BYTES" using assms by (auto simp: write_to_def split: if_splits)
  show f: "header_fits h" using write_to_error(2) [OF l, of h] assms by auto
  show "length page = SLOT_HEADER_BYTES"
    using write_to_layout [OF l f] assms header_prefix_bound [OF f] by auto
qed

text \<open>Whatever happens to a write, only the slot's own bytes change.\<close>

lemma write_slot_frame:
  assumes "s \<noteq> s'" "length bs \<le> st_chunk_size cfg" "n \<le> st_chunk_size cfg"
  shows "slot_page cfg (snd (write_slot cfg env s h bs d)) s' = slot_page cfg d s'"
    and "slot_body cfg (snd (write_slot cfg env s h bs d)) s' n = slot_body cfg d s' n"
proof -
  note b = apart_mono [OF bodies_apart [OF assms(1), of cfg] _ assms(3)]
    and h = apart_mono [OF headers_apart [OF assms(1), of cfg] _ order_refl]
    and hb = apart_mono [OF header_body_apart(1) [of cfg s s' n] _ order_refl]
    and bh = header_body_apart(2) [of cfg s _ s']
  show "slot_page cfg (snd (write_slot cfg env s h bs d)) s' = slot_page cfg d s'"
    unfolding write_slot_def Let_def slot_page_def
    by (auto simp: disk_bytes_frame h bh write_to_page(1) min.coboundedI2 simp del: locate_sel split: option.splits sum.splits)
  show "slot_body cfg (snd (write_slot cfg env s h bs d)) s' n = slot_body cfg d s' n"
    unfolding write_slot_def Let_def slot_body_def
    by (auto simp: disk_bytes_frame b hb write_to_page(1) assms(2) min.coboundedI1 min.coboundedI2 simp del: locate_sel split: option.splits sum.splits)
qed

lemma write_slot_ok:
  assumes "fst (write_slot cfg env s h bs d) = None" "header_ok (st_chunk_size cfg) h"
    and "length bs = unat (body_len h)" "crc32 bs = hdr_crc h"
  shows "slot_good crc32 cfg (snd (write_slot cfg env s h bs d)) s (hdr_key h)"
    and "slot_chunk cfg (snd (write_slot cfg env s h bs d)) s = Some \<lparr>body = bs, e_tag = hdr_e_tag h\<rparr>"
proof -
  let ?at = "locate cfg s"
  let ?d1 = "disk_put d (at_extent ?at) (body_at ?at) bs"
  obtain page where page: "write_to h (replicate SLOT_HEADER_BYTES (char_of (0 :: nat))) = Some (Inr page)"
      "length page = SLOT_HEADER_BYTES" "slot_parse (page @ []) (st_chunk_size cfg) = Some (Inr h)"
    using write_then_parse [OF assms(2), of "replicate SLOT_HEADER_BYTES (char_of (0 :: nat))" "[]"] by auto
  have d: "snd (write_slot cfg env s h bs d) = disk_put ?d1 (at_extent ?at) (header_at ?at) page"
    using assms(1) page(1) by (auto simp: write_slot_def Let_def split: option.splits if_splits)
  have "slot_page cfg (snd (write_slot cfg env s h bs d)) s = page"
    unfolding d slot_page_def using disk_bytes_put [of ?d1 _ _ page] page(2) by metis
  then have h: "slot_head cfg (snd (write_slot cfg env s h bs d)) s = Some h"
    using page(3) by (simp add: slot_head_def)
  have b: "slot_body cfg (snd (write_slot cfg env s h bs d)) s (unat (body_len h)) = bs"
    unfolding d slot_body_def
    using disk_bytes_frame [OF header_body_apart(1) [of cfg s s "length bs", folded page(2)], of ?d1] disk_bytes_put assms(3) by metis
  show "slot_good crc32 cfg (snd (write_slot cfg env s h bs d)) s (hdr_key h)"
    using h b assms(4) by (simp add: slot_good_def)
  show "slot_chunk cfg (snd (write_slot cfg env s h bs d)) s = Some \<lparr>body = bs, e_tag = hdr_e_tag h\<rparr>"
    using h b by (simp add: slot_chunk_def)
qed

section \<open>The map a store represents\<close>

definition contents :: "store \<Rightarrow> string \<Rightarrow> cached_chunk option" where
  "contents st k = Option.bind (map_of (imap (sindex st)) k) (slot_chunk (scfg st) (sdisk st))"

definition store_ok :: "(bytes \<Rightarrow> u32) \<Rightarrow> store \<Rightarrow> bool" where
  "store_ok crc32 st \<longleftrightarrow> index_ok (sindex st) \<and> length (islots (sindex st)) = slot_count (scfg st)
     \<and> (\<forall>(k, s) \<in> set (imap (sindex st)). slot_good crc32 (scfg st) (sdisk st) s k)"

text \<open>A chunk as it reads back: an empty witness is no witness.\<close>

definition read_back :: "cached_chunk \<Rightarrow> cached_chunk" where
  "read_back c = c\<lparr>e_tag := (if e_tag c = Some [] then None else e_tag c)\<rparr>"

text \<open>What a caller passes to \<open>put\<close>: Rust strings are UTF-8, and a chunk key is never empty.\<close>

definition put_args_ok :: "string \<Rightarrow> cached_chunk \<Rightarrow> bool" where
  "put_args_ok k c \<longleftrightarrow> k \<noteq> [] \<and> valid_utf8 k \<and> (case e_tag c of None \<Rightarrow> True | Some t \<Rightarrow> valid_utf8 t)"

lemma slot_count_pos [simp]: "0 < slot_count cfg"
  by (simp add: slot_count_def)

lemma store_ok_ready: "store_ok crc32 st \<Longrightarrow> index_ready (sindex st)"
  using slot_count_pos [of "scfg st"] by (auto simp: store_ok_def index_ready_def simp del: slot_count_pos)

lemma store_ok_rep: "store_ok crc32 st \<Longrightarrow> \<exists>xs. index_rep (sindex st) xs"
  by (simp add: store_ok_def index_ok_rep)

lemma store_ok_slot:
  assumes "store_ok crc32 st" "map_of (imap (sindex st)) k = Some s"
  shows "s < slot_count (scfg st)" and "slot_good crc32 (scfg st) (sdisk st) s k"
    and "\<exists>c. slot_chunk (scfg st) (sdisk st) s = Some c"
proof -
  obtain xs where "index_rep (sindex st) xs" using store_ok_rep [OF assms(1)] by blast
  from index_rep_slot(2) [OF this assms(2)] show s: "s < slot_count (scfg st)"
    using assms(1) by (simp add: store_ok_def)
  show g: "slot_good crc32 (scfg st) (sdisk st) s k"
    using assms map_of_SomeD by (fastforce simp: store_ok_def)
  then show "\<exists>c. slot_chunk (scfg st) (sdisk st) s = Some c"
    using read_good [OF s g] by blast
qed

lemma contents_held:
  "store_ok crc32 st \<Longrightarrow> contents st k \<noteq> None \<longleftrightarrow> map_of (imap (sindex st)) k \<noteq> None"
  using store_ok_slot(3) by (cases "map_of (imap (sindex st)) k") (auto simp: contents_def)

lemma contents_order:
  assumes "store_ok crc32 st"
  shows "contents st k \<noteq> None \<longleftrightarrow> k \<in> set (lru_order (sindex st))"
  using store_ok_rep [OF assms] lru_order_rep(3) contents_held [OF assms, of k] by blast

text \<open>The map of an index, by its slots' keys.\<close>

lemma index_ok_map:
  "index_ok ix \<Longrightarrow> map_of (imap ix) k = Some s \<longleftrightarrow> s < length (islots ix) \<and> slot_keys ix ! s = Some k"
  using keymap_get [of "slot_keys ix" "imap ix" k s] by (simp add: index_ok_def index_rep_def)

lemma index_ok_entries: "index_ok ix \<Longrightarrow> (k, s) \<in> set (imap ix) \<longleftrightarrow> map_of (imap ix) k = Some s"
  by (auto simp: index_ok_def index_rep_def keymap_def)

lemma same_keys_map: "same_keys ix ix' \<Longrightarrow> imap ix' = imap ix"
  by (simp add: same_keys_def)

subsection \<open>Reading\<close>

lemma touch_same_keys:
  assumes "index_ok ix"
  shows "same_keys ix (snd (touch k ix))"
proof (cases "map_of (imap ix) k")
  case (Some s)
  then show ?thesis using touch_rep(2) assms by (auto simp: index_ok_def)
qed (simp add: touch_def same_keys_def)

text \<open>A lookup that finds a slot whose chunk either shape of read serves.\<close>

lemma get_served:
  assumes "touch k (sindex st) = (Some s, ix)"
    and "fst (read_slot crc32 (scfg st) env k s (sdisk st) (sstats st)) = (if works then Served c else ReadFailed)"
    and "fst (read_overlapped crc32 (scfg st) env k s (sdisk st) (sstats st)) = (if works then Served c else ReadFailed)"
  shows "fst (store_get crc32 env k st) = Some (if works then Inr (Some c) else Inl Io)"
    and "sindex (snd (store_get crc32 env k st)) = ix" and "sdisk (snd (store_get crc32 env k st)) = sdisk st"
    and "scfg (snd (store_get crc32 env k st)) = scfg st"
  using assms unfolding store_get_def assms(1)
  by (cases "st_read_shape (scfg st)"; cases works; auto simp: split: prod.splits)+

lemma get_correct:
  fixes env k
  assumes "store_ok crc32 st"
  defines "r \<equiv> fst (store_get crc32 env k st)" and "st' \<equiv> snd (store_get crc32 env k st)"
  shows "store_ok crc32 st'" and "contents st' = contents st"
    and "lru_order (sindex st') = lru_touch k (lru_order (sindex st))"
    and "r = (if contents st k \<noteq> None \<and> \<not> (hdr_read_ok env \<and> body_read_ok env) then Some (Inl Io)
          else Some (Inr (contents st k)))"
    and "sindex st' = snd (touch k (sindex st))" and "sdisk st' = sdisk st"
proof -
  have ok: "index_ok (sindex st)" using assms(1) by (simp add: store_ok_def)
  let ?ix = "snd (touch k (sindex st))"
  have sk: "same_keys (sindex st) ?ix" by (rule touch_same_keys [OF ok])
  have ix: "sindex st' = ?ix \<and> scfg st' = scfg st \<and> sdisk st' = sdisk st
      \<and> r = (if contents st k \<noteq> None \<and> \<not> (hdr_read_ok env \<and> body_read_ok env) then Some (Inl Io) else Some (Inr (contents st k)))"
  proof (cases "map_of (imap (sindex st)) k")
    case None
    then show ?thesis by (simp add: r_def st'_def store_get_def touch_def contents_def)
  next
    case (Some s)
    note g = store_ok_slot [OF assms(1) Some]
    obtain c where c: "slot_chunk (scfg st) (sdisk st) s = Some c"
      "fst (read_slot crc32 (scfg st) env k s (sdisk st) (sstats st)) = (if hdr_read_ok env \<and> body_read_ok env then Served c else ReadFailed)"
      "fst (read_overlapped crc32 (scfg st) env k s (sdisk st) (sstats st)) = (if hdr_read_ok env \<and> body_read_ok env then Served c else ReadFailed)"
      using read_good [OF g(1,2), of env] by blast
    obtain ix1 where t: "touch k (sindex st) = (Some s, ix1)" using Some by (simp add: touch_def)
    have "contents st k = Some c" using Some c(1) by (simp add: contents_def)
    then show ?thesis using get_served [OF t c(2,3)] unfolding r_def st'_def by (simp add: t)
  qed
  have len: "length (islots ?ix) = length (islots (sindex st))" by simp
  show "store_ok crc32 st'"
    using assms(1) ix same_keys_map [OF sk] touch_ok [OF ok, of k] len by (simp add: store_ok_def)
  show "contents st' = contents st"
    using ix same_keys_map [OF sk] by (intro ext) (simp add: contents_def)
  show "lru_order (sindex st') = lru_touch k (lru_order (sindex st))"
    using ix store_ok_rep [OF assms(1)] order_touch by auto
  show "r = (if contents st k \<noteq> None \<and> \<not> (hdr_read_ok env \<and> body_read_ok env) then Some (Inl Io)
      else Some (Inr (contents st k)))" using ix by blast
  show "sindex st' = ?ix" "sdisk st' = sdisk st" using ix by auto
qed

subsection \<open>Invalidating\<close>

lemma forget_slot:
  assumes "index_ok ix" "s < length (islots ix)"
  shows "map_of (imap (forget s ix)) k = (if slot_keys ix ! s = Some k then None else map_of (imap ix) k)"
proof -
  obtain xs where xs: "index_rep ix xs" using assms(1) index_ok_rep by blast
  have ok': "index_ok (forget s ix)" by (rule forget_ok [OF assms])
  have ks: "slot_keys (forget s ix) = (slot_keys ix)[s := None]"
  proof (cases "s \<in> set xs")
    case False
    then have "slot_keys ix ! s = None" using xs assms(2) by (auto simp: index_rep_def)
    then show ?thesis using forget_free [OF _ assms(2)] by (metis list_update_id)
  qed (rule forget_rep(2) [OF xs])
  have "map_of (imap (forget s ix)) k = Some t \<longleftrightarrow> \<not> slot_keys ix ! s = Some k \<and> map_of (imap ix) k = Some t" for t
  proof -
    have "map_of (imap ix) k = Some s" if "slot_keys ix ! s = Some k"
      using index_ok_map [OF assms(1)] assms(2) that by simp
    then show ?thesis
      unfolding index_ok_map [OF ok'] ks using index_ok_map [OF assms(1), of k t] assms(2)
      by (cases "t = s") auto
  qed
  then show ?thesis by (metis not_Some_eq)
qed

lemma remove_map:
  assumes "index_ok ix"
  shows "map_of (imap (snd (index_remove k ix))) k' = (if k' = k then None else map_of (imap ix) k')"
proof (cases "map_of (imap ix) k")
  case (Some s)
  then have s: "s < length (islots ix)" "slot_keys ix ! s = Some k" using index_ok_map [OF assms] by auto
  then show ?thesis using forget_slot [OF assms s(1), of k'] by (auto simp: index_remove_def Some)
qed (simp add: index_remove_def)

lemma remove_correct:
  fixes k
  assumes "store_ok crc32 st"
  defines "st' \<equiv> snd (store_remove k st)"
  shows "store_ok crc32 st'" and "contents st' = (contents st)(k := None)"
    and "fst (store_remove k st) \<longleftrightarrow> contents st k \<noteq> None"
    and "lru_order (sindex st') = remove1 k (lru_order (sindex st))"
proof -
  have ok: "index_ok (sindex st)" using assms(1) by (simp add: store_ok_def)
  let ?ix = "snd (index_remove k (sindex st))"
  have st': "st' = st\<lparr>sindex := ?ix\<rparr>" by (simp add: st'_def store_remove_def split: prod.splits)
  have ok': "index_ok ?ix" by (rule index_remove_ok [OF ok])
  note m = remove_map [OF ok, of k]
  show "store_ok crc32 st'"
    using assms(1) m store_ok_slot(2) [OF assms(1)]
    by (auto simp: store_ok_def st' ok' index_ok_entries [OF ok'] split: if_splits)
  show "contents st' = (contents st)(k := None)" using m by (auto simp: contents_def st' fun_eq_iff)
  show "fst (store_remove k st) \<longleftrightarrow> contents st k \<noteq> None"
    using contents_held [OF assms(1), of k] by (auto simp: store_remove_def index_remove_def split: option.splits)
  show "lru_order (sindex st') = remove1 k (lru_order (sindex st))"
    using store_ok_rep [OF assms(1)] order_remove by (auto simp: st')
qed

subsection \<open>Filling\<close>

lemma claim_new:
  assumes "index_ready ix" "map_of (imap ix) k = None"
  obtains s ev where "fst (claim k blen bcrc ix) = Some (s, ev)" "s < length (islots ix)"
    "slot_keys (snd (claim k blen bcrc ix)) = (slot_keys ix)[s := Some k]"
    "ifree ix = [] \<Longrightarrow> map_of (imap ix) (hd (lru_order ix)) = Some s"
proof -
  obtain xs where xs: "index_rep ix xs" "islots ix \<noteq> []" using index_ready_rep [OF assms(1)] by blast
  show thesis
  proof (cases "ifree ix = []")
    case False
    note c = claim_free_rep(1,3) [OF xs(1) assms(2) False, of blen bcrc]
    show ?thesis by (rule that [OF c(1) claim_free_rep(4) [OF xs(1) assms(2) False] c(2)]) (use False in simp)
  next
    case True
    then obtain v ys where v: "xs = v # ys" using lru_order_rep(1,6) [OF xs(1)] xs(2) by (cases xs) auto
    note c = claim_full_rep(1,3) [OF xs(1) [unfolded v] assms(2) True, of blen bcrc]
      and lt = claim_full_rep(4) [OF xs(1) [unfolded v] assms(2) True]
    have "slot_keys ix ! v \<noteq> None" "keymap (slot_keys ix) (imap ix)" using xs(1) v by (auto simp: index_rep_def)
    then have "map_of (imap ix) (hd (lru_order ix)) = Some v"
      using lru_order_rep(1) [OF xs(1)] v lt keymap_get [of "slot_keys ix" "imap ix" _ v] by auto
    then show ?thesis using that [OF c(1) lt c(2)] by blast
  qed
qed

lemma claim_map:
  assumes "index_ok ix" "index_ok ix'" "map_of (imap ix) k = None" "s < length (islots ix)"
    and "slot_keys ix' = (slot_keys ix)[s := Some k]"
  shows "map_of (imap ix') k = Some s" and "k' \<noteq> k \<Longrightarrow> map_of (imap ix') k' = Some t \<Longrightarrow> t \<noteq> s \<and> map_of (imap ix) k' = Some t"
proof -
  have n: "length (islots ix') = length (islots ix)" using assms(5) by (metis length_list_update length_map)
  show "map_of (imap ix') k = Some s" using index_ok_map [OF assms(2)] n assms(4,5) by simp
  show "t \<noteq> s \<and> map_of (imap ix) k' = Some t" if "k' \<noteq> k" "map_of (imap ix') k' = Some t"
    using that index_ok_map [OF assms(2), of k' t] index_ok_map [OF assms(1), of k' t] n assms(4,5)
    by (cases "t = s") auto
qed

lemma slot_frame:
  assumes "s \<noteq> t" "length bs \<le> st_chunk_size cfg"
  shows "slot_head cfg (snd (write_slot cfg env s h bs d)) t = slot_head cfg d t"
    and "slot_good crc32 cfg (snd (write_slot cfg env s h bs d)) t k' = slot_good crc32 cfg d t k'"
    and "slot_chunk cfg (snd (write_slot cfg env s h bs d)) t = slot_chunk cfg d t"
proof -
  note f = write_slot_frame [OF assms]
  show h: "slot_head cfg (snd (write_slot cfg env s h bs d)) t = slot_head cfg d t"
    by (simp add: slot_head_def f(1) [OF order_refl])
  have b: "slot_body cfg (snd (write_slot cfg env s h bs d)) t (unat (body_len x)) = slot_body cfg d t (unat (body_len x))"
    if "slot_head cfg d t = Some x" for x
    using f(2) slot_head_len [OF that] by blast
  show "slot_good crc32 cfg (snd (write_slot cfg env s h bs d)) t k' = slot_good crc32 cfg d t k'"
    using b by (simp add: slot_good_def h split: option.splits)
  show "slot_chunk cfg (snd (write_slot cfg env s h bs d)) t = slot_chunk cfg d t"
    using b by (cases "slot_head cfg d t") (simp_all add: slot_chunk_def h)
qed

text \<open>An empty witness is written as no witness.\<close>

lemma write_slot_etag:
  assumes "slot_etag_bytes h' = slot_etag_bytes h" "hdr_key h' = hdr_key h" "body_len h' = body_len h" "hdr_crc h' = hdr_crc h"
  shows "write_slot cfg env s h' bs d = write_slot cfg env s h bs d"
  unfolding write_slot_def write_to_def assms by (rule refl)

lemma put_written:
  fixes crc32 env k c s d cfg
  assumes "put_args_ok k c" "length (body c) \<le> st_chunk_size cfg" "st_chunk_size cfg < 2 ^ 32"
    and "fst (write_slot cfg env s (put_header crc32 k c) (body c) d) = None"
  defines "d' \<equiv> snd (write_slot cfg env s (put_header crc32 k c) (body c) d)"
  shows "slot_good crc32 cfg d' s k" and "slot_chunk cfg d' s = Some (read_back c)"
proof -
  let ?h = "put_header crc32 k c"
  let ?h' = "?h\<lparr>hdr_e_tag := e_tag (read_back c)\<rparr>"
  have e: "slot_etag_bytes ?h' = slot_etag_bytes ?h"
    by (simp add: slot_etag_bytes_def put_header_def read_back_def)
  have w: "write_slot cfg env s ?h' (body c) d = write_slot cfg env s ?h (body c) d"
    by (rule write_slot_etag [OF e]) simp_all
  have len: "unat (body_len ?h') = length (body c)"
    using assms(2,3) by (simp add: put_header_def unat_of_nat)
  have "header_fits ?h"
    using assms(4) write_to_page(2) by (auto simp: write_slot_def Let_def split: option.splits sum.splits)
  then have "header_ok (st_chunk_size cfg) ?h'"
    using assms(1,2) len e
    by (auto simp: header_ok_def header_fits_def put_args_ok_def put_header_def slot_etag_bytes_def read_back_def
        split: option.splits if_splits)
  note r = write_slot_ok [OF _ this, of env s "body c" d crc32, unfolded w, OF assms(4) len [symmetric]]
  show "slot_good crc32 cfg d' s k" "slot_chunk cfg d' s = Some (read_back c)"
    unfolding d'_def using r by (simp_all add: put_header_def read_back_def)
qed

lemma contents_cong:
  "sindex st' = sindex st \<Longrightarrow> sdisk st' = sdisk st \<Longrightarrow> scfg st' = scfg st \<Longrightarrow> contents st' = contents st"
  by (intro ext) (simp add: contents_def)

lemma order_map: "index_ok ix \<Longrightarrow> k \<in> set (lru_order ix) \<longleftrightarrow> map_of (imap ix) k \<noteq> None"
  using index_ok_rep lru_order_rep(3) by blast

text \<open>After a write to slot \<open>s\<close>, an index whose other keys sit in unchanged slots.\<close>

lemma contents_after_write:
  assumes "store_ok crc32 st" "index_ok ix" "length (islots ix) = slot_count (scfg st)" "length bs \<le> st_chunk_size (scfg st)"
    and "\<And>k' t. k' \<noteq> k \<Longrightarrow> map_of (imap ix) k' = Some t \<Longrightarrow> t \<noteq> s \<and> map_of (imap (sindex st)) k' = Some t"
    and "scfg st' = scfg st" "sindex st' = ix" "sdisk st' = snd (write_slot (scfg st) env s h bs (sdisk st))"
    and "\<And>t. map_of (imap ix) k = Some t \<Longrightarrow> slot_good crc32 (scfg st) (sdisk st') t k"
  shows "store_ok crc32 st'" and "k' \<noteq> k \<Longrightarrow> contents st' k' = (contents st |` set (lru_order ix)) k'"
proof -
  have fr: "slot_good crc32 (scfg st) (sdisk st') t k' = slot_good crc32 (scfg st) (sdisk st) t k'"
    "slot_chunk (scfg st) (sdisk st') t = slot_chunk (scfg st) (sdisk st) t" if "t \<noteq> s" for t k'
    unfolding assms(8) by (rule slot_frame(2) [OF that [symmetric] assms(4)], rule slot_frame(3) [OF that [symmetric] assms(4)])
  have "slot_good crc32 (scfg st) (sdisk st') t k'" if "map_of (imap ix) k' = Some t" for k' t
    using assms(5) [OF _ that] assms(9) that fr(1) store_ok_slot(2) [OF assms(1)] by (cases "k' = k") auto
  then show "store_ok crc32 st'"
    using assms(2,3) by (auto simp: store_ok_def assms(6,7) index_ok_entries [OF assms(2)])
  show "contents st' k' = (contents st |` set (lru_order ix)) k'" if "k' \<noteq> k"
  proof (cases "map_of (imap ix) k'")
    case None
    then show ?thesis using order_map [OF assms(2), of k'] by (simp add: contents_def assms(7) restrict_map_def)
  next
    case (Some t)
    then show ?thesis using assms(5) [OF that Some] fr(2) order_map [OF assms(2), of k']
      by (simp add: contents_def assms(6,7))
  qed
qed

lemma scfg_get [simp]: "scfg (snd (store_get crc32 e k st)) = scfg st"
proof -
  obtain o1 ix where t: "touch k (sindex st) = (o1, ix)" by fastforce
  show ?thesis
  proof (cases o1)
    case (Some s)
    obtain r stats where p: "(case st_read_shape (scfg st) of
        TwoRead \<Rightarrow> read_slot crc32 (scfg st) e k s (sdisk st) (sstats st)
      | Overlap \<Rightarrow> read_overlapped crc32 (scfg st) e k s (sdisk st) (sstats st)) = (r, stats)" by fastforce
    show ?thesis by (cases r) (simp_all add: store_get_def t Some p)
  qed (simp add: store_get_def t)
qed

lemma scfg_put [simp]: "scfg (snd (store_put crc32 e k c st)) = scfg st"
proof -
  let ?h = "put_header crc32 k c"
  obtain o1 ix where cl: "claim k (body_len ?h) (hdr_crc ?h) (sindex st) = (o1, ix)" by fastforce
  show ?thesis
  proof (cases o1)
    case (Some a)
    obtain s ev where a: "a = (s, ev)" by fastforce
    obtain we d where w: "write_slot (scfg st) e s ?h (body c) (sdisk st) = (we, d)" by fastforce
    show ?thesis by (cases we) (simp_all add: store_put_def Let_def cl Some a w)
  qed (simp add: store_put_def Let_def cl)
qed

lemma scfg_remove [simp]: "scfg (snd (store_remove k st)) = scfg st"
  by (cases "index_remove k (sindex st)") (simp add: store_remove_def)

lemma put_parts:
  fixes env k c
  assumes "store_ok crc32 st" "length (body c) \<le> st_chunk_size (scfg st)" "map_of (imap (sindex st)) k = None"
  defines "r \<equiv> fst (store_put crc32 env k c st)" and "st' \<equiv> snd (store_put crc32 env k c st)"
  obtains s ix' where "s < slot_count (scfg st)" "index_ok ix'" "length (islots ix') = slot_count (scfg st)"
    "slot_keys ix' = (slot_keys (sindex st))[s := Some k]"
    "lru_order ix' = lru_insert (slot_count (scfg st)) k (lru_order (sindex st))"
    "(r, sdisk st') = write_slot (scfg st) env s (put_header crc32 k c) (body c) (sdisk st)"
    "sindex st' = (if r = None then ix' else forget s ix')"
    "ifree (sindex st) = [] \<Longrightarrow> map_of (imap (sindex st)) (hd (lru_order (sindex st))) = Some s"
proof -
  let ?h = "put_header crc32 k c" and ?cfg = "scfg st" and ?ix = "sindex st"
  let ?ix' = "snd (claim k (body_len ?h) (hdr_crc ?h) ?ix)"
  have ok: "index_ok ?ix" and n: "length (islots ?ix) = slot_count ?cfg" using assms(1) by (auto simp: store_ok_def)
  obtain s ev where cl: "fst (claim k (body_len ?h) (hdr_crc ?h) ?ix) = Some (s, ev)" "s < length (islots ?ix)"
      "slot_keys ?ix' = (slot_keys ?ix)[s := Some k]" "ifree ?ix = [] \<Longrightarrow> map_of (imap ?ix) (hd (lru_order ?ix)) = Some s"
    using claim_new [OF store_ok_ready [OF assms(1)] assms(3)] by metis
  let ?w = "write_slot ?cfg env s ?h (body c) (sdisk st)"
  have st': "r = fst ?w" "sdisk st' = snd ?w" "sindex st' = (if r = None then ?ix' else forget s ?ix')"
    using assms(2) cl(1) unfolding r_def st'_def store_put_def Let_def
    by (cases "claim k (body_len ?h) (hdr_crc ?h) ?ix"; cases ?w; simp split: option.splits)+
  have ord: "lru_order ?ix' = lru_insert (slot_count ?cfg) k (lru_order ?ix)"
    using store_ok_ready [OF assms(1)] index_ready_rep order_claim n by metis
  have w: "(r, sdisk st') = ?w" using st'(1,2) by simp
  have n': "length (islots ?ix') = slot_count ?cfg" using n by simp
  show thesis by (rule that [of s ?ix', OF _ claim_ok [OF ok] n' cl(3) ord w st'(3) cl(4)]) (use cl(2) n in simp_all)
qed

lemma put_new:
  fixes env k c
  assumes "store_ok crc32 st" "put_args_ok k c" "st_chunk_size (scfg st) < 2 ^ 32"
    and "length (body c) \<le> st_chunk_size (scfg st)" "map_of (imap (sindex st)) k = None"
  defines "r \<equiv> fst (store_put crc32 env k c st)" and "st' \<equiv> snd (store_put crc32 env k c st)"
  shows "store_ok crc32 st'
      \<and> lru_order (sindex st') = (let l = lru_insert (slot_count (scfg st)) k (lru_order (sindex st)) in if r = None then l else remove1 k l)
      \<and> contents st' = (let m = contents st |` set (lru_order (sindex st')) in if r = None then m(k \<mapsto> read_back c) else m)"
proof -
  let ?h = "put_header crc32 k c" and ?cfg = "scfg st" and ?ix = "sindex st"
  have ok: "index_ok ?ix" and n: "length (islots ?ix) = slot_count ?cfg" using assms(1) by (auto simp: store_ok_def)
  obtain s ix' where sn: "s < slot_count ?cfg" and ok': "index_ok ix'" and n': "length (islots ix') = slot_count ?cfg"
      and ks: "slot_keys ix' = (slot_keys ?ix)[s := Some k]" and ord: "lru_order ix' = lru_insert (slot_count ?cfg) k (lru_order ?ix)"
      and w: "(r, sdisk st') = write_slot ?cfg env s ?h (body c) (sdisk st)" and ix: "sindex st' = (if r = None then ix' else forget s ix')"
    using put_parts [OF assms(1,4,5), of env] unfolding r_def st'_def by metis
  have cl: "s < length (islots ?ix)" using sn n by simp
  note m = claim_map [OF ok ok' assms(5) cl ks]
  have st': "r = fst (write_slot ?cfg env s ?h (body c) (sdisk st))" "scfg st' = ?cfg"
      "sdisk st' = snd (write_slot ?cfg env s ?h (body c) (sdisk st))" "sindex st' = (if r = None then ix' else forget s ix')"
    using w [symmetric] ix by (simp_all add: st'_def)
  have s': "s < length (islots ix')" "slot_keys ix' ! s = Some k" using cl n n' ks by auto
  show ?thesis
  proof (cases "r = None")
    case True
    have w: "slot_good crc32 ?cfg (sdisk st') s k" "slot_chunk ?cfg (sdisk st') s = Some (read_back c)"
      unfolding st' using put_written [OF assms(2,4,3)] True st'(1) by auto
    have t: "slot_good crc32 ?cfg (sdisk st') t k" if "map_of (imap ix') k = Some t" for t
      using that m(1) w(1) by simp
    note r = contents_after_write [OF assms(1) ok' n' assms(4) m(2) st'(2) _ st'(3) t]
    have "contents st' k = Some (read_back c)" using m(1) w(2) st' True by (simp add: contents_def)
    then have "contents st' = (contents st |` set (lru_order ix'))(k \<mapsto> read_back c)"
      using r(2) st'(4) True by (intro ext) simp
    then show ?thesis using r(1) st'(4) True ord by simp
  next
    case False
    obtain xs where xs: "index_rep ix' xs" using ok' index_ok_rep by blast
    let ?f = "forget s ix'"
    have okf: "index_ok ?f" and nf: "length (islots ?f) = slot_count ?cfg" using forget_ok [OF ok' s'(1)] n' by auto
    have fm: "map_of (imap ?f) k' = (if k' = k then None else map_of (imap ix') k')" for k'
      using forget_slot [OF ok' s'(1), of k'] s'(2) by auto
    have ordf: "lru_order ?f = remove1 k (lru_order ix')" by (rule order_forget [OF xs m(1)])
    have tf: "t \<noteq> s \<and> map_of (imap ?ix) k' = Some t" if "k' \<noteq> k" "map_of (imap ?f) k' = Some t" for k' t
      using that m(2) fm by simp
    have vac: "slot_good crc32 ?cfg (sdisk st') t k" if "map_of (imap ?f) k = Some t" for t
      using that fm [of k] by simp
    have f: "sindex st' = ?f" using st'(4) False by simp
    note r = contents_after_write [OF assms(1) okf nf assms(4) tf st'(2) f st'(3) vac]
    have "contents st' k = None" "k \<notin> set (lru_order ?f)"
      using fm [of k] order_map [OF okf, of k] by (auto simp: contents_def f)
    then have "contents st' = contents st |` set (lru_order ?f)"
      using r(2) by (intro ext) (metis restrict_out)
    then show ?thesis using r(1) ord ordf f False by (auto simp: Let_def)
  qed
qed

lemma put_correct:
  fixes env k c
  assumes "store_ok crc32 st" "put_args_ok k c" "st_chunk_size (scfg st) < 2 ^ 32"
  defines "r \<equiv> fst (store_put crc32 env k c st)" and "st' \<equiv> snd (store_put crc32 env k c st)"
  shows "store_ok crc32 st'"
    and "st_chunk_size (scfg st) < length (body c) \<Longrightarrow> r = Some (BodyTooLarge (length (body c))) \<and> st' = st"
    and "length (body c) \<le> st_chunk_size (scfg st) \<Longrightarrow> contents st k \<noteq> None \<Longrightarrow>
      r = None \<and> contents st' = contents st \<and> lru_order (sindex st') = lru_order (sindex st)"
    and "length (body c) \<le> st_chunk_size (scfg st) \<Longrightarrow> contents st k = None \<Longrightarrow>
      lru_order (sindex st') = (let l = lru_insert (slot_count (scfg st)) k (lru_order (sindex st)) in if r = None then l else remove1 k l)
      \<and> contents st' = (let m = contents st |` set (lru_order (sindex st')) in if r = None then m(k \<mapsto> read_back c) else m)"
proof -
  let ?h = "put_header crc32 k c" and ?cfg = "scfg st" and ?ix = "sindex st"
  let ?z = "st_chunk_size ?cfg"
  have ok: "index_ok ?ix" and n: "length (islots ?ix) = slot_count ?cfg" using assms(1) by (auto simp: store_ok_def)
  have big: "r = Some (BodyTooLarge (length (body c))) \<and> st' = st" if "?z < length (body c)"
    using that by (simp add: r_def st'_def store_put_def)
  then show "?z < length (body c) \<Longrightarrow> r = Some (BodyTooLarge (length (body c))) \<and> st' = st" .
  have dedup: "r = None \<and> sindex st' = ?ix \<and> sdisk st' = sdisk st \<and> scfg st' = ?cfg"
    if "length (body c) \<le> ?z" "map_of (imap ?ix) k \<noteq> None"
    using that by (simp add: r_def st'_def store_put_def Let_def claim_def)
  then show "length (body c) \<le> ?z \<Longrightarrow> contents st k \<noteq> None \<Longrightarrow>
      r = None \<and> contents st' = contents st \<and> lru_order (sindex st') = lru_order (sindex st)"
    using contents_held [OF assms(1), of k] contents_cong [of st' st] by simp
  have new: "store_ok crc32 st'
      \<and> lru_order (sindex st') = (let l = lru_insert (slot_count ?cfg) k (lru_order ?ix) in if r = None then l else remove1 k l)
      \<and> contents st' = (let m = contents st |` set (lru_order (sindex st')) in if r = None then m(k \<mapsto> read_back c) else m)"
    if "length (body c) \<le> ?z" "map_of (imap ?ix) k = None"
    using put_new [OF assms(1-3) that, of env] by (simp add: r_def st'_def)
  then show "length (body c) \<le> ?z \<Longrightarrow> contents st k = None \<Longrightarrow>
      lru_order (sindex st') = (let l = lru_insert (slot_count ?cfg) k (lru_order ?ix) in if r = None then l else remove1 k l)
      \<and> contents st' = (let m = contents st |` set (lru_order (sindex st')) in if r = None then m(k \<mapsto> read_back c) else m)"
    using contents_held [OF assms(1), of k] by blast
  show "store_ok crc32 st'"
  proof (cases "?z < length (body c)")
    case False
    then show ?thesis using dedup new assms(1) by (cases "map_of (imap ?ix) k") (auto simp: store_ok_def)
  qed (use big assms(1) in simp)
qed

section \<open>The store as a chunk backend\<close>

definition store_sound :: "(bytes \<Rightarrow> u32) \<Rightarrow> store \<Rightarrow> bool" where
  "store_sound crc32 st \<longleftrightarrow> store_ok crc32 st \<and> st_chunk_size (scfg st) < 2 ^ 32"

definition store_answer :: "(store_error + cached_chunk option) option \<Rightarrow> cached_chunk option option" where
  "store_answer r = (case r of Some (Inr a) \<Rightarrow> Some a | _ \<Rightarrow> None)"

abbreviation backend_get :: "(bytes \<Rightarrow> u32) \<Rightarrow> io_env \<Rightarrow> string \<Rightarrow> store \<Rightarrow> cached_chunk option option \<times> store" where
  "backend_get crc32 e k st \<equiv> (store_answer (fst (store_get crc32 e k st)), snd (store_get crc32 e k st))"

abbreviation backend_put :: "(bytes \<Rightarrow> u32) \<Rightarrow> io_env \<Rightarrow> string \<Rightarrow> cached_chunk \<Rightarrow> store \<Rightarrow> bool \<times> store" where
  "backend_put crc32 e k c st \<equiv> (fst (store_put crc32 e k c st) = None, snd (store_put crc32 e k c st))"

abbreviation backend_drop :: "string \<Rightarrow> store \<Rightarrow> store" where
  "backend_drop k st \<equiv> snd (store_remove k st)"

abbreviation store_run :: "(bytes \<Rightarrow> u32) \<Rightarrow> io_env backend_op \<Rightarrow> store \<Rightarrow> store" where
  "store_run crc32 \<equiv> run_backend (backend_get crc32) (backend_put crc32) backend_drop"

lemma restrict_le: "m |` A \<subseteq>\<^sub>m m" "(m |` A)(k \<mapsto> c) \<subseteq>\<^sub>m m(k \<mapsto> c)"
proof -
  show "m |` A \<subseteq>\<^sub>m m" by (simp add: map_le_def)
  then show "(m |` A)(k \<mapsto> c) \<subseteq>\<^sub>m m(k \<mapsto> c)" by (rule map_le_upd)
qed

lemma put_contents_le:
  assumes "store_sound crc32 st" "put_args_ok k c"
  shows "contents (snd (store_put crc32 e k c st)) \<subseteq>\<^sub>m (contents st)(k \<mapsto> read_back c)
       \<or> contents (snd (store_put crc32 e k c st)) \<subseteq>\<^sub>m contents st"
proof -
  have st: "store_ok crc32 st" "st_chunk_size (scfg st) < 2 ^ 32" using assms(1) by (auto simp: store_sound_def)
  note p = put_correct [OF st(1) assms(2) st(2), of e]
  consider "st_chunk_size (scfg st) < length (body c)" | "length (body c) \<le> st_chunk_size (scfg st)" "contents st k \<noteq> None"
    | "length (body c) \<le> st_chunk_size (scfg st)" "contents st k = None" by linarith
  then show ?thesis
  proof cases
    case 1
    then show ?thesis using p(2) by simp
  next
    case 2
    then show ?thesis using p(3) by simp
  next
    case 3
    then show ?thesis using p(4) restrict_le by (auto simp: Let_def split: if_splits)
  qed
qed

interpretation store_backend: chunk_backend "store_sound crc32" contents "backend_get crc32" "backend_put crc32" backend_drop
    put_args_ok read_back for crc32
proof (unfold_locales, goal_cases)
  case (1 s e k)
  then show ?case using get_correct(1) by (simp add: store_sound_def)
next
  case (2 s e k)
  then show ?case using get_correct(2) by (simp add: store_sound_def)
next
  case (3 s e k c)
  then show ?case using get_correct(4) [of crc32 s e k] by (auto simp: store_sound_def store_answer_def split: if_splits)
next
  case (4 s k c e)
  then show ?case using put_correct(1) by (simp add: store_sound_def)
next
  case (5 s k c e)
  then show ?case using put_contents_le by simp
next
  case (6 s k)
  then show ?case using remove_correct(1) by (simp add: store_sound_def)
next
  case (7 s k)
  then have "contents (backend_drop k s) = (contents s)(k := None)"
    by (intro remove_correct(2) [of crc32]) (simp add: store_sound_def)
  then show ?case by simp
qed

end
