(* ===== verification/Store_Restart.thy ===== *)
theory Store_Restart
  imports Store_Correct
begin

text \<open>
  Opening a chunk store: the scan that rebuilds the index from the slot headers on disk, and
  what a restart keeps. The theorems at the end are the store's: what it answers over
  any history of operations and failures, what survives a restart, and two ways in which
  a restart answers what it should not.
\<close>

section \<open>The scan, slot by slot\<close>

definition scan_slots :: "store_config \<Rightarrow> disk \<Rightarrow> nat list \<Rightarrow> index \<Rightarrow> index" where
  "scan_slots cfg d ss ix = fold (\<lambda>s. scan_occupy s (slot_head cfg d s)) ss ix"

lemma slot_of_extent:
  assumes "w < SLOTS_PER_EXTENT"
  shows "(idx * SLOTS_PER_EXTENT + w) div SLOTS_PER_EXTENT = idx" "(idx * SLOTS_PER_EXTENT + w) mod SLOTS_PER_EXTENT = w"
  using assms by simp_all

lemma scan_entry_head:
  assumes "w < SLOTS_PER_EXTENT"
  shows "fst (scan_entry cfg (disk_bytes d idx 0 HEADER_REGION_BYTES) w) = slot_head cfg d (idx * SLOTS_PER_EXTENT + w)"
proof -
  have "Suc w * SLOT_HEADER_BYTES \<le> SLOTS_PER_EXTENT * SLOT_HEADER_BYTES" using assms by (intro mult_le_mono1) simp
  then have "seg (w * SLOT_HEADER_BYTES) (w * SLOT_HEADER_BYTES + SLOT_HEADER_BYTES) (disk_bytes d idx 0 HEADER_REGION_BYTES)
      = slot_page cfg d (idx * SLOTS_PER_EXTENT + w)"
    by (subst seg_disk_bytes) (simp_all add: HEADER_REGION_BYTES_def slot_page_def header_offset_def slot_of_extent [OF assms] assms)
  then show ?thesis
    by (simp add: scan_entry_def Let_def slot_head_def split: option.split sum.split slot_state.split)
qed

lemma scan_headers_fold:
  "idx * SLOTS_PER_EXTENT + w + length hs \<le> 2 ^ 32 \<Longrightarrow>
   fst (scan_headers idx w hs (ix, f, c))
     = fold (\<lambda>(s, h). scan_occupy s h) (zip [idx * SLOTS_PER_EXTENT + w..<idx * SLOTS_PER_EXTENT + w + length hs] (map fst hs)) ix"
proof (induction hs arbitrary: w ix f c)
  case (Cons a hs)
  obtain h b where a: "a = (h, b)" by fastforce
  let ?s = "idx * SLOTS_PER_EXTENT + w"
  have "u32_cast ?s = ?s" using Cons.prems by (simp add: u32_cast_def)
  moreover have "[?s..<?s + length (a # hs)] = ?s # [idx * SLOTS_PER_EXTENT + Suc w..<idx * SLOTS_PER_EXTENT + Suc w + length hs]"
    by (subst upt_conv_Cons) simp_all
  ultimately show ?case using Cons.IH [of "Suc w" "scan_occupy ?s h ix" "f + (if h = None then 0 else 1)" "c + b"] Cons.prems
    by (simp add: a)
qed simp

lemma fold_zip_map: "fold (\<lambda>(s, h). g s h) (zip ss (map f ss)) ix = fold (\<lambda>s. g s (f s)) ss ix"
  by (induction ss arbitrary: ix) simp_all

lemma scan_extent_slots:
  assumes "works" "n \<le> SLOTS_PER_EXTENT" "idx * SLOTS_PER_EXTENT + n \<le> 2 ^ 32"
  obtains hs where "scan_extent cfg works d idx n = Some hs" "length hs = n"
    "fst (scan_headers idx 0 hs (ix, f, c)) = scan_slots cfg d [idx * SLOTS_PER_EXTENT..<idx * SLOTS_PER_EXTENT + n] ix"
proof -
  let ?region = "disk_bytes d idx 0 HEADER_REGION_BYTES" and ?b = "idx * SLOTS_PER_EXTENT"
  let ?hs = "map (scan_entry cfg ?region) [0..<n]"
  have 1: "scan_extent cfg works d idx n = Some ?hs"
    using assms(1) by (simp add: scan_extent_def read_exact_at_def extent_len_def)
  have "map fst ?hs = map (\<lambda>w. slot_head cfg d (?b + w)) [0..<n]"
    using assms(2) scan_entry_head by simp
  also have "\<dots> = map (slot_head cfg d) [?b..<?b + n]"
  proof -
    have "[?b..<?b + n] = map (\<lambda>w. ?b + w) [0..<n]" using map_add_upt [of ?b n] by (simp add: add.commute)
    then show ?thesis by simp
  qed
  finally have "fst (scan_headers idx 0 ?hs (ix, f, c)) = scan_slots cfg d [?b..<?b + n] ix"
    using assms(3) by (simp add: scan_headers_fold scan_slots_def fold_zip_map del: map_map)
  then show thesis using that 1 by simp
qed

lemma slots_in_extent_sum: "idx * SLOTS_PER_EXTENT \<le> n \<Longrightarrow>
    idx * SLOTS_PER_EXTENT + slots_in_extent n idx = min n (Suc idx * SLOTS_PER_EXTENT)"
  unfolding slots_in_extent_def mult_Suc by linarith

lemma upt_join: "i \<le> j \<Longrightarrow> j \<le> k \<Longrightarrow> [i..<j] @ [j..<k] = [i..<k]"
  by (metis le_iff_add upt_add_eq_append)

lemma scan_slots_append: "scan_slots cfg d (xs @ ys) ix = scan_slots cfg d ys (scan_slots cfg d xs ix)"
  by (simp add: scan_slots_def)

lemma scan_from:
  assumes "\<And>i. works i" "slot_count cfg \<le> 2 ^ 32" "m \<le> extent_count cfg"
  shows "\<exists>f' c'. scan cfg works d [m..<extent_count cfg] (ix, f, c)
     = Some (scan_slots cfg d [min (slot_count cfg) (m * SLOTS_PER_EXTENT)..<slot_count cfg] ix, f', c')"
  using assms(3)
proof (induction "extent_count cfg - m" arbitrary: m ix f c)
  case 0
  have "slot_count cfg \<le> extent_count cfg * SLOTS_PER_EXTENT"
    by (simp add: extent_count_def SLOTS_PER_EXTENT_def)
  with 0 show ?case by (simp add: scan_slots_def)
next
  case (Suc j)
  let ?n = "slot_count cfg" and ?b = "m * SLOTS_PER_EXTENT"
  have m: "m < extent_count cfg" "[m..<extent_count cfg] = m # [Suc m..<extent_count cfg]"
    using Suc.hyps(2) by (simp_all add: upt_conv_Cons)
  then have b: "?b \<le> ?n" by (simp add: extent_count_def SLOTS_PER_EXTENT_def)
  note sum = slots_in_extent_sum [OF b]
  obtain hs where hs: "scan_extent cfg (works m) d m (slots_in_extent ?n m) = Some hs"
      "fst (scan_headers m 0 hs (ix, f, c)) = scan_slots cfg d [?b..<?b + slots_in_extent ?n m] ix"
  proof -
    have "slots_in_extent ?n m \<le> SLOTS_PER_EXTENT" by (simp add: slots_in_extent_def)
    moreover have "?b + slots_in_extent ?n m \<le> 2 ^ 32" unfolding sum using assms(2) by (rule min.coboundedI1)
    ultimately show ?thesis using that scan_extent_slots [OF assms(1)] by metis
  qed
  obtain ix1 f1 c1 where acc: "scan_headers m 0 hs (ix, f, c) = (ix1, f1, c1)" by (metis surj_pair)
  have "[?b..<?b + slots_in_extent ?n m] @ [min ?n (Suc m * SLOTS_PER_EXTENT)..<?n] = [?b..<?n]"
    unfolding sum using b by (intro upt_join) simp_all
  then have "scan_slots cfg d [min ?n (Suc m * SLOTS_PER_EXTENT)..<?n] ix1 = scan_slots cfg d [?b..<?n] ix"
    using hs(2) acc by (metis fst_conv scan_slots_append)
  moreover have "j = extent_count cfg - Suc m" "Suc m \<le> extent_count cfg" using Suc.hyps(2) m(1) by simp_all
  ultimately show ?case
    using Suc.hyps(1) [of "Suc m" ix1 f1 c1] b by (auto simp: m(2) hs(1) acc min_absorb2)
qed

section \<open>The index a scan builds\<close>

text \<open>No two slots' headers on disk name the same key.\<close>

definition heads_distinct :: "store_config \<Rightarrow> disk \<Rightarrow> bool" where
  "heads_distinct cfg d \<longleftrightarrow> (\<forall>i < slot_count cfg. \<forall>j < slot_count cfg.
     case (slot_head cfg d i, slot_head cfg d j) of (Some h, Some h') \<Rightarrow> hdr_key h = hdr_key h' \<longrightarrow> i = j | _ \<Rightarrow> True)"

lemma heads_distinctD:
  "heads_distinct cfg d \<Longrightarrow> i < slot_count cfg \<Longrightarrow> j < slot_count cfg \<Longrightarrow> slot_head cfg d i = Some h \<Longrightarrow>
    slot_head cfg d j = Some h' \<Longrightarrow> hdr_key h = hdr_key h' \<Longrightarrow> i = j"
  unfolding heads_distinct_def by (drule spec [of _ i], drule mp, assumption, drule spec [of _ j], drule mp, assumption) simp

definition scanned :: "store_config \<Rightarrow> disk \<Rightarrow> nat \<Rightarrow> index \<Rightarrow> bool" where
  "scanned cfg d m ix \<longleftrightarrow> linked ix (filter (\<lambda>i. slot_head cfg d i \<noteq> None) [0..<m]) \<and> keymap (slot_keys ix) (imap ix)
     \<and> slot_keys ix = map (\<lambda>i. if i < m then map_option hdr_key (slot_head cfg d i) else None) [0..<slot_count cfg]
     \<and> ifree ix = filter (\<lambda>i. slot_head cfg d i = None) [0..<m]"

lemma scanned_length: "scanned cfg d m ix \<Longrightarrow> length (islots ix) = slot_count cfg"
proof -
  assume "scanned cfg d m ix"
  then have "length (slot_keys ix) = length (map (\<lambda>i. if i < m then map_option hdr_key (slot_head cfg d i) else None) [0..<slot_count cfg])"
    by (simp only: scanned_def)
  then show ?thesis by simp
qed

lemma scanned_empty: "scanned cfg d 0 (index_empty (slot_count cfg))"
  by (simp add: scanned_def index_empty_def linked_def keymap_def slot_empty_def map_replicate_const)

lemma scanned_step:
  assumes "scanned cfg d m ix" "m < slot_count cfg" "heads_distinct cfg d"
  shows "scanned cfg d (Suc m) (scan_occupy m (slot_head cfg d m) ix)"
proof (cases "slot_head cfg d m")
  case None
  have "slot_keys ix = map (\<lambda>i. if i < Suc m then map_option hdr_key (slot_head cfg d i) else None) [0..<slot_count cfg]"
    using assms(1) None by (auto simp: scanned_def less_Suc_eq)
  moreover have "linked (scan_occupy m (slot_head cfg d m) ix) (filter (\<lambda>i. slot_head cfg d i \<noteq> None) [0..<m])"
    using assms(1) None by (auto simp: scanned_def scan_occupy_def intro: linked_cong)
  ultimately show ?thesis using assms(1) None by (simp add: scanned_def scan_occupy_def)
next
  case (Some h)
  have n: "length (islots ix) = slot_count cfg" by (rule scanned_length [OF assms(1)])
  have ks: "slot_keys ix = map (\<lambda>i. if i < m then map_option hdr_key (slot_head cfg d i) else None) [0..<slot_count cfg]"
    and km: "keymap (slot_keys ix) (imap ix)" and lk: "linked ix (filter (\<lambda>i. slot_head cfg d i \<noteq> None) [0..<m])"
    using assms(1) by (auto simp: scanned_def)
  have "map_of (imap ix) (hdr_key h) \<noteq> Some i" for i
  proof
    assume "map_of (imap ix) (hdr_key h) = Some i"
    then have i: "i < slot_count cfg" "slot_keys ix ! i = Some (hdr_key h)" using keymap_get [OF km] n by auto
    then obtain h' where "slot_head cfg d i = Some h'" "hdr_key h' = hdr_key h" "i < m"
      unfolding ks by (auto split: if_splits)
    then show False using heads_distinctD [OF assms(3) i(1) assms(2) _ Some] by auto
  qed
  then have free: "map_of (imap ix) (hdr_key h) = None" by (metis not_None_eq)
  have "slot_keys ix ! m = None" using assms(2) by (simp add: ks)
  note o = occupy_parts [OF lk _ _ km this free, of "body_len h" "hdr_crc h"]
  have "(slot_keys ix)[m := Some (hdr_key h)]
      = map (\<lambda>i. if i < Suc m then map_option hdr_key (slot_head cfg d i) else None) [0..<slot_count cfg]"
    unfolding ks using assms(2) Some by (intro nth_equalityI) (auto simp: nth_list_update less_Suc_eq)
  then show ?thesis
    using o assms(1,2) n Some by (simp add: scanned_def scan_occupy_def)
qed

lemma scanned_all:
  assumes "heads_distinct cfg d" "m \<le> slot_count cfg"
  shows "scanned cfg d m (scan_slots cfg d [0..<m] (index_empty (slot_count cfg)))"
  using assms(2)
proof (induction m)
  case (Suc m)
  then show ?case using scanned_step [OF _ _ assms(1), of m] by (simp add: scan_slots_def)
qed (simp add: scan_slots_def scanned_empty)

lemma scanned_rep:
  assumes "scanned cfg d (slot_count cfg) ix"
  shows "index_rep ix (filter (\<lambda>i. slot_head cfg d i \<noteq> None) [0..<slot_count cfg])"
proof -
  have ks: "slot_keys ix = map (\<lambda>i. map_option hdr_key (slot_head cfg d i)) [0..<slot_count cfg]"
    using assms by (auto simp: scanned_def)
  have s: "linked ix (filter (\<lambda>i. slot_head cfg d i \<noteq> None) [0..<slot_count cfg])" "keymap (slot_keys ix) (imap ix)"
    "ifree ix = filter (\<lambda>i. slot_head cfg d i = None) [0..<slot_count cfg]"
    using assms by (auto simp: scanned_def)
  show ?thesis unfolding index_rep_def scanned_length [OF assms] s(3) using s(1,2) by (auto simp: ks)
qed

definition store_cfg_ok :: "store_config \<Rightarrow> bool" where
  "store_cfg_ok cfg \<longleftrightarrow> st_chunk_size cfg mod DIRECT_IO_ALIGN = 0 \<and> slot_count cfg \<le> 2 ^ 32"

lemma store_open_index:
  assumes "store_cfg_ok cfg" "heads_distinct cfg d" "\<And>i. works i"
  obtains st where "store_open cfg works d = Inr st" "scfg st = cfg" "sdisk st = d" "index_ok (sindex st)"
    "length (islots (sindex st)) = slot_count cfg"
    "\<And>k s. map_of (imap (sindex st)) k = Some s \<longleftrightarrow> s < slot_count cfg \<and> map_option hdr_key (slot_head cfg d s) = Some k"
    "lru_order (sindex st) = List.map_filter (\<lambda>s. map_option hdr_key (slot_head cfg d s)) [0..<slot_count cfg]"
proof -
  let ?n = "slot_count cfg"
  define ix where "ix = scan_slots cfg d [0..<?n] (index_empty ?n)"
  obtain f c where sc: "scan cfg works d [0..<extent_count cfg] (index_empty ?n, 0, 0) = Some (ix, f, c)"
    using scan_from [of works cfg 0 d "index_empty ?n" 0 0, OF assms(3)] assms(1) by (auto simp: store_cfg_ok_def ix_def)
  define st where "st = \<lparr>scfg = cfg, sdisk = d, sindex = ix,
      sstats = store_stats_default\<lparr>corrupt_slots := of_nat c, scan_recovered := of_nat f\<rparr>\<rparr>"
  have scd: "scanned cfg d ?n ix" unfolding ix_def by (rule scanned_all [OF assms(2) order_refl])
  note rep = scanned_rep [OF scd]
  have ks: "slot_keys ix = map (\<lambda>i. map_option hdr_key (slot_head cfg d i)) [0..<?n]"
    using scd by (auto simp: scanned_def)
  have ok: "index_ok ix" by (rule index_okI [OF rep])
  show thesis
  proof (rule that [of st])
    show "store_open cfg works d = Inr st" using assms(1) sc by (simp add: store_open_def store_cfg_ok_def st_def)
    show "map_of (imap (sindex st)) k = Some s \<longleftrightarrow> s < ?n \<and> map_option hdr_key (slot_head cfg d s) = Some k" for k s
      using index_ok_map [OF ok, of k s] scanned_length [OF scd] ks by (auto simp: st_def)
    show "lru_order (sindex st) = List.map_filter (\<lambda>s. map_option hdr_key (slot_head cfg d s)) [0..<?n]"
      unfolding st_def by (simp add: lru_order_rep(1) [OF rep] ks map_filter_def)
  qed (simp_all add: st_def ok scanned_length [OF scd])
qed

section \<open>Stores whose disk and index agree\<close>

text \<open>Every header on disk belongs to a key of the index.\<close>

definition disk_agrees :: "store \<Rightarrow> bool" where
  "disk_agrees st \<longleftrightarrow> (\<forall>s < slot_count (scfg st).
     slot_key (islots (sindex st) ! s) = map_option hdr_key (slot_head (scfg st) (sdisk st) s))"

lemma disk_agrees_map:
  assumes "index_ok (sindex st)" "length (islots (sindex st)) = slot_count (scfg st)" "disk_agrees st"
  shows "map_of (imap (sindex st)) k = Some s \<longleftrightarrow>
    s < slot_count (scfg st) \<and> map_option hdr_key (slot_head (scfg st) (sdisk st) s) = Some k"
proof -
  have "slot_keys (sindex st) ! s = map_option hdr_key (slot_head (scfg st) (sdisk st) s)" if "s < slot_count (scfg st)"
    using that assms(2,3) by (simp add: disk_agrees_def)
  then show ?thesis unfolding index_ok_map [OF assms(1)] assms(2) by metis
qed

lemma disk_agrees_distinct:
  assumes "store_ok crc32 st" "disk_agrees st"
  shows "heads_distinct (scfg st) (sdisk st)"
proof -
  have ok: "index_ok (sindex st)" "length (islots (sindex st)) = slot_count (scfg st)" using assms(1) by (auto simp: store_ok_def)
  have "i = j" if "i < slot_count (scfg st)" "j < slot_count (scfg st)" "slot_head (scfg st) (sdisk st) i = Some h"
    "slot_head (scfg st) (sdisk st) j = Some h'" "hdr_key h = hdr_key h'" for i j h h'
    using disk_agrees_map [OF ok assms(2), of "hdr_key h" i] disk_agrees_map [OF ok assms(2), of "hdr_key h" j] that by simp
  then show ?thesis by (fastforce simp: heads_distinct_def split: option.splits)
qed

lemma blank_head: "slot_head cfg blank_disk s = None"
proof -
  have "slot_page cfg blank_disk s = replicate SLOT_HEADER_BYTES (char_of (0 :: nat))"
    by (simp add: slot_page_def disk_bytes_def blank_disk_def map_replicate_const)
  then show ?thesis using parse_zeros by (auto simp: slot_head_def split: option.splits sum.splits)
qed

text \<open>Reopening a store whose disk and index agree gives the same contents.\<close>

lemma reopen:
  assumes "store_ok crc32 st" "disk_agrees st" "store_cfg_ok (scfg st)" "\<And>i. works i"
  obtains st' where "store_open (scfg st) works (sdisk st) = Inr st'" "scfg st' = scfg st" "sdisk st' = sdisk st"
    "store_ok crc32 st'" "disk_agrees st'" "contents st' = contents st"
proof -
  let ?cfg = "scfg st" and ?d = "sdisk st"
  obtain st' where st': "store_open ?cfg works ?d = Inr st'" "scfg st' = ?cfg" "sdisk st' = ?d" "index_ok (sindex st')"
      "length (islots (sindex st')) = slot_count ?cfg"
      "\<And>k s. map_of (imap (sindex st')) k = Some s \<longleftrightarrow> s < slot_count ?cfg \<and> map_option hdr_key (slot_head ?cfg ?d s) = Some k"
    by (rule store_open_index [OF assms(3) disk_agrees_distinct [OF assms(1,2)] assms(4)], rule that)
  have ok: "index_ok (sindex st)" "length (islots (sindex st)) = slot_count ?cfg" using assms(1) by (auto simp: store_ok_def)
  have "map_of (imap (sindex st')) k = Some s \<longleftrightarrow> map_of (imap (sindex st)) k = Some s" for k s
    unfolding st'(6) disk_agrees_map [OF ok assms(2)] by (rule refl)
  then have m: "map_of (imap (sindex st')) = map_of (imap (sindex st))" by (intro ext) (metis not_None_eq)
  have "store_ok crc32 st'"
    using store_ok_slot(2) [OF assms(1)] st'(2-5) m by (auto simp: store_ok_def index_ok_entries [OF st'(4)])
  moreover have "disk_agrees st'"
    unfolding disk_agrees_def st'(2,3)
  proof (intro allI impI)
    fix s assume s: "s < slot_count ?cfg"
    have "slot_keys (sindex st') ! s = Some k \<longleftrightarrow> map_option hdr_key (slot_head ?cfg ?d s) = Some k" for k
      using index_ok_map [OF st'(4), of k s] st'(5,6) s by simp
    then show "slot_key (islots (sindex st') ! s) = map_option hdr_key (slot_head ?cfg ?d s)"
      using s st'(5) by (metis not_None_eq nth_map)
  qed
  moreover have "contents st' = contents st" by (intro ext) (simp add: contents_def m st'(2,3))
  ultimately show thesis using that st'(1-3) by blast
qed

lemma open_blank:
  assumes "store_cfg_ok cfg" "store_open cfg works blank_disk = Inr st" "\<And>i. works i"
  shows "store_ok crc32 st" and "disk_agrees st" and "contents st k = None" and "scfg st = cfg"
proof -
  have "heads_distinct cfg blank_disk" by (simp add: heads_distinct_def blank_head)
  obtain st' where st': "store_open cfg works blank_disk = Inr st'"
      "scfg st' = cfg" "sdisk st' = blank_disk" "index_ok (sindex st')" "length (islots (sindex st')) = slot_count cfg"
      "\<And>k s. map_of (imap (sindex st')) k = Some s \<longleftrightarrow> s < slot_count cfg \<and> map_option hdr_key (slot_head cfg blank_disk s) = Some k"
    by (rule store_open_index [OF assms(1) \<open>heads_distinct cfg blank_disk\<close> assms(3)], rule that)
  have "map_of (imap (sindex st')) k = None" for k
    using st'(6) [of k] by (metis blank_head not_None_eq option.map_disc_iff)
  then have st: "scfg st = cfg" "sdisk st = blank_disk" "index_ok (sindex st)" "length (islots (sindex st)) = slot_count cfg"
      "\<And>k. map_of (imap (sindex st)) k = None"
    using assms(2) st'(1-5) by simp_all
  show "scfg st = cfg" by (rule st(1))
  show "store_ok crc32 st" using st by (auto simp: store_ok_def index_ok_entries [OF st(3)])
  show "contents st k = None" by (simp add: contents_def st(5))
  have "slot_keys (sindex st) ! s = None" if "s < slot_count cfg" for s
    using index_ok_map [OF st(3), of _ s] st(4,5) that by (cases "slot_keys (sindex st) ! s") auto
  then show "disk_agrees st" using st(4) by (simp add: disk_agrees_def st(1,2) blank_head)
qed

text \<open>A successful fill keeps the agreement.\<close>

lemma slot_good_head: "slot_good crc32 cfg d s k \<Longrightarrow> map_option hdr_key (slot_head cfg d s) = Some k"
  by (auto simp: slot_good_def split: option.splits)

lemma disk_agrees_get:
  assumes "store_ok crc32 st" "disk_agrees st"
  shows "disk_agrees (snd (store_get crc32 env k st))"
proof -
  note g = get_correct [OF assms(1), of env k]
  have ok: "index_ok (sindex st)" "length (islots (sindex st)) = slot_count (scfg st)" using assms(1) by (auto simp: store_ok_def)
  have k: "slot_keys (snd (touch k (sindex st))) = slot_keys (sindex st)"
    using touch_same_keys [OF ok(1)] by (simp add: same_keys_def)
  have "slot_key (islots (snd (touch k (sindex st))) ! s) = slot_key (islots (sindex st) ! s)" if "s < slot_count (scfg st)" for s
    using arg_cong [OF k, of "\<lambda>l. l ! s"] that ok(2) by simp
  then show ?thesis using assms(2) by (simp add: disk_agrees_def g(5,6))
qed

lemma disk_agrees_put:
  assumes "store_ok crc32 st" "disk_agrees st" "put_args_ok k c" "st_chunk_size (scfg st) < 2 ^ 32"
    and "fst (store_put crc32 env k c st) = None"
  shows "disk_agrees (snd (store_put crc32 env k c st))"
proof (cases "map_of (imap (sindex st)) k")
  let ?st' = "snd (store_put crc32 env k c st)" and ?cfg = "scfg st"
  have len: "length (body c) \<le> st_chunk_size ?cfg"
    using put_correct(2) [OF assms(1,3,4), of env] assms(5) by fastforce
  {
    case None
    obtain s ix' where s: "s < slot_count ?cfg" "length (islots ix') = slot_count ?cfg"
        "slot_keys ix' = (slot_keys (sindex st))[s := Some k]"
        "(None, sdisk ?st') = write_slot ?cfg env s (put_header crc32 k c) (body c) (sdisk st)" "sindex ?st' = ix'"
      using put_parts [OF assms(1) len None, of env] assms(5) by metis
    have n: "length (islots (sindex st)) = slot_count ?cfg" using assms(1) by (simp add: store_ok_def)
    have "slot_keys ix' ! t = map_option hdr_key (slot_head ?cfg (sdisk ?st') t)" if "t < slot_count ?cfg" for t
    proof (cases "t = s")
      case True
      have "slot_good crc32 ?cfg (sdisk ?st') s k"
        using put_written(1) [OF assms(3) len assms(4), of env s crc32 "sdisk st"] s(4) by (metis fst_conv snd_conv)
      from slot_good_head [OF this] show ?thesis using s(1,3) n True by (simp only: nth_list_update_eq length_map)
    next
      case False
      then have "slot_head ?cfg (sdisk ?st') t = slot_head ?cfg (sdisk st) t"
        using slot_frame(1) [of s t _ ?cfg] len s(4) by (metis snd_conv)
      then show ?thesis using assms(2) that n s(3) False by (simp add: disk_agrees_def)
    qed
    then show ?thesis using s(2,5) by (simp add: disk_agrees_def)
  }
  case (Some t)
  then show ?thesis using len assms(2) by (simp add: store_put_def Let_def claim_def disk_agrees_def)
qed

lemma reopen_same:
  assumes "store_ok crc32 st" "disk_agrees st" "store_cfg_ok (scfg st)" "\<And>i. works i"
    and "store_open (scfg st) works (sdisk st) = Inr st'"
  shows "scfg st' = scfg st" and "sdisk st' = sdisk st" and "store_ok crc32 st'" and "disk_agrees st'" and "contents st' = contents st"
proof -
  obtain st'' where o: "store_open (scfg st) works (sdisk st) = Inr st''" "scfg st'' = scfg st" "sdisk st'' = sdisk st"
      "store_ok crc32 st''" "disk_agrees st''" "contents st'' = contents st"
    by (rule reopen [OF assms(1-4)], rule that)
  have "st'' = st'" using o(1) assms(5) by simp
  with o show "scfg st' = scfg st" "sdisk st' = sdisk st" "store_ok crc32 st'" "disk_agrees st'" "contents st' = contents st"
    by simp_all
qed

section \<open>Histories with restarts\<close>

text \<open>
  What can happen to a tier whose fills all succeed: it opens on fresh files, serves reads (which
  may fail), takes fills, and restarts on the files it left.
\<close>

inductive filled :: "(bytes \<Rightarrow> u32) \<Rightarrow> store_config \<Rightarrow> store \<Rightarrow> bool" for crc32 cfg where
  opened: "store_open cfg (\<lambda>_. True) blank_disk = Inr st \<Longrightarrow> filled crc32 cfg st"
| read: "filled crc32 cfg st \<Longrightarrow> filled crc32 cfg (snd (store_get crc32 env k st))"
| fill: "filled crc32 cfg st \<Longrightarrow> put_args_ok k c \<Longrightarrow> fst (store_put crc32 env k c st) = None \<Longrightarrow>
    filled crc32 cfg (snd (store_put crc32 env k c st))"
| restart: "filled crc32 cfg st \<Longrightarrow> store_open cfg (\<lambda>_. True) (sdisk st) = Inr st' \<Longrightarrow> filled crc32 cfg st'"

lemma filled_agrees:
  assumes "filled crc32 cfg st" "store_cfg_ok cfg" "st_chunk_size cfg < 2 ^ 32"
  shows "scfg st = cfg \<and> store_ok crc32 st \<and> disk_agrees st"
  using assms(1)
proof induction
  case (opened st)
  then show ?case using open_blank [OF assms(2)] by blast
next
  case (read st env k)
  then show ?case using get_correct(1) disk_agrees_get by simp
next
  case (fill st k c env)
  then show ?case using put_correct(1) [of crc32 st k c env] disk_agrees_put [of crc32 st k c env] assms(3) by auto
next
  case (restart st st')
  then show ?case using reopen_same [of crc32 st "\<lambda>_. True" st'] assms(2) by auto
qed

section \<open>Correctness of the store\<close>

lemma open_works:
  assumes "store_cfg_ok cfg"
  obtains st where "store_open cfg (\<lambda>_. True) blank_disk = Inr st"
proof -
  have "heads_distinct cfg blank_disk" by (simp add: heads_distinct_def blank_head)
  show thesis by (rule store_open_index [OF assms \<open>heads_distinct cfg blank_disk\<close>, of "\<lambda>_. True"], rule TrueI, rule that)
qed

definition tiny_store :: store_config where
  "tiny_store = \<lparr>st_chunk_size = 4096, capacity_bytes = 4096, verify_body = False, st_read_shape = TwoRead, read_concurrency = 1\<rparr>"

definition tiny_chunk :: cached_chunk where
  "tiny_chunk = \<lparr>body = ''abc'', e_tag = None\<rparr>"

lemma tiny_ok: "store_cfg_ok tiny_store" "st_chunk_size tiny_store < 2 ^ 32" "put_args_ok ''k'' tiny_chunk"
  by (simp_all add: store_cfg_ok_def tiny_store_def tiny_chunk_def DIRECT_IO_ALIGN_def slot_count_def slot_bytes_def SLOT_HEADER_BYTES_def put_args_ok_def byte_in_def)

text \<open>A fill whose writes succeed and whose header fits its page is taken.\<close>

lemma write_slot_works:
  assumes "header_fits h" "body_write env = None" "sync_ok env" "hdr_write env = None"
  shows "fst (write_slot cfg env s h bs d) = None"
proof -
  obtain page where "write_to h (replicate SLOT_HEADER_BYTES (char_of (0 :: nat))) = Some (Inr page)"
    using write_to_layout [OF _ assms(1), of "replicate SLOT_HEADER_BYTES (char_of (0 :: nat))"] by auto
  then show ?thesis using assms(2-4) by (simp add: write_slot_def Let_def)
qed

lemma put_works:
  assumes "store_ok crc32 st" "length (body c) \<le> st_chunk_size (scfg st)" "header_fits (put_header crc32 k c)"
    and "body_write env = None" "sync_ok env" "hdr_write env = None"
  shows "fst (store_put crc32 env k c st) = None"
proof (cases "map_of (imap (sindex st)) k")
  case None
  obtain s where "(fst (store_put crc32 env k c st), sdisk (snd (store_put crc32 env k c st)))
      = write_slot (scfg st) env s (put_header crc32 k c) (body c) (sdisk st)"
    using put_parts [OF assms(1,2) None, of env] by metis
  then show ?thesis using write_slot_works [OF assms(3-6)] by (metis fst_conv)
next
  case (Some t)
  then show ?thesis using assms(2) by (simp add: store_put_def Let_def claim_def)
qed

text \<open>A one-slot store that holds one chunk.\<close>

lemma tiny_count: "slot_count tiny_store = 1"
  by (simp add: tiny_store_def slot_count_def slot_bytes_def SLOT_HEADER_BYTES_def)

lemma tiny_fits: "header_fits (put_header crc32 [x] tiny_chunk)"
  by (simp add: header_fits_def put_header_def slot_etag_bytes_def tiny_chunk_def slot_layout)

lemma tiny_filled:
  obtains st0 st where "store_open tiny_store (\<lambda>_. True) blank_disk = Inr st0" "st = snd (store_put crc32 io_good ''k'' tiny_chunk st0)"
    "filled crc32 tiny_store st" "fst (store_get crc32 io_good ''k'' st) = Some (Inr (Some tiny_chunk))" "lru_order (sindex st) = [''k'']"
proof -
  obtain st0 where o: "store_open tiny_store (\<lambda>_. True) blank_disk = Inr st0" by (rule open_works [OF tiny_ok(1)], rule that)
  note b = open_blank [OF tiny_ok(1) o TrueI]
  let ?st = "snd (store_put crc32 io_good ''k'' tiny_chunk st0)"
  have z: "length (body tiny_chunk) \<le> st_chunk_size (scfg st0)" "st_chunk_size (scfg st0) < 2 ^ 32"
    unfolding b(4) by (simp_all add: tiny_chunk_def tiny_store_def)
  have w: "fst (store_put crc32 io_good ''k'' tiny_chunk st0) = None"
    by (rule put_works [OF b(1) z(1) tiny_fits]) (simp_all add: io_good_def)
  have l: "lru_order (sindex st0) = []" using contents_order [OF b(1)] b(3) by (metis list.set_intros(1) neq_Nil_conv)
  note p = put_correct(4) [OF b(1) tiny_ok(3) z(2), of crc32 io_good] put_correct(1) [OF b(1) tiny_ok(3) z(2), of crc32 io_good]
  have "lru_order (sindex ?st) = [''k'']" "contents ?st ''k'' = Some tiny_chunk"
    using p(1) [OF z(1) b(3)] w l by (simp_all add: b(4) tiny_count lru_insert_def read_back_def tiny_chunk_def)
  moreover have "fst (store_get crc32 io_good ''k'' ?st) = Some (Inr (contents ?st ''k''))"
    using get_correct(4) [OF p(2), of io_good "''k''"] by (simp add: io_good_def)
  ultimately show thesis
    using that [OF o refl filled.fill [OF filled.opened [OF o] tiny_ok(3) w]] by simp
qed

text \<open>Reading a slot whose header names the key, with the body check off.\<close>

lemma get_unverified:
  assumes "map_of (imap (sindex st)) k = Some s" "s < slot_count (scfg st)" "slot_head (scfg st) (sdisk st) s = Some h" "hdr_key h = k"
    and "\<not> verify_body (scfg st)"
  shows "fst (store_get crc32 io_good k st) =
    Some (Inr (Some \<lparr>body = slot_body (scfg st) (sdisk st) s (unat (body_len h)), e_tag = hdr_e_tag h\<rparr>))"
proof -
  obtain ix where t: "touch k (sindex st) = (Some s, ix)" using assms(1) by (simp add: touch_def)
  let ?c = "\<lparr>body = slot_body (scfg st) (sdisk st) s (unat (body_len h)), e_tag = hdr_e_tag h\<rparr>"
  have "slot_chunk (scfg st) (sdisk st) s = Some ?c" using assms(3) by (simp add: slot_chunk_def)
  moreover have "hdr_read_ok io_good" "body_read_ok io_good" by (simp_all add: io_good_def)
  ultimately have r: "fst (read_slot crc32 (scfg st) io_good k s (sdisk st) (sstats st)) = Served ?c"
      "fst (read_overlapped crc32 (scfg st) io_good k s (sdisk st) (sstats st)) = Served ?c"
    using read_head [OF assms(2-4), of crc32 io_good "sstats st"] assms(5) by auto
  show ?thesis using get_served(1) [OF t, of crc32 io_good True ?c] r by simp
qed

text \<open>A fill that stops before its header leaves every header as it was.\<close>

definition torn_env :: io_env where
  "torn_env = io_good\<lparr>hdr_write := Some 0\<rparr>"

lemma torn_write:
  fixes s d
  assumes "header_fits h" "length bs \<le> st_chunk_size cfg"
  defines "d' \<equiv> snd (write_slot cfg torn_env s h bs d)"
  shows "slot_head cfg d' t = slot_head cfg d t" and "n \<le> length bs \<Longrightarrow> slot_body cfg d' s n = take n bs"
proof -
  let ?at = "locate cfg s"
  obtain page where "write_to h (replicate SLOT_HEADER_BYTES (char_of (0 :: nat))) = Some (Inr page)"
    using write_to_layout [OF _ assms(1), of "replicate SLOT_HEADER_BYTES (char_of (0 :: nat))"] by auto
  then have d': "d' = disk_put (disk_put d (at_extent ?at) (body_at ?at) bs) (at_extent ?at) (header_at ?at) []"
    by (simp add: d'_def write_slot_def Let_def torn_env_def io_good_def)
  have n: "disk_put x e off [] = x" for x :: disk and e off by (intro ext) (auto simp: disk_put_def)
  show "slot_head cfg d' t = slot_head cfg d t"
    unfolding d' n slot_head_def slot_page_def by (simp add: disk_bytes_frame [OF header_body_apart(2)] del: locate_sel)
  show "slot_body cfg d' s n = take n bs" if "n \<le> length bs"
    unfolding d' n slot_body_def using that disk_bytes_put [of d "at_extent ?at" "body_at ?at" bs]
    by (metis take_disk_bytes)
qed

lemma align_up_mod: "align_up n mod DIRECT_IO_ALIGN = 0"
  by (simp add: align_up_def)

lemma min_mod: "a mod n = 0 \<Longrightarrow> b mod n = 0 \<Longrightarrow> min a b mod n = 0" for a b n :: nat
  by (simp add: min_def)

lemma slot_extent_exists: "s < slot_count cfg \<Longrightarrow> at_extent (locate cfg s) < extent_count cfg"
  by (simp add: extent_count_def SLOTS_PER_EXTENT_def)

text \<open>
  C19 (every read of a slot is aligned, inside its file and disjoint from the other slots): the header
  page and the body read of slot \<open>s\<close> start at multiples of the direct-I/O alignment, the body read has an aligned
  length that covers the body, both end inside the extent file that exists for them, the header
  never overlaps a body, and no other slot shares a byte with either.
\<close>

theorem slot_reads_aligned_in_bounds:
  assumes "store_cfg_ok cfg" "s < slot_count cfg" "len \<le> st_chunk_size cfg"
  defines "at \<equiv> locate cfg s" and "n \<equiv> min (align_up len) (st_chunk_size cfg)"
  shows "header_at at mod DIRECT_IO_ALIGN = 0 \<and> body_at at mod DIRECT_IO_ALIGN = 0 \<and> n mod DIRECT_IO_ALIGN = 0 \<and> len \<le> n
    \<and> at_extent at < extent_count cfg
    \<and> header_at at + SLOT_HEADER_BYTES \<le> body_at at \<and> body_at at + n \<le> extent_len cfg (at_extent at)
    \<and> (\<forall>s'. s' \<noteq> s \<longrightarrow> (let at' = locate cfg s' in
         apart (at_extent at) (header_at at) SLOT_HEADER_BYTES (at_extent at') (header_at at') SLOT_HEADER_BYTES
         \<and> apart (at_extent at) (body_at at) (st_chunk_size cfg) (at_extent at') (body_at at') (st_chunk_size cfg)
         \<and> apart (at_extent at) (header_at at) SLOT_HEADER_BYTES (at_extent at') (body_at at') (st_chunk_size cfg)))"
proof (intro conjI allI impI)
  have z: "st_chunk_size cfg mod DIRECT_IO_ALIGN = 0" using assms(1) by (simp add: store_cfg_ok_def)
  show "header_at at mod DIRECT_IO_ALIGN = 0" by (simp add: at_def store_layout DIRECT_IO_ALIGN_def)
  show "body_at at mod DIRECT_IO_ALIGN = 0"
    using z by (simp add: at_def store_layout DIRECT_IO_ALIGN_def mod_add_eq [symmetric] mod_mult_right_eq [symmetric])
  show "n mod DIRECT_IO_ALIGN = 0" unfolding n_def by (rule min_mod [OF align_up_mod z])
  show "len \<le> n" using assms(3) align_up_ge by (simp add: n_def)
  show "at_extent at < extent_count cfg" unfolding at_def by (rule slot_extent_exists [OF assms(2)])
  show "header_at at + SLOT_HEADER_BYTES \<le> body_at at" using header_region [of cfg s] by (simp add: at_def body_offset_def)
  show "body_at at + n \<le> extent_len cfg (at_extent at)" unfolding at_def by (rule slot_in_extent(2) [OF assms(2)]) (simp add: n_def)
qed (simp add: at_def Let_def headers_apart bodies_apart header_body_apart del: locate_sel)

theorem slot_reads_aligned_in_bounds_witness:
  "at_extent (locate tiny_store 0) < extent_count tiny_store \<and> min (align_up 3) (st_chunk_size tiny_store) = 4096
     \<and> body_at (locate tiny_store 0) + min (align_up 3) (st_chunk_size tiny_store) \<le> extent_len tiny_store (at_extent (locate tiny_store 0))"
proof -
  have "0 < slot_count tiny_store" "3 \<le> st_chunk_size tiny_store" "min (align_up 3) (st_chunk_size tiny_store) = 4096"
    by (simp_all add: tiny_store_def align_up_def DIRECT_IO_ALIGN_def)
  with slot_reads_aligned_in_bounds [OF tiny_ok(1), of 0 3] show ?thesis by (simp del: locate_sel)
qed

text \<open>
  C7 (the chunk store never serves a body under the wrong key): open a store on fresh files and let
  any sequence of reads, fills and invalidations happen, with any of their system calls failing at
  any point. A read then answers only a chunk that was put under that very key since the key was
  last invalidated.
\<close>

theorem store_never_serves_wrong:
  assumes "store_cfg_ok cfg" "st_chunk_size cfg < 2 ^ 32" "store_open cfg (\<lambda>_. True) blank_disk = Inr st"
    and "\<forall>x \<in> set ops. args_in put_args_ok x"
    and "fst (store_get crc32 env k (fold (store_run crc32) ops st)) = Some (Inr (Some c))"
  shows "c \<in> live read_back (rev ops) k"
proof -
  have "store_sound crc32 st" using open_blank(1,4) [OF assms(1,3)] assms(2) by (simp add: store_sound_def)
  from store_backend.served_live [OF this assms(4), of env k c] show ?thesis
    using assms(5) open_blank(3) [OF assms(1,3)] by (simp add: store_answer_def)
qed

theorem store_never_serves_wrong_witness:
  "\<exists>st :: store. fst (store_get (\<lambda>_. 0) io_good ''k'' (fold (store_run (\<lambda>_. 0)) [BPut io_good ''k'' tiny_chunk] st)) = Some (Inr (Some tiny_chunk))
     \<and> tiny_chunk \<in> live read_back (rev [BPut io_good ''k'' tiny_chunk]) ''k''"
proof -
  obtain st0 where st: "store_open tiny_store (\<lambda>_. True) blank_disk = Inr st0"
      "fst (store_get (\<lambda>_. 0) io_good ''k'' (snd (store_put (\<lambda>_. 0) io_good ''k'' tiny_chunk st0))) = Some (Inr (Some tiny_chunk))"
    by (rule tiny_filled [of "\<lambda>_. 0"], rule that) simp_all
  have "\<forall>x \<in> set [BPut io_good ''k'' tiny_chunk]. args_in put_args_ok x" using tiny_ok(3) by simp
  from store_never_serves_wrong [OF tiny_ok(1,2) st(1) this, of "\<lambda>_. 0" io_good "''k''" tiny_chunk] show ?thesis
    using st(2) by (intro exI [of _ st0]) simp
qed

text \<open>
  C9 (a restart loses nothing): after any history of reads, successful fills and earlier restarts,
  opening the files the store left succeeds and gives a store that holds exactly the chunks it held.
\<close>

theorem restart_keeps_tier:
  assumes "store_cfg_ok cfg" "st_chunk_size cfg < 2 ^ 32" "filled crc32 cfg st"
  shows "\<exists>st'. store_open cfg (\<lambda>_. True) (sdisk st) = Inr st' \<and> filled crc32 cfg st' \<and>
    (\<forall>k. fst (store_get crc32 io_good k st') = fst (store_get crc32 io_good k st))"
proof -
  have st: "scfg st = cfg" "store_ok crc32 st" "disk_agrees st" using filled_agrees [OF assms(3,1,2)] by auto
  obtain st' where o: "store_open cfg (\<lambda>_. True) (sdisk st) = Inr st'" "store_ok crc32 st'" "contents st' = contents st"
    using reopen [OF st(2,3), of "\<lambda>_. True"] assms(1) st(1) by metis
  have "fst (store_get crc32 io_good k st') = fst (store_get crc32 io_good k st)" for k
    using get_correct(4) [OF st(2), of io_good k] get_correct(4) [OF o(2), of io_good k] o(3) by simp
  then show ?thesis using o(1) filled.restart [OF assms(3) o(1)] by blast
qed

theorem restart_keeps_tier_witness:
  "\<exists>(st :: store) st'. store_open tiny_store (\<lambda>_. True) (sdisk st) = Inr st' \<and> fst (store_get (\<lambda>_. 0) io_good ''k'' st') = Some (Inr (Some tiny_chunk))"
proof -
  obtain st where st: "filled (\<lambda>_. 0) tiny_store st" "fst (store_get (\<lambda>_. 0) io_good ''k'' st) = Some (Inr (Some tiny_chunk))"
    by (rule tiny_filled [of "\<lambda>_. 0"], rule that)
  obtain st' where "store_open tiny_store (\<lambda>_. True) (sdisk st) = Inr st'"
      "fst (store_get (\<lambda>_. 0) io_good ''k'' st') = fst (store_get (\<lambda>_. 0) io_good ''k'' st)"
    using restart_keeps_tier [OF tiny_ok(1,2) st(1)] by auto
  then show ?thesis unfolding st(2) by (intro exI [of _ st] exI [of _ st'] conjI)
qed

text \<open>
  C34 (an invalidation does not survive a restart): a chunk that was removed is served again once the
  store is reopened, because the removal leaves the slot's header in place.
\<close>

theorem invalidation_lost_on_restart:
  assumes "store_cfg_ok cfg" "st_chunk_size cfg < 2 ^ 32" "filled crc32 cfg st"
    and "fst (store_get crc32 io_good k st) = Some (Inr (Some c))"
  shows "fst (store_get crc32 io_good k (snd (store_remove k st))) = Some (Inr None) \<and>
    (\<exists>st'. store_open cfg (\<lambda>_. True) (sdisk (snd (store_remove k st))) = Inr st' \<and>
      fst (store_get crc32 io_good k st') = Some (Inr (Some c)))"
proof
  have st: "scfg st = cfg" "store_ok crc32 st" "disk_agrees st" using filled_agrees [OF assms(3,1,2)] by auto
  have d: "sdisk (snd (store_remove k st)) = sdisk st" by (simp add: store_remove_def split: prod.splits)
  have "contents (snd (store_remove k st)) k = None" using remove_correct(2) [OF st(2), of k] by simp
  then show "fst (store_get crc32 io_good k (snd (store_remove k st))) = Some (Inr None)"
    using get_correct(4) [OF remove_correct(1) [OF st(2)], of io_good k k] by simp
  obtain st' where o: "store_open cfg (\<lambda>_. True) (sdisk st) = Inr st'" "store_ok crc32 st'" "contents st' = contents st"
    using reopen [OF st(2,3), of "\<lambda>_. True"] assms(1) st(1) by metis
  have "fst (store_get crc32 io_good k st') = Some (Inr (Some c))"
    using get_correct(4) [OF st(2), of io_good k] get_correct(4) [OF o(2), of io_good k] o(3) assms(4) by simp
  with o(1) d show "\<exists>st'. store_open cfg (\<lambda>_. True) (sdisk (snd (store_remove k st))) = Inr st' \<and>
      fst (store_get crc32 io_good k st') = Some (Inr (Some c))" by auto
qed

theorem invalidation_lost_on_restart_witness:
  "\<exists>(st :: store) st'. store_open tiny_store (\<lambda>_. True) (sdisk (snd (store_remove ''k'' st))) = Inr st' \<and>
     fst (store_get (\<lambda>_. 0) io_good ''k'' st') = Some (Inr (Some tiny_chunk))"
proof -
  obtain st where st: "filled (\<lambda>_. 0) tiny_store st" "fst (store_get (\<lambda>_. 0) io_good ''k'' st) = Some (Inr (Some tiny_chunk))"
    by (rule tiny_filled [of "\<lambda>_. 0"], rule that)
  show ?thesis by (rule exI, rule conjunct2 [OF invalidation_lost_on_restart [OF tiny_ok(1,2) st]])
qed

text \<open>
  C17 (a fill cut short serves the wrong bytes after a restart): let the store be full, with the body
  check off, and let a fill of a new key stop after its body was written and before its header
  was. The slot it took still carries the header of the key it evicted. Opened again, the
  store serves that evicted key with the bytes of the new one, with the old length and the old entity tag.
\<close>

theorem torn_put_serves_wrong_bytes:
  assumes "store_cfg_ok cfg" "st_chunk_size cfg < 2 ^ 32" "\<not> verify_body cfg" "filled crc32 cfg st"
    and "length (lru_order (sindex st)) = slot_count cfg" "k1 = hd (lru_order (sindex st))" "k2 \<notin> set (lru_order (sindex st))"
    and "fst (store_get crc32 io_good k1 st) = Some (Inr (Some c1))"
    and "length (body c1) \<le> length (body c2)" "length (body c2) \<le> st_chunk_size cfg" "header_fits (put_header crc32 k2 c2)"
  shows "\<exists>st'. store_open cfg (\<lambda>_. True) (sdisk (snd (store_put crc32 torn_env k2 c2 st))) = Inr st' \<and>
    fst (store_get crc32 io_good k1 st') = Some (Inr (Some (c1\<lparr>body := take (length (body c1)) (body c2)\<rparr>)))"
proof -
  have st: "scfg st = cfg" "store_ok crc32 st" "disk_agrees st" using filled_agrees [OF assms(4,1,2)] by auto
  have ix: "index_ok (sindex st)" "length (islots (sindex st)) = slot_count cfg" using st(1,2) by (auto simp: store_ok_def)
  obtain xs where xs: "index_rep (sindex st) xs" using index_ok_rep [OF ix(1)] by blast
  have full: "ifree (sindex st) = []" using lru_order_rep(6) [OF xs] assms(5) ix(2) by simp
  have new: "map_of (imap (sindex st)) k2 = None" using order_map [OF ix(1)] assms(7) by blast
  have len: "length (body c2) \<le> st_chunk_size (scfg st)" using assms(10) st(1) by simp
  let ?st1 = "snd (store_put crc32 torn_env k2 c2 st)"
  obtain s where s: "s < slot_count cfg" "map_of (imap (sindex st)) k1 = Some s"
      "sdisk ?st1 = snd (write_slot cfg torn_env s (put_header crc32 k2 c2) (body c2) (sdisk st))"
    using put_parts [OF st(2) len new, of torn_env] full st(1) assms(6) by (metis snd_conv)
  note t = torn_write [OF assms(11,10), where s = s and d = "sdisk st", folded s(3)]
  have hd: "heads_distinct cfg (sdisk ?st1)"
    using disk_agrees_distinct [OF st(2,3)] st(1) by (simp add: heads_distinct_def t(1))
  obtain h where h: "slot_head cfg (sdisk st) s = Some h" "hdr_key h = k1"
    using slot_good_head [OF store_ok_slot(2) [OF st(2) s(2)]] st(1) by auto
  have c1: "c1 = \<lparr>body = slot_body cfg (sdisk st) s (unat (body_len h)), e_tag = hdr_e_tag h\<rparr>"
    using get_unverified [OF s(2), of h crc32] s(1) st(1) h assms(3,8) by simp
  then have l: "unat (body_len h) = length (body c1)" by (simp add: slot_body_def)
  obtain st' where o: "store_open cfg (\<lambda>_. True) (sdisk ?st1) = Inr st'" "scfg st' = cfg" "sdisk st' = sdisk ?st1"
      "index_ok (sindex st')" "length (islots (sindex st')) = slot_count cfg"
      "\<And>k s. map_of (imap (sindex st')) k = Some s \<longleftrightarrow> s < slot_count cfg \<and> map_option hdr_key (slot_head cfg (sdisk ?st1) s) = Some k"
    by (rule store_open_index [OF assms(1) hd, of "\<lambda>_. True"], rule TrueI, rule that)
  have "map_of (imap (sindex st')) k1 = Some s" unfolding o(6) using h s(1) by (simp add: t(1))
  have "fst (store_get crc32 io_good k1 st') = Some (Inr (Some \<lparr>body = take (length (body c1)) (body c2), e_tag = hdr_e_tag h\<rparr>))"
    using get_unverified [OF \<open>map_of (imap (sindex st')) k1 = Some s\<close>, of h crc32] s(1) o(2,3) h t(1) t(2) [OF assms(9)] assms(3) l by simp
  then show ?thesis using o(1) c1 by simp
qed

theorem torn_put_serves_wrong_bytes_witness:
  "\<exists>(st :: store) st'. fst (store_get (\<lambda>_. 0) io_good ''k'' st) = Some (Inr (Some tiny_chunk)) \<and>
     store_open tiny_store (\<lambda>_. True) (sdisk (snd (store_put (\<lambda>_. 0) torn_env ''j'' (tiny_chunk\<lparr>body := ''xyz''\<rparr>) st))) = Inr st' \<and>
     fst (store_get (\<lambda>_. 0) io_good ''k'' st') = Some (Inr (Some (tiny_chunk\<lparr>body := ''xyz''\<rparr>)))"
proof -
  obtain st where st: "filled (\<lambda>_. 0) tiny_store st" "fst (store_get (\<lambda>_. 0) io_good ''k'' st) = Some (Inr (Some tiny_chunk))"
      "lru_order (sindex st) = [''k'']"
    by (rule tiny_filled [of "\<lambda>_. 0"], rule that)
  have c: "\<not> verify_body tiny_store" "length (body (tiny_chunk\<lparr>body := ''xyz''\<rparr>)) \<le> st_chunk_size tiny_store"
      "header_fits (put_header (\<lambda>_. 0) ''j'' (tiny_chunk\<lparr>body := ''xyz''\<rparr>))"
    by (simp_all add: tiny_store_def header_fits_def put_header_def slot_etag_bytes_def tiny_chunk_def slot_layout)
  have o: "length (lru_order (sindex st)) = slot_count tiny_store" "''k'' = hd (lru_order (sindex st))" "''j'' \<notin> set (lru_order (sindex st))"
    unfolding st(3) tiny_count by simp_all
  have b: "length (body tiny_chunk) \<le> length (body (tiny_chunk\<lparr>body := ''xyz''\<rparr>))"
      "take (length (body tiny_chunk)) (body (tiny_chunk\<lparr>body := ''xyz''\<rparr>)) = ''xyz''" by (simp_all add: tiny_chunk_def)
  from torn_put_serves_wrong_bytes [OF tiny_ok(1,2) c(1) st(1) o st(2) b(1) c(2,3), unfolded b(2)]
  obtain st' where o: "store_open tiny_store (\<lambda>_. True) (sdisk (snd (store_put (\<lambda>_. 0) torn_env ''j'' (tiny_chunk\<lparr>body := ''xyz''\<rparr>) st))) = Inr st'"
      "fst (store_get (\<lambda>_. 0) io_good ''k'' st') = Some (Inr (Some (tiny_chunk\<lparr>body := ''xyz''\<rparr>)))"
    using that by (elim exE conjE)
  show ?thesis by (intro exI [of _ st] exI [of _ st'] conjI) (rule st(2), rule o(1), rule o(2))
qed

end
