(* ===== verification/Store_Race.thy ===== *)
theory Store_Race
  imports Store_Restart
begin

text \<open>
  Concurrent use of the chunk store. Only the index is behind a lock: \<open>get\<close>, \<open>put\<close> and \<open>remove\<close>
  take it for \<open>touch\<close>, \<open>claim\<close>, \<open>forget\<close> and \<open>remove\<close> and do their reads and writes outside, on
  the blocking pool. So a call is a sequence of atomic steps, each one
  lock section or one system call, and the steps of different calls interleave in any order. This
  theory cuts the calls of \<^verbatim>\<open>store.rs\<close> (shape \<^verbatim>\<open>TwoRead\<close>) at those points; no system call fails here.
  The ceiling on reads in flight is the subject of \<open>Store_Slots\<close>.
\<close>

section \<open>Calls as tasks\<close>

text \<open>What a call still has to do.\<close>

datatype store_task =
    ReadingHeader string nat
  | ReadingBody string nat slot_header nat
  | WritingBody nat slot_header bytes
  | WritingHeader nat bytes nat
  | Forgetting nat

datatype store_call = CallGet string | CallPut string cached_chunk | CallRemove string

text \<open>The part of a call up to its first system call.\<close>

fun start_call :: "(bytes \<Rightarrow> u32) \<Rightarrow> store_call \<Rightarrow> store \<Rightarrow> store_task option \<times> store" where
  "start_call crc32 (CallGet k) st = (case touch k (sindex st) of
      (None, ix) \<Rightarrow> (None, st\<lparr>sindex := ix, sstats := (sstats st)\<lparr>misses := misses (sstats st) + 1\<rparr>\<rparr>)
    | (Some s, ix) \<Rightarrow> (Some (ReadingHeader k s), st\<lparr>sindex := ix\<rparr>))"
| "start_call crc32 (CallPut k c) st =
     (if st_chunk_size (scfg st) < length (body c) then (None, st)
      else let h = put_header crc32 k c in
        case claim k (body_len h) (hdr_crc h) (sindex st) of
          (None, ix) \<Rightarrow> (None, st\<lparr>sindex := ix, sstats := (sstats st)\<lparr>write_dedups := write_dedups (sstats st) + 1\<rparr>\<rparr>)
        | (Some (s, evicted), ix) \<Rightarrow> (Some (WritingBody s h (body c)), st\<lparr>sindex := ix,
            sstats := (if evicted then (sstats st)\<lparr>evictions := evictions (sstats st) + 1\<rparr> else sstats st)\<rparr>))"
| "start_call crc32 (CallRemove k) st = (None, snd (store_remove k st))"

text \<open>One more step of a task; the last component is the chunk a \<open>get\<close> answers.\<close>

fun advance :: "(bytes \<Rightarrow> u32) \<Rightarrow> store_task \<Rightarrow> store \<Rightarrow> store_task option \<times> store \<times> (string \<times> cached_chunk) option" where
  "advance crc32 (ReadingHeader k s) st = (case read_header (scfg st) io_good s (sdisk st) (sstats st) of
      (None, stats) \<Rightarrow> (None, st\<lparr>sstats := stats\<lparr>io_errors := io_errors stats + 1\<rparr>\<rparr>, None)
    | (Some None, stats) \<Rightarrow> (Some (Forgetting s), st\<lparr>sstats := stats\<rparr>, None)
    | (Some (Some h), stats) \<Rightarrow> (case accept k h stats of
          (None, stats) \<Rightarrow> (Some (Forgetting s), st\<lparr>sstats := stats\<rparr>, None)
        | (Some len, stats) \<Rightarrow> (Some (ReadingBody k s h len), st\<lparr>sstats := stats\<rparr>, None)))"
| "advance crc32 (ReadingBody k s h len) st =
     (case read_body (scfg st) io_good s (min (align_up len) (st_chunk_size (scfg st))) (sdisk st) of
        None \<Rightarrow> (None, st\<lparr>sstats := (sstats st)\<lparr>io_errors := io_errors (sstats st) + 1\<rparr>\<rparr>, None)
      | Some bs \<Rightarrow> (case note_service 0 (verified crc32 (scfg st) h bs len (sstats st)) of
            (Served c, stats) \<Rightarrow> (None, st\<lparr>sstats := observe_read (of_nat (length (body c))) 0 (stats\<lparr>hits := hits stats + 1\<rparr>)\<rparr>, Some (k, c))
          | (Refused, stats) \<Rightarrow> (Some (Forgetting s), st\<lparr>sstats := stats\<rparr>, None)
          | (ReadFailed, stats) \<Rightarrow> (None, st\<lparr>sstats := stats\<lparr>io_errors := io_errors stats + 1\<rparr>\<rparr>, None)
          | (ReadPanic, stats) \<Rightarrow> (None, st\<lparr>sstats := stats\<rparr>, None)))"
| "advance crc32 (WritingBody s h bs) st = (let at = locate (scfg st) s in
     case write_to h (replicate SLOT_HEADER_BYTES (char_of (0 :: nat))) of
       Some (Inr page) \<Rightarrow> (Some (WritingHeader s page (length bs)), st\<lparr>sdisk := disk_put (sdisk st) (at_extent at) (body_at at) bs\<rparr>, None)
     | _ \<Rightarrow> (Some (Forgetting s), st\<lparr>sstats := (sstats st)\<lparr>io_errors := io_errors (sstats st) + 1\<rparr>\<rparr>, None))"
| "advance crc32 (WritingHeader s page n) st = (let at = locate (scfg st) s in
     (None, st\<lparr>sdisk := disk_put (sdisk st) (at_extent at) (header_at at) page,
        sstats := (sstats st)\<lparr>writes := writes (sstats st) + 1, written_bytes := written_bytes (sstats st) + of_nat n\<rparr>\<rparr>, None))"
| "advance crc32 (Forgetting s) st = (None, st\<lparr>sindex := forget s (sindex st)\<rparr>, None)"

section \<open>Interleavings\<close>

text \<open>A store with the calls in flight, the answers given and the puts begun so far.\<close>

record store_system =
  sys_store :: store
  sys_tasks :: "store_task list"
  sys_answers :: "(string \<times> cached_chunk) list"
  sys_begun :: "(string \<times> cached_chunk) list"

definition race_start :: "store \<Rightarrow> store_system" where
  "race_start st = \<lparr>sys_store = st, sys_tasks = [], sys_answers = [], sys_begun = []\<rparr>"

text \<open>The scheduler begins a call or advances the \<open>i\<close>-th call in flight.\<close>

datatype move = Begin store_call | Advance nat

fun begun :: "store_call \<Rightarrow> (string \<times> cached_chunk) list" where
  "begun (CallPut k c) = [(k, c)]"
| "begun _ = []"

definition opt_list :: "'a option \<Rightarrow> 'a list" where
  "opt_list x = (case x of None \<Rightarrow> [] | Some a \<Rightarrow> [a])"

fun sys_move :: "(bytes \<Rightarrow> u32) \<Rightarrow> move \<Rightarrow> store_system \<Rightarrow> store_system" where
  "sys_move crc32 (Begin call) sys = (let (t, st) = start_call crc32 call (sys_store sys) in
     sys\<lparr>sys_store := st, sys_tasks := sys_tasks sys @ opt_list t, sys_begun := begun call @ sys_begun sys\<rparr>)"
| "sys_move crc32 (Advance i) sys =
     (if i < length (sys_tasks sys) then
        let (t, st, a) = advance crc32 (sys_tasks sys ! i) (sys_store sys) in
        sys\<lparr>sys_store := st, sys_tasks := take i (sys_tasks sys) @ opt_list t @ drop (Suc i) (sys_tasks sys),
          sys_answers := opt_list a @ sys_answers sys\<rparr>
      else sys)"

fun move_ok :: "move \<Rightarrow> bool" where
  "move_ok (Begin (CallPut k c)) = put_args_ok k c"
| "move_ok _ = True"

section \<open>A call that runs alone\<close>

text \<open>No call has more than three steps after its first.\<close>

fun finish :: "(bytes \<Rightarrow> u32) \<Rightarrow> nat \<Rightarrow> store_task option \<times> store \<Rightarrow> store \<times> (string \<times> cached_chunk) option" where
  "finish crc32 (Suc n) (Some t, st) = (case advance crc32 t st of
      (t', st', Some a) \<Rightarrow> (st', Some a)
    | (t', st', None) \<Rightarrow> finish crc32 n (t', st'))"
| "finish crc32 n (t, st) = (st, None)"

lemma finish_none [simp]: "finish crc32 n (None, st) = (st, None)"
  by (cases n) simp_all

lemma finish_get:
  assumes "st_read_shape (scfg st) = TwoRead"
  shows "finish crc32 3 (start_call crc32 (CallGet k) st) =
    (snd (store_get crc32 io_good k st), case fst (store_get crc32 io_good k st) of Some (Inr (Some c)) \<Rightarrow> Some (k, c) | _ \<Rightarrow> None)"
proof -
  obtain o1 ix where t: "touch k (sindex st) = (o1, ix)" by fastforce
  show ?thesis
  proof (cases o1)
    case (Some s)
    obtain hd stats where r: "read_header (scfg st) io_good s (sdisk st) (sstats st) = (hd, stats)" by fastforce
    consider "hd = None" | "hd = Some None" | h where "hd = Some (Some h)" by (cases hd) auto
    then show ?thesis
    proof cases
      case (3 h)
      obtain len stats' where a: "accept k h stats = (len, stats')" by fastforce
      show ?thesis
      proof (cases len)
        case (Some n)
        show ?thesis
        proof (cases "read_body (scfg st) io_good s (min (align_up n) (st_chunk_size (scfg st))) (sdisk st)")
          case (Some bs)
          obtain v stats'' where v: "verified crc32 (scfg st) h bs n stats' = (v, stats'')" by fastforce
          show ?thesis using assms t \<open>o1 = Some s\<close> r 3 a \<open>len = Some n\<close> Some v
            by (cases v) (simp_all add: store_get_def read_slot_def note_service_def numeral_3_eq_3 io_good_def)
        qed (use assms t \<open>o1 = Some s\<close> r 3 a Some in \<open>simp add: store_get_def read_slot_def numeral_3_eq_3\<close>)
      qed (use assms t Some r 3 a in \<open>simp add: store_get_def read_slot_def numeral_3_eq_3\<close>)
    qed (use assms t Some r in \<open>simp_all add: store_get_def read_slot_def numeral_3_eq_3\<close>)
  qed (simp add: store_get_def t)
qed

lemma finish_put: "finish crc32 3 (start_call crc32 (CallPut k c) st) = (snd (store_put crc32 io_good k c st), None)"
proof (cases "st_chunk_size (scfg st) < length (body c)")
  case False
  let ?h = "put_header crc32 k c"
  obtain o1 ix where cl: "claim k (body_len ?h) (hdr_crc ?h) (sindex st) = (o1, ix)" by fastforce
  show ?thesis
  proof (cases o1)
    case (Some a)
    obtain s ev where a: "a = (s, ev)" by fastforce
    let ?w = "write_to ?h (replicate SLOT_HEADER_BYTES (char_of (0 :: nat)))"
    consider "?w = None" | e where "?w = Some (Inl e)" | page where "?w = Some (Inr page)" by (metis option.exhaust sum.exhaust)
    then show ?thesis
      by cases (use False cl Some a in \<open>simp_all add: store_put_def write_slot_def Let_def numeral_3_eq_3 io_good_def del: locate_sel\<close>)
  qed (use False cl in \<open>simp add: store_put_def Let_def\<close>)
qed (simp add: store_put_def)

section \<open>Calls finish\<close>

text \<open>The steps a task has left, at most.\<close>

fun steps_left :: "store_task \<Rightarrow> nat" where
  "steps_left (ReadingHeader k s) = 3"
| "steps_left (ReadingBody k s h len) = 2"
| "steps_left (WritingBody s h bs) = 2"
| "steps_left (WritingHeader s page n) = 1"
| "steps_left (Forgetting s) = 1"

lemma advance_steps: "fst (advance crc32 t st) = Some t' \<Longrightarrow> steps_left t' < steps_left t"
  by (cases t) (auto simp: Let_def note_service_def split: prod.splits option.splits sum.splits if_splits read_result.splits)

lemma start_steps: "fst (start_call crc32 call st) = Some t \<Longrightarrow> steps_left t \<le> 3"
  by (cases call) (auto simp: Let_def split: prod.splits option.splits if_splits)

lemma steps_left_pos: "0 < steps_left t"
  by (cases t) auto

text \<open>Scheduling one call to its end is \<open>finish\<close>.\<close>

lemma advance_answers_last: "advance crc32 t st = (t', st', Some a) \<Longrightarrow> t' = None"
  by (cases t) (auto simp: Let_def note_service_def split: prod.splits option.splits sum.splits if_splits read_result.splits)

lemma advance_alone:
  assumes "\<And>x. t = Some x \<Longrightarrow> steps_left x \<le> n"
  shows "fold (sys_move crc32) (replicate n (Advance 0)) (sys\<lparr>sys_store := st, sys_tasks := opt_list t\<rparr>) =
    sys\<lparr>sys_store := fst (finish crc32 n (t, st)), sys_tasks := [], sys_answers := opt_list (snd (finish crc32 n (t, st))) @ sys_answers sys\<rparr>"
  using assms
proof (induction n arbitrary: t st sys)
  case 0
  then have "t = None" using steps_left_pos by (metis not_None_eq not_less)
  then show ?case by (simp add: opt_list_def)
next
  case (Suc n)
  note none = Suc.IH [of None]
  show ?case
  proof (cases t)
    case None
    then show ?thesis using none [of st sys] by (simp add: opt_list_def)
  next
    case (Some x)
    obtain t' st' a where s: "advance crc32 x st = (t', st', a)" by (metis prod_cases3)
    have le: "\<And>y. t' = Some y \<Longrightarrow> steps_left y \<le> n" using advance_steps [of crc32 x st] s Suc.prems Some by fastforce
    show ?thesis
    proof (cases a)
      case None
      then show ?thesis using Suc.IH [of t' st' sys, OF le] Some s by (simp add: opt_list_def)
    next
      case (Some b)
      then have "t' = None" using s advance_answers_last by blast
      then show ?thesis using none [of st' "sys\<lparr>sys_answers := b # sys_answers sys\<rparr>"] \<open>t = Some x\<close> Some s by (cases sys) (simp add: opt_list_def)
    qed
  qed
qed

definition alone :: "store_call \<Rightarrow> move list" where
  "alone call = Begin call # replicate 3 (Advance 0)"

lemma run_alone:
  assumes "sys_tasks sys = []"
  shows "fold (sys_move crc32) (alone call) sys =
    (let (st, a) = finish crc32 3 (start_call crc32 call (sys_store sys)) in
     sys\<lparr>sys_store := st, sys_tasks := [], sys_answers := opt_list a @ sys_answers sys, sys_begun := begun call @ sys_begun sys\<rparr>)"
proof -
  obtain t st where s: "start_call crc32 call (sys_store sys) = (t, st)" by fastforce
  have "\<And>x. t = Some x \<Longrightarrow> steps_left x \<le> 3" using start_steps [of crc32 call "sys_store sys"] s by auto
  note a = advance_alone [of t 3 crc32 st "sys\<lparr>sys_begun := begun call @ sys_begun sys\<rparr>", OF this]
  show ?thesis using assms a s by (cases sys) (simp add: alone_def split: prod.splits)
qed

section \<open>What holds in every interleaving\<close>

text \<open>Every header, on disk or in flight, is the header of a put that was begun.\<close>

definition known :: "(bytes \<Rightarrow> u32) \<Rightarrow> (string \<times> cached_chunk) list \<Rightarrow> slot_header \<Rightarrow> bool" where
  "known crc32 puts h \<longleftrightarrow> (\<exists>(k, c) \<in> set puts. h = put_header crc32 k (read_back c) \<and> length (body c) < 2 ^ 32)"

fun task_known :: "(bytes \<Rightarrow> u32) \<Rightarrow> store_config \<Rightarrow> (string \<times> cached_chunk) list \<Rightarrow> store_task \<Rightarrow> bool" where
  "task_known crc32 cfg puts (ReadingBody k s h len) \<longleftrightarrow> known crc32 puts h \<and> hdr_key h = k \<and> len = unat (body_len h)"
| "task_known crc32 cfg puts (WritingBody s h bs) \<longleftrightarrow>
     (\<exists>(k, c) \<in> set puts. h = put_header crc32 k c \<and> bs = body c \<and> put_args_ok k c \<and> length bs \<le> st_chunk_size cfg)"
| "task_known crc32 cfg puts (WritingHeader s page n) \<longleftrightarrow> length page = SLOT_HEADER_BYTES \<and>
     (\<exists>h. slot_parse page (st_chunk_size cfg) = Some (Inr h) \<and> known crc32 puts h)"
| "task_known crc32 cfg puts _ \<longleftrightarrow> True"

definition answer_known :: "(bytes \<Rightarrow> u32) \<Rightarrow> (string \<times> cached_chunk) list \<Rightarrow> string \<times> cached_chunk \<Rightarrow> bool" where
  "answer_known crc32 puts a \<longleftrightarrow> (\<exists>c. (fst a, c) \<in> set puts \<and> length (body (snd a)) = length (body c)
     \<and> crc32 (body (snd a)) = crc32 (body c) \<and> e_tag (snd a) = e_tag (read_back c))"

definition race_inv :: "(bytes \<Rightarrow> u32) \<Rightarrow> store_system \<Rightarrow> bool" where
  "race_inv crc32 sys \<longleftrightarrow> (let cfg = scfg (sys_store sys) in verify_body cfg \<and> st_chunk_size cfg < 2 ^ 32
     \<and> (\<forall>s h. slot_head cfg (sdisk (sys_store sys)) s = Some h \<longrightarrow> known crc32 (sys_begun sys) h)
     \<and> (\<forall>t \<in> set (sys_tasks sys). task_known crc32 cfg (sys_begun sys) t)
     \<and> (\<forall>a \<in> set (sys_answers sys). answer_known crc32 (sys_begun sys) a))"

lemma known_mono: "known crc32 puts h \<Longrightarrow> known crc32 (new @ puts) h"
  by (auto simp: known_def)

lemma task_known_mono: "task_known crc32 cfg puts t \<Longrightarrow> task_known crc32 cfg (new @ puts) t"
  by (cases t) (auto intro: known_mono)

lemma answer_known_mono: "answer_known crc32 puts a \<Longrightarrow> answer_known crc32 (new @ puts) a"
  by (auto simp: answer_known_def)

lemma read_header_head: "fst (read_header cfg env s d stats) = Some (Some h) \<Longrightarrow> slot_head cfg d s = Some h"
  by (auto simp: read_header_def Let_def read_exact_at_def slot_head_def slot_page_def simp del: locate_sel
      split: if_splits option.splits sum.splits slot_state.splits)

lemma header_of_put:
  assumes "put_args_ok k c" "length (body c) \<le> st_chunk_size cfg" "st_chunk_size cfg < 2 ^ 32"
    and "write_to (put_header crc32 k c) (replicate SLOT_HEADER_BYTES (char_of (0 :: nat))) = Some (Inr page)"
  shows "length page = SLOT_HEADER_BYTES" and "slot_parse page (st_chunk_size cfg) = Some (Inr (put_header crc32 k (read_back c)))"
proof -
  let ?h = "put_header crc32 k (read_back c)"
  show "length page = SLOT_HEADER_BYTES" by (rule write_to_page(1) [OF assms(4)])
  have e: "slot_etag_bytes ?h = slot_etag_bytes (put_header crc32 k c)" "hdr_key ?h = hdr_key (put_header crc32 k c)"
      "body_len ?h = body_len (put_header crc32 k c)" "hdr_crc ?h = hdr_crc (put_header crc32 k c)"
    by (simp_all add: slot_etag_bytes_def put_header_def read_back_def)
  have w: "write_to ?h (replicate SLOT_HEADER_BYTES (char_of (0 :: nat))) = Some (Inr page)"
    using assms(4) unfolding write_to_def e .
  have "header_ok (st_chunk_size cfg) ?h"
    using assms(1-3) write_to_page(2) [OF w]
    by (auto simp: header_ok_def header_fits_def put_args_ok_def put_header_def slot_etag_bytes_def read_back_def unat_of_nat
        split: option.splits if_splits)
  from write_then_parse [OF this, of "replicate SLOT_HEADER_BYTES (char_of (0 :: nat))" "[]"]
  show "slot_parse page (st_chunk_size cfg) = Some (Inr ?h)" using w by auto
qed

lemma start_frame:
  assumes "start_call crc32 call st = (t, st')"
  shows "scfg st' = scfg st" and "sdisk st' = sdisk st"
  using assms by (cases call; auto simp: Let_def store_remove_def split: prod.splits option.splits if_splits)+

lemma start_known:
  assumes "start_call crc32 call st = (Some t, st')" "move_ok (Begin call)"
  shows "task_known crc32 (scfg st) (begun call @ puts) t"
  using assms by (cases call) (auto simp: Let_def split: prod.splits option.splits if_splits)

lemma begin_inv:
  assumes "race_inv crc32 sys" "move_ok (Begin call)"
  shows "race_inv crc32 (sys_move crc32 (Begin call) sys)"
proof -
  obtain t st where s: "start_call crc32 call (sys_store sys) = (t, st)" by fastforce
  have "task_known crc32 (scfg (sys_store sys)) (begun call @ sys_begun sys) x" if "x \<in> set (opt_list t)" for x
    using that s start_known [OF _ assms(2)] by (auto simp: opt_list_def split: option.splits)
  then show ?thesis
    using assms(1) start_frame [OF s] known_mono task_known_mono answer_known_mono
    by (auto simp: race_inv_def s Let_def)
qed

text \<open>What a task may write, and what it may answer.\<close>

lemma put_body_heads:
  "slot_head cfg (disk_put d (at_extent (locate cfg s)) (body_at (locate cfg s)) bs) s' = slot_head cfg d s'"
  unfolding slot_head_def slot_page_def by (simp add: disk_bytes_frame [OF header_body_apart(2)] del: locate_sel)

lemma put_page_heads:
  assumes "length page = SLOT_HEADER_BYTES"
  shows "slot_head cfg (disk_put d (at_extent (locate cfg s)) (header_at (locate cfg s)) page) s' =
    (if s' = s then (case slot_parse page (st_chunk_size cfg) of Some (Inr h) \<Rightarrow> Some h | _ \<Rightarrow> None) else slot_head cfg d s')"
proof (cases "s' = s")
  case True
  then show ?thesis
    using disk_bytes_put [of d "at_extent (locate cfg s)" "header_at (locate cfg s)" page] assms
    by (simp add: slot_head_def slot_page_def del: locate_sel)
next
  case False
  then show ?thesis
    using disk_bytes_frame [OF headers_apart [OF not_sym [OF False], of cfg, folded assms], of d] assms
    by (simp add: slot_head_def slot_page_def del: locate_sel)
qed

lemma advance_frame: "advance crc32 t st = (t', st', a) \<Longrightarrow> scfg st' = scfg st"
  by (cases t) (auto simp: Let_def split: prod.splits option.splits if_splits read_result.splits sum.splits)

lemma advance_heads:
  assumes "advance crc32 t st = (t', st', a)" "task_known crc32 (scfg st) puts t"
    and "\<And>s h. slot_head (scfg st) (sdisk st) s = Some h \<Longrightarrow> known crc32 puts h"
    and "slot_head (scfg st) (sdisk st') s = Some h"
  shows "known crc32 puts h"
proof (cases t)
  case (WritingBody x y z)
  then have "slot_head (scfg st) (sdisk st') s = slot_head (scfg st) (sdisk st) s"
    using assms(1) by (auto simp: Let_def put_body_heads simp del: locate_sel split: option.splits sum.splits)
  then show ?thesis using assms(3,4) by simp
next
  case (WritingHeader x page n)
  then show ?thesis
    using assms by (auto simp: Let_def put_page_heads simp del: locate_sel split: if_splits)
qed (use assms in \<open>auto simp: Let_def split: prod.splits option.splits if_splits read_result.splits sum.splits\<close>)

lemma verified_answer:
  assumes "verified crc32 cfg h bs (unat (body_len h)) stats = (Served c, stats')" "verify_body cfg" "known crc32 puts h"
  shows "answer_known crc32 puts (hdr_key h, c)"
proof -
  obtain k x where x: "(k, x) \<in> set puts" "h = put_header crc32 k (read_back x)" "length (body x) < 2 ^ 32"
    using assms(3) by (auto simp: known_def)
  have c: "crc32 (body c) = hdr_crc h" "length (body c) = unat (body_len h)" "e_tag c = hdr_e_tag h"
    using assms(1,2) by (auto simp: verified_def bytes_slice_def split: option.splits if_splits)
  then show ?thesis using x by (auto simp: answer_known_def put_header_def read_back_def unat_of_nat)
qed

lemma advance_known:
  assumes "advance crc32 t st = (t', st', a)" "task_known crc32 (scfg st) puts t" "verify_body (scfg st)" "st_chunk_size (scfg st) < 2 ^ 32"
    and "\<And>s h. slot_head (scfg st) (sdisk st) s = Some h \<Longrightarrow> known crc32 puts h"
  shows "t' = Some u \<Longrightarrow> task_known crc32 (scfg st) puts u" and "a = Some b \<Longrightarrow> answer_known crc32 puts b"
proof -
  show "task_known crc32 (scfg st) puts u" if "t' = Some u"
  proof (cases t)
    case (ReadingHeader k s)
    then show ?thesis
      using assms(1,5) that read_header_head [of "scfg st" io_good s "sdisk st" "sstats st"]
      by (auto simp: accept_def split: prod.splits option.splits if_splits)
  next
    case (WritingBody s h bs)
    then obtain k c where c: "(k, c) \<in> set puts" "h = put_header crc32 k c" "bs = body c" "put_args_ok k c" "length bs \<le> st_chunk_size (scfg st)"
      using assms(2) by auto
    show ?thesis
    proof (cases "\<exists>page. write_to h (replicate SLOT_HEADER_BYTES (char_of (0 :: nat))) = Some (Inr page)")
      case True
      then obtain page where p: "write_to h (replicate SLOT_HEADER_BYTES (char_of (0 :: nat))) = Some (Inr page)" by blast
      have "known crc32 puts (put_header crc32 k (read_back c))"
        unfolding known_def by (rule bexI [OF _ c(1)]) (use c(3,5) assms(4) in simp)
      moreover have "u = WritingHeader s page (length bs)" using assms(1) that WritingBody p by (auto simp: Let_def)
      ultimately show ?thesis using header_of_put [OF c(4) _ assms(4) p [unfolded c(2)]] c(3,5) by simp
    next
      case False
      then have "u = Forgetting s" using assms(1) that WritingBody by (auto simp: Let_def split: option.splits sum.splits)
      then show ?thesis by simp
    qed
  qed (use assms(1) that in \<open>auto simp: Let_def split: prod.splits option.splits if_splits read_result.splits\<close>)
  show "answer_known crc32 puts b" if ab: "a = Some b"
  proof (cases t)
    case (ReadingBody k s h len)
    then obtain bs where bs: "read_body (scfg st) io_good s (min (align_up len) (st_chunk_size (scfg st))) (sdisk st) = Some bs"
      using assms(1) ab by (auto split: option.splits)
    obtain r stats where v: "verified crc32 (scfg st) h bs len (sstats st) = (r, stats)" by fastforce
    then obtain c where "r = Served c" "b = (k, c)"
      using assms(1) ab ReadingBody bs by (cases r) (auto simp: note_service_def)
    then show ?thesis using verified_answer [of crc32 "scfg st" h bs "sstats st" c stats puts] v assms(2,3) ReadingBody by auto
  qed (use assms(1) ab in \<open>auto simp: Let_def split: prod.splits option.splits if_splits sum.splits\<close>)
qed

lemma advance_inv:
  assumes "race_inv crc32 sys"
  shows "race_inv crc32 (sys_move crc32 (Advance i) sys)"
proof (cases "i < length (sys_tasks sys)")
  case True
  let ?st = "sys_store sys" and ?t = "sys_tasks sys ! i" and ?puts = "sys_begun sys"
  obtain t' st' a where s: "advance crc32 ?t ?st = (t', st', a)" by (metis prod_cases3)
  have inv: "verify_body (scfg ?st)" "st_chunk_size (scfg ?st) < 2 ^ 32"
      "\<And>s h. slot_head (scfg ?st) (sdisk ?st) s = Some h \<Longrightarrow> known crc32 ?puts h"
      "task_known crc32 (scfg ?st) ?puts ?t"
    using assms True by (auto simp: race_inv_def Let_def)
  note n = advance_known [OF s inv(4,1,2,3)] and f = advance_frame [OF s] and h = advance_heads [OF s inv(4,3)]
  have "\<forall>x \<in> set (take i (sys_tasks sys) @ opt_list t' @ drop (Suc i) (sys_tasks sys)). task_known crc32 (scfg ?st) ?puts x"
    using assms n(1) by (auto simp: race_inv_def Let_def opt_list_def dest: in_set_takeD in_set_dropD split: option.splits)
  moreover have "\<forall>x \<in> set (opt_list a @ sys_answers sys). answer_known crc32 ?puts x"
    using assms n(2) by (auto simp: race_inv_def Let_def opt_list_def split: option.splits)
  ultimately show ?thesis using True inv(1,2) f h by (simp add: s race_inv_def)
qed (use assms in simp)

lemma run_inv:
  assumes "race_inv crc32 sys" "\<forall>m \<in> set moves. move_ok m"
  shows "race_inv crc32 (fold (sys_move crc32) moves sys)"
  using assms
proof (induction moves arbitrary: sys)
  case (Cons m moves)
  then have "race_inv crc32 (sys_move crc32 m sys)" by (cases m) (simp_all only: begin_inv advance_inv list.set_intros)
  then show ?case using Cons by simp
qed simp

lemma opened_inv:
  assumes "store_cfg_ok cfg" "st_chunk_size cfg < 2 ^ 32" "verify_body cfg" "store_open cfg (\<lambda>_. True) blank_disk = Inr st"
  shows "race_inv crc32 (race_start st)"
proof -
  have "scfg st = cfg" by (rule open_blank(4) [OF assms(1,4) TrueI])
  moreover have "sdisk st = blank_disk" using assms(4) by (auto simp: store_open_def split: if_splits option.splits)
  ultimately show ?thesis using assms(2,3) by (simp add: race_inv_def race_start_def blank_head)
qed

text \<open>A put counts as begun only through its own move.\<close>

lemma begun_call: "(k, c) \<in> set (begun call) \<longleftrightarrow> call = CallPut k c"
  by (cases call) auto

lemma begun_moves:
  "(k, c) \<in> set (sys_begun (fold (sys_move crc32) moves sys)) \<Longrightarrow> Begin (CallPut k c) \<in> set moves \<or> (k, c) \<in> set (sys_begun sys)"
proof (induction moves arbitrary: sys)
  case (Cons m moves)
  have "sys_begun (sys_move crc32 m sys) = (case m of Begin call \<Rightarrow> begun call @ sys_begun sys | Advance _ \<Rightarrow> sys_begun sys)"
    by (cases m) (auto simp: Let_def split: prod.splits)
  then have "(k, c) \<in> set (sys_begun (sys_move crc32 m sys)) \<Longrightarrow> m = Begin (CallPut k c) \<or> (k, c) \<in> set (sys_begun sys)"
    using begun_call [of k c] by (auto split: move.splits)
  then show ?case using Cons.IH [of "sys_move crc32 m sys"] Cons.prems by auto
qed simp

section \<open>Properties of interleavings\<close>

text \<open>
  Cutting \<open>get\<close> and \<open>put\<close> into steps
  changes nothing when the steps run back to back; they leave the same store, counters included, and give the same answer.
\<close>

lemma uninterrupted_calls_sequential:
  "(st_read_shape (scfg st) = TwoRead \<longrightarrow> finish crc32 3 (start_call crc32 (CallGet k) st) =
      (snd (store_get crc32 io_good k st), case fst (store_get crc32 io_good k st) of Some (Inr (Some c)) \<Rightarrow> Some (k, c) | _ \<Rightarrow> None))
   \<and> finish crc32 3 (start_call crc32 (CallPut k c) st) = (snd (store_put crc32 io_good k c st), None)"
  using finish_get finish_put by blast

lemma uninterrupted_calls_sequential_example:
  "\<exists>st. finish (\<lambda>_. 0) 3 (start_call (\<lambda>_. 0) (CallGet ''k'') st) = (snd (store_get (\<lambda>_. 0) io_good ''k'' st), Some (''k'', tiny_chunk))"
proof -
  obtain st where st: "filled (\<lambda>_. 0) tiny_store st" "fst (store_get (\<lambda>_. 0) io_good ''k'' st) = Some (Inr (Some tiny_chunk))"
    by (rule tiny_filled [of "\<lambda>_. 0"], rule that)
  have "st_read_shape (scfg st) = TwoRead" using filled_agrees [OF st(1) tiny_ok(1,2)] by (simp add: tiny_store_def)
  then show ?thesis using uninterrupted_calls_sequential [of st "\<lambda>_. 0" "''k''" tiny_chunk] st(2) by auto
qed

definition checked_store :: store_config where
  "checked_store = tiny_store\<lparr>verify_body := True\<rparr>"

lemma checked_ok: "store_cfg_ok checked_store" "st_chunk_size checked_store < 2 ^ 32" "verify_body checked_store"
  by (simp_all add: store_cfg_ok_def checked_store_def tiny_store_def DIRECT_IO_ALIGN_def slot_count_def slot_bytes_def SLOT_HEADER_BYTES_def)

text \<open>
  C10 (with the body check on, no interleaving serves foreign bytes unless CRCs collide): begin with a
  store opened on fresh files with \<open>verify_body\<close> set and interleave any calls in any way. Every chunk
  a \<open>get\<close> of key \<open>k\<close> answers has the length, the entity tag and the CRC of a chunk that was
  put under \<open>k\<close>.
\<close>

theorem checked_reads_match_a_put:
  assumes "store_cfg_ok cfg" "st_chunk_size cfg < 2 ^ 32" "verify_body cfg" "store_open cfg (\<lambda>_. True) blank_disk = Inr st"
    and "\<forall>m \<in> set moves. move_ok m" "(k, c) \<in> set (sys_answers (fold (sys_move crc32) moves (race_start st)))"
  shows "\<exists>c'. Begin (CallPut k c') \<in> set moves \<and> length (body c) = length (body c') \<and> crc32 (body c) = crc32 (body c')
    \<and> e_tag c = e_tag (read_back c')"
proof -
  let ?sys = "fold (sys_move crc32) moves (race_start st)"
  have "answer_known crc32 (sys_begun ?sys) (k, c)"
    using run_inv [OF opened_inv [OF assms(1-4)] assms(5)] assms(6) by (auto simp: race_inv_def Let_def)
  moreover have "(k, c') \<in> set (sys_begun ?sys) \<Longrightarrow> Begin (CallPut k c') \<in> set moves" for c'
    using begun_moves [of k c' crc32 moves "race_start st"] by (auto simp: race_start_def)
  ultimately show ?thesis by (auto simp: answer_known_def)
qed

theorem checked_reads_match_a_put_witness:
  "\<exists>st. sys_answers (fold (sys_move (\<lambda>_. 0)) (alone (CallPut ''k'' tiny_chunk) @ alone (CallGet ''k'')) (race_start st)) = [(''k'', tiny_chunk)]
     \<and> (\<exists>c'. Begin (CallPut ''k'' c') \<in> set (alone (CallPut ''k'' tiny_chunk) @ alone (CallGet ''k'')) \<and> e_tag tiny_chunk = e_tag (read_back c'))"
proof -
  let ?moves = "alone (CallPut ''k'' tiny_chunk) @ alone (CallGet ''k'')" and ?c = "\<lambda>_ :: bytes. 0 :: u32"
  obtain st where o: "store_open checked_store (\<lambda>_. True) blank_disk = Inr st" by (rule open_works [OF checked_ok(1)], rule that)
  note b = open_blank [OF checked_ok(1) o TrueI]
  let ?st = "snd (store_put ?c io_good ''k'' tiny_chunk st)"
  have z: "length (body tiny_chunk) \<le> st_chunk_size (scfg st)" "st_chunk_size (scfg st) < 2 ^ 32" "st_read_shape (scfg ?st) = TwoRead"
    unfolding b(4) scfg_put by (simp_all add: tiny_chunk_def checked_store_def tiny_store_def)
  have w: "fst (store_put ?c io_good ''k'' tiny_chunk st) = None"
    by (rule put_works [OF b(1) z(1) tiny_fits]) (simp_all add: io_good_def)
  have "contents ?st ''k'' = Some tiny_chunk"
    using put_correct(4) [OF b(1) tiny_ok(3) z(2), of ?c io_good, OF z(1) b(3)] w by (simp add: read_back_def tiny_chunk_def)
  then have g: "fst (store_get ?c io_good ''k'' ?st) = Some (Inr (Some tiny_chunk))"
    using get_correct(4) [OF put_correct(1) [OF b(1) tiny_ok(3) z(2)], of ?c io_good "''k''"] by (simp add: io_good_def)
  have a: "sys_answers (fold (sys_move ?c) ?moves (race_start st)) = [(''k'', tiny_chunk)]"
    using finish_get [OF z(3), of ?c "''k''"] finish_put [of ?c "''k''" tiny_chunk st] g
    by (simp add: run_alone race_start_def opt_list_def)
  have "\<forall>m \<in> set ?moves. move_ok m" using tiny_ok(3) by (simp add: alone_def)
  from checked_reads_match_a_put [OF checked_ok o this, of "''k''" tiny_chunk ?c] a show ?thesis by auto
qed

section \<open>The race between a read and a refill\<close>

text \<open>The slot an invalidation frees is the next one handed out.\<close>

lemma freed_slot_reused:
  assumes "index_ok ix" "map_of (imap ix) k1 = Some s" "map_of (imap ix) k2 = None"
  shows "index_remove k1 ix = (True, forget s ix)"
    and "fst (claim k2 blen bcrc (forget s ix)) = Some (s, False)"
proof -
  show "index_remove k1 ix = (True, forget s ix)" using assms(2) by (simp add: index_remove_def)
  obtain xs where xs: "index_rep ix xs" using assms(1) index_ok_rep by blast
  have s: "s < length (islots ix)" "slot_keys ix ! s = Some k1" using index_ok_map [OF assms(1)] assms(2) by auto
  then have "s \<in> set xs" using xs by (auto simp: index_rep_def)
  then obtain ix' where "index_evict s ix = (True, ix')" using evict_parts [OF xs] by metis
  then have f: "ifree (forget s ix) = ifree ix' @ [s]" by (simp add: forget_def)
  have "map_of (imap (forget s ix)) k2 = None" using forget_slot [OF assms(1) s(1), of k2] assms(3) by simp
  then show "fst (claim k2 blen bcrc (forget s ix)) = Some (s, False)" by (simp add: claim_def f Let_def)
qed

definition refill_race :: "string \<Rightarrow> string \<Rightarrow> cached_chunk \<Rightarrow> move list" where
  "refill_race k1 k2 c2 =
     [Begin (CallGet k1), Advance 0, Begin (CallRemove k1), Begin (CallPut k2 c2), Advance 1, Advance 0]"

text \<open>What the two system calls of the read see: the old header, then the new body.\<close>

lemma stale_read:
  assumes "s < slot_count cfg" "slot_head cfg d s = Some h" "\<not> verify_body cfg" "unat (body_len h) \<le> length bs"
  defines "d' \<equiv> disk_put d (at_extent (locate cfg s)) (body_at (locate cfg s)) bs"
    and "n \<equiv> min (align_up (unat (body_len h))) (st_chunk_size cfg)"
  shows "read_header cfg io_good s d stats = (Some (Some h), stats)"
    and "read_body cfg io_good s n d' = Some (slot_body cfg d' s n)"
    and "verified crc32 cfg h (slot_body cfg d' s n) (unat (body_len h)) stats =
      (Served \<lparr>body = take (unat (body_len h)) bs, e_tag = hdr_e_tag h\<rparr>, stats)"
proof -
  let ?len = "unat (body_len h)" and ?at = "locate cfg s"
  have z: "?len \<le> st_chunk_size cfg" by (rule slot_head_len [OF assms(2)])
  show "read_header cfg io_good s d stats = (Some (Some h), stats)"
    using read_header_eq [OF assms(1)] assms(2) by (simp add: prod_eq_iff io_good_def)
  show "read_body cfg io_good s n d' = Some (slot_body cfg d' s n)"
    using read_body_eq [OF assms(1), of n io_good d'] by (simp add: io_good_def n_def)
  have "slot_body cfg d' s ?len = take ?len bs"
    using assms(4) disk_bytes_put [of d "at_extent ?at" "body_at ?at" bs] unfolding slot_body_def d'_def by (metis take_disk_bytes)
  then show "verified crc32 cfg h (slot_body cfg d' s n) ?len stats = (Served \<lparr>body = take ?len bs, e_tag = hdr_e_tag h\<rparr>, stats)"
    using assms(3) z align_up_ge [of ?len] by (simp add: verified_def bytes_slice_def slot_body_def take_disk_bytes n_def)
qed

text \<open>
  C16 (a read that races a refill of its slot serves another key's bytes): with the body check off,
  a \<open>get\<close> of \<open>k1\<close> reads and accepts the header; \<open>k1\<close> is invalidated; a \<open>put\<close> of
  \<open>k2\<close> takes the freed slot and writes its body; the \<open>get\<close> then reads that body and answers it
  as \<open>k1\<close>. No system call fails and the header check passed.
\<close>

theorem refill_race_serves_wrong_bytes:
  assumes "store_cfg_ok cfg" "st_chunk_size cfg < 2 ^ 32" "\<not> verify_body cfg" "filled crc32 cfg st"
    and "fst (store_get crc32 io_good k1 st) = Some (Inr (Some c1))" "fst (store_get crc32 io_good k2 st) = Some (Inr None)"
    and "length (body c1) \<le> length (body c2)" "length (body c2) \<le> st_chunk_size cfg" "header_fits (put_header crc32 k2 c2)"
  shows "sys_answers (fold (sys_move crc32) (refill_race k1 k2 c2) (race_start st)) =
    [(k1, c1\<lparr>body := take (length (body c1)) (body c2)\<rparr>)]"
proof -
  have st: "scfg st = cfg" "store_ok crc32 st" using filled_agrees [OF assms(4,1,2)] by auto
  have ok: "index_ok (sindex st)" using st(2) by (simp add: store_ok_def)
  have c: "contents st k1 = Some c1" "contents st k2 = None"
    using get_correct(4) [OF st(2), of io_good k1] get_correct(4) [OF st(2), of io_good k2] assms(5,6) by (auto simp: io_good_def)
  obtain s where s: "map_of (imap (sindex st)) k1 = Some s" "slot_chunk cfg (sdisk st) s = Some c1"
    using c(1) st(1) by (auto simp: contents_def bind_eq_Some_conv)
  have k2: "map_of (imap (sindex st)) k2 = None" using contents_held [OF st(2), of k2] c(2) by blast
  have sn: "s < slot_count cfg" using store_ok_slot(1) [OF st(2) s(1)] st(1) by simp
  obtain h where h: "slot_head cfg (sdisk st) s = Some h" "hdr_key h = k1"
      "c1 = \<lparr>body = slot_body cfg (sdisk st) s (unat (body_len h)), e_tag = hdr_e_tag h\<rparr>"
    using slot_good_head [OF store_ok_slot(2) [OF st(2) s(1)]] s(2) st(1) by (auto simp: slot_chunk_def)
  obtain ix where t: "touch k1 (sindex st) = (Some s, ix)" using s(1) by (simp add: touch_def)
  have ix: "index_ok ix" "imap ix = imap (sindex st)"
    using touch_ok [OF ok, of k1] same_keys_map [OF touch_same_keys [OF ok, of k1]] t by auto
  note f = freed_slot_reused [OF ix(1), unfolded ix(2), OF s(1) k2]
  obtain ix2 where cl: "claim k2 (body_len (put_header crc32 k2 c2)) (hdr_crc (put_header crc32 k2 c2)) (forget s ix) = (Some (s, False), ix2)"
    using f(2) by (metis prod.collapse)
  obtain page where w: "write_to (put_header crc32 k2 c2) (replicate SLOT_HEADER_BYTES (char_of (0 :: nat))) = Some (Inr page)"
    using write_to_layout [OF _ assms(9), of "replicate SLOT_HEADER_BYTES (char_of (0 :: nat))"] by auto
  have len: "unat (body_len h) = length (body c1)" using h(3) by (simp add: slot_body_def)
  have fits: "unat (body_len h) \<le> length (body c2)" using len assms(7) by simp
  note r = stale_read [OF sn h(1) assms(3) fits]
  have "accept k1 h stats = (Some (unat (body_len h)), stats)" for stats using h(2) by (simp add: accept_def)
  then have "sys_answers (fold (sys_move crc32) (refill_race k1 k2 c2) (race_start st)) =
      [(k1, \<lparr>body = take (unat (body_len h)) (body c2), e_tag = hdr_e_tag h\<rparr>)]"
    using assms(8) st(1)
    by (simp add: refill_race_def race_start_def t r store_remove_def f(1) cl w opt_list_def Let_def note_service_def del: locate_sel)
  then show ?thesis unfolding len using h(3) by (cases c1) simp
qed

theorem refill_race_serves_wrong_bytes_witness:
  "\<exists>st. fst (store_get (\<lambda>_. 0) io_good ''k'' st) = Some (Inr (Some tiny_chunk)) \<and>
     sys_answers (fold (sys_move (\<lambda>_. 0)) (refill_race ''k'' ''j'' (tiny_chunk\<lparr>body := ''xyz''\<rparr>)) (race_start st)) =
       [(''k'', tiny_chunk\<lparr>body := ''xyz''\<rparr>)]"
proof -
  let ?c = "\<lambda>_ :: bytes. 0 :: u32"
  obtain st where st: "filled ?c tiny_store st" "fst (store_get ?c io_good ''k'' st) = Some (Inr (Some tiny_chunk))"
      "lru_order (sindex st) = [''k'']"
    by (rule tiny_filled [of ?c], rule that)
  have c: "\<not> verify_body tiny_store" "length (body (tiny_chunk\<lparr>body := ''xyz''\<rparr>)) \<le> st_chunk_size tiny_store"
      "header_fits (put_header ?c ''j'' (tiny_chunk\<lparr>body := ''xyz''\<rparr>))"
      "length (body tiny_chunk) \<le> length (body (tiny_chunk\<lparr>body := ''xyz''\<rparr>))"
      "take (length (body tiny_chunk)) (body (tiny_chunk\<lparr>body := ''xyz''\<rparr>)) = ''xyz''"
    by (simp_all add: tiny_store_def header_fits_def put_header_def slot_etag_bytes_def tiny_chunk_def slot_layout)
  have ok: "store_ok ?c st" using filled_agrees [OF st(1) tiny_ok(1,2)] by blast
  have "contents st ''j'' = None" using contents_order [OF ok, of "''j''"] st(3) by simp
  then have "fst (store_get ?c io_good ''j'' st) = Some (Inr None)" using get_correct(4) [OF ok, of io_good "''j''"] by simp
  from refill_race_serves_wrong_bytes [OF tiny_ok(1,2) c(1) st(1,2) this c(4,2,3), unfolded c(5)] st(2) show ?thesis by blast
qed

end
