(* ===== verification/Store_Slots.thy ===== *)
theory Store_Slots
  imports Store_Race
begin

text \<open>
  The ceiling on reads in flight of the chunk store (\<^verbatim>\<open>pacer-cache/src/store.rs\<close>, \<open>read_slots\<close>): a \<open>get\<close> that found its key waits for a permit before it reads and holds it
  until it returns, on every path. The calls are cut into the steps of \<open>Store_Race\<close>. The semaphore is tokio's: a permit is taken only when one is free, and which of the waiting calls
  gets it is left open. A request may be dropped while it waits or reads, which gives its permit back; the read it leaves
  on the blocking pool changes no index and no file (its counters are left out), and a \<open>put\<close> is never dropped here.
\<close>

section \<open>Calls and permits\<close>











section \<open>Permits are conserved\<close>










section \<open>No deadlock\<close>
















section \<open>The property\<close>





end
