(* ===== verification/Codec.thy ===== *)
theory Codec
  imports Cache_Policy
begin

text \<open>
  The disk format of a cache value (\<^verbatim>\<open>pacer-cache/src/codec.rs\<close>) and where a decoded chunk lands
  (\<^verbatim>\<open>pacer-cache/src/frames.rs\<close>). A writer is a buffer with a capacity, a reader the bytes still to come. The
  \<^verbatim>\<open>bincode\<close> crate, which handles object headers, is a pair of parameters: \<open>ser\<close> gives a header's bytes,
  \<open>de\<close> reads one header off the front of the input. The node's slab of registered frames is a
  parameter too: whether it has a frame for a length. A frame and the heap receive the same bytes, so the slab shows
  only in the counters.
\<close>

section \<open>Frames\<close>

text \<open>
  \<open>FRAME_SOURCE\<close> with the counters behind it: the installed source, if any, says whether a frame of a given length is
  free.
\<close>

record frames =
  frame_source :: "(nat \<Rightarrow> bool) option"
  frames_stored :: nat
  heap_fallbacks :: nat

definition frames_empty :: frames where
  "frames_empty = \<lparr>frame_source = None, frames_stored = 0, heap_fallbacks = 0\<rparr>"

definition install_frame_source :: "(nat \<Rightarrow> bool) \<Rightarrow> frames \<Rightarrow> bool \<times> frames" where
  "install_frame_source source fs = (if frame_source fs = None then (True, fs\<lparr>frame_source := Some source\<rparr>) else (False, fs))"

definition has_frame_source :: "frames \<Rightarrow> bool" where
  "has_frame_source fs \<longleftrightarrow> frame_source fs \<noteq> None"

definition frame_claim :: "nat \<Rightarrow> frames \<Rightarrow> bool" where
  "frame_claim len fs = (case frame_source fs of Some source \<Rightarrow> source len | None \<Rightarrow> False)"

definition note_stored :: "frames \<Rightarrow> frames" where
  "note_stored fs = (if frame_source fs \<noteq> None then fs\<lparr>frames_stored := frames_stored fs + 1\<rparr> else fs)"

definition note_heap_fallback :: "frames \<Rightarrow> frames" where
  "note_heap_fallback fs = (if frame_source fs \<noteq> None then fs\<lparr>heap_fallbacks := heap_fallbacks fs + 1\<rparr> else fs)"

text \<open>\<open>fill n\<close> reads exactly \<open>n\<close> bytes into the destination, or fails.\<close>

definition decode_into_frame :: "nat \<Rightarrow> (nat \<Rightarrow> 'e + 'a) \<Rightarrow> frames \<Rightarrow> ('e + 'a) \<times> frames" where
  "decode_into_frame len fill fs =
     (if frame_claim len fs then (case fill len of Inl e \<Rightarrow> (Inl e, fs) | Inr b \<Rightarrow> (Inr b, note_stored fs))
      else let fs = note_heap_fallback fs in (case fill len of Inl e \<Rightarrow> (Inl e, fs) | Inr b \<Rightarrow> (Inr b, fs)))"

section \<open>Layout\<close>

definition TAG_HEADER :: u32 where "TAG_HEADER = 0"
definition TAG_CHUNK :: u32 where "TAG_CHUNK = 1"
definition TAG_CHUNK_VERSIONED :: u32 where "TAG_CHUNK_VERSIONED = 2"
definition MAX_DECODABLE_ETAG :: u64 where "MAX_DECODABLE_ETAG = 256"
definition TAG_BYTES :: nat where "TAG_BYTES = 4"
definition LEN_BYTES :: nat where "LEN_BYTES = 8"
definition OPTION_TAG_BYTES :: nat where "OPTION_TAG_BYTES = 1"
definition MAX_DECODABLE_CHUNK :: u64 where "MAX_DECODABLE_CHUNK = 1073741824"

datatype codec_error = IoError | BincodeError | UnknownTag u32 | ChunkTooLong u64 | EtagTooLong u64 | EtagNotUtf8

section \<open>Encoding\<close>

record buffer_writer =
  w_capacity :: nat
  w_bytes :: bytes

definition codec_write_all :: "bytes \<Rightarrow> buffer_writer \<Rightarrow> codec_error + buffer_writer" where
  "codec_write_all buf w = (if length (w_bytes w) + length buf \<le> w_capacity w then Inr (w\<lparr>w_bytes := w_bytes w @ buf\<rparr>) else Inl IoError)"

text \<open>The \<open>?\<close> operator.\<close>

definition try_op :: "'e + 'a \<Rightarrow> ('a \<Rightarrow> 'e + 'b) \<Rightarrow> 'e + 'b" where
  "try_op r f = (case r of Inl e \<Rightarrow> Inl e | Inr a \<Rightarrow> f a)"

fun encode :: "(object_header \<Rightarrow> bytes) \<Rightarrow> cache_value \<Rightarrow> buffer_writer \<Rightarrow> codec_error + buffer_writer" where
  "encode ser (Header h) w =
     try_op (codec_write_all (le_bytes 4 (unat TAG_HEADER)) w) (\<lambda>w.
       case codec_write_all (ser h) w of Inl _ \<Rightarrow> Inl BincodeError | Inr w \<Rightarrow> Inr w)"
| "encode ser (Chunk c) w = (case e_tag c of
      None \<Rightarrow>
        try_op (codec_write_all (le_bytes 4 (unat TAG_CHUNK)) w) (\<lambda>w.
        try_op (codec_write_all (le_bytes 8 (unat (of_nat (length (body c)) :: u64))) w) (\<lambda>w.
        codec_write_all (body c) w))
    | Some t \<Rightarrow>
        try_op (codec_write_all (le_bytes 4 (unat TAG_CHUNK_VERSIONED)) w) (\<lambda>w.
        try_op (codec_write_all (le_bytes 8 (unat (of_nat (length t) :: u64))) w) (\<lambda>w.
        try_op (codec_write_all t w) (\<lambda>w.
        try_op (codec_write_all (le_bytes 8 (unat (of_nat (length (body c)) :: u64))) w) (\<lambda>w.
        codec_write_all (body c) w)))))"

definition header_size_floor :: nat where
  "header_size_floor = LEN_BYTES + 3 * OPTION_TAG_BYTES"

text \<open>\<open>size_of\<close> is \<open>bincode::serialized_size\<close>, \<open>None\<close> when it declines.\<close>

fun estimated_size :: "(object_header \<Rightarrow> nat option) \<Rightarrow> cache_value \<Rightarrow> nat" where
  "estimated_size size_of (Chunk c) = TAG_BYTES +
     (case e_tag c of None \<Rightarrow> 0 | Some t \<Rightarrow> LEN_BYTES + length t) + LEN_BYTES + length (body c)"
| "estimated_size size_of (Header h) = TAG_BYTES + (case size_of h of None \<Rightarrow> header_size_floor | Some n \<Rightarrow> n)"

section \<open>Decoding\<close>

definition codec_read_exact :: "nat \<Rightarrow> bytes \<Rightarrow> codec_error + bytes \<times> bytes" where
  "codec_read_exact n r = (if n \<le> length r then Inr (take n r, drop n r) else Inl IoError)"

definition read_len :: "bytes \<Rightarrow> codec_error + u64 \<times> bytes" where
  "read_len r = try_op (codec_read_exact LEN_BYTES r) (\<lambda>(l, r). Inr (of_nat (from_le l), r))"

definition codec_read_body :: "frames \<Rightarrow> bytes \<Rightarrow> (codec_error + bytes \<times> bytes) \<times> frames" where
  "codec_read_body fs r = (case read_len r of
      Inl e \<Rightarrow> (Inl e, fs)
    | Inr (len, r) \<Rightarrow>
        if len > MAX_DECODABLE_CHUNK then (Inl (ChunkTooLong len), fs)
        else decode_into_frame (unat len) (\<lambda>n. codec_read_exact n r) fs)"

definition read_e_tag :: "bytes \<Rightarrow> codec_error + string \<times> bytes" where
  "read_e_tag r = try_op (read_len r) (\<lambda>(len, r).
     if len > MAX_DECODABLE_ETAG then Inl (EtagTooLong len)
     else try_op (codec_read_exact (unat len) r) (\<lambda>(t, r). if valid_utf8 t then Inr (t, r) else Inl EtagNotUtf8))"

definition decode :: "(bytes \<Rightarrow> (object_header \<times> bytes) option) \<Rightarrow> frames \<Rightarrow> bytes \<Rightarrow> (codec_error + cache_value \<times> bytes) \<times> frames" where
  "decode de fs r = (case codec_read_exact TAG_BYTES r of
      Inl e \<Rightarrow> (Inl e, fs)
    | Inr (tag, r) \<Rightarrow>
        let t = (of_nat (from_le tag) :: u32) in
        if t = TAG_HEADER then
          ((case de r of Some (h, r) \<Rightarrow> Inr (Header h, r) | None \<Rightarrow> Inl BincodeError), fs)
        else if t = TAG_CHUNK then
          (case codec_read_body fs r of
             (Inl e, fs) \<Rightarrow> (Inl e, fs)
           | (Inr (b, r), fs) \<Rightarrow> (Inr (Chunk (cached_chunk_new b), r), fs))
        else if t = TAG_CHUNK_VERSIONED then
          (case read_e_tag r of
             Inl e \<Rightarrow> (Inl e, fs)
           | Inr (tg, r) \<Rightarrow> (case codec_read_body fs r of
                 (Inl e, fs) \<Rightarrow> (Inl e, fs)
               | (Inr (b, r), fs) \<Rightarrow> (Inr (Chunk (cached_chunk_versioned b tg), r), fs)))
        else (Inl (UnknownTag t), fs))"

section \<open>Encoding as bytes\<close>

text \<open>What a writer with room for it receives.\<close>

fun encoding :: "(object_header \<Rightarrow> bytes) \<Rightarrow> cache_value \<Rightarrow> bytes" where
  "encoding ser (Header h) = le_bytes 4 0 @ ser h"
| "encoding ser (Chunk c) = (case e_tag c of
      None \<Rightarrow> le_bytes 4 1 @ le_bytes 8 (length (body c)) @ body c
    | Some t \<Rightarrow> le_bytes 4 2 @ le_bytes 8 (length t) @ t @ le_bytes 8 (length (body c)) @ body c)"

lemmas codec_tags = TAG_HEADER_def TAG_CHUNK_def TAG_CHUNK_VERSIONED_def
lemmas codec_widths = TAG_BYTES_def LEN_BYTES_def MAX_DECODABLE_ETAG_def MAX_DECODABLE_CHUNK_def

fun fits_u64 :: "cache_value \<Rightarrow> bool" where
  "fits_u64 (Header h) = True"
| "fits_u64 (Chunk c) \<longleftrightarrow> length (body c) < 2 ^ 64 \<and> (case e_tag c of None \<Rightarrow> True | Some t \<Rightarrow> length t < 2 ^ 64)"

lemma encode_bytes:
  assumes "fits_u64 v"
  shows "encode ser v w = (if length (w_bytes w) + length (encoding ser v) \<le> w_capacity w
      then Inr (w\<lparr>w_bytes := w_bytes w @ encoding ser v\<rparr>)
      else if length (w_bytes w) + 4 \<le> w_capacity w \<and> as_header v \<noteq> None then Inl BincodeError else Inl IoError)"
proof (cases v)
  case (Header h)
  then show ?thesis by (simp add: codec_write_all_def try_op_def codec_tags)
next
  case (Chunk c)
  then show ?thesis using assms
    by (cases "e_tag c") (simp_all add: codec_write_all_def try_op_def codec_tags unat_of_nat)
qed

text \<open>Reading the pieces back.\<close>

lemma read_exact_append: "n = length a \<Longrightarrow> codec_read_exact n (a @ r) = Inr (a, r)"
  by (simp add: codec_read_exact_def)

lemma read_len_append: "n < 2 ^ 64 \<Longrightarrow> read_len (le_bytes 8 n @ r) = Inr (of_nat n, r)"
  by (simp add: read_len_def read_exact_append try_op_def codec_widths from_le_le_bytes_mod)

lemma read_body_append:
  assumes "length b \<le> 1073741824"
  shows "fst (codec_read_body fs (le_bytes 8 (length b) @ b @ r)) = Inr (b, r)"
proof -
  have "unat (of_nat (length b) :: u64) = length b" using assms by (simp add: unat_of_nat)
  then show ?thesis using assms
    by (simp add: codec_read_body_def read_len_append decode_into_frame_def read_exact_append Let_def codec_widths word_less_nat_alt)
qed

lemma read_e_tag_append:
  assumes "length t \<le> 256" "valid_utf8 t"
  shows "read_e_tag (le_bytes 8 (length t) @ t @ r) = Inr (t, r)"
proof -
  have "unat (of_nat (length t) :: u64) = length t" using assms by (simp add: unat_of_nat)
  then show ?thesis using assms
    by (simp add: read_e_tag_def read_len_append try_op_def read_exact_append codec_widths word_less_nat_alt)
qed

fun decodable :: "cache_value \<Rightarrow> bool" where
  "decodable (Header h) \<longleftrightarrow> True"
| "decodable (Chunk c) \<longleftrightarrow> length (body c) \<le> 1073741824
     \<and> (case e_tag c of None \<Rightarrow> True | Some t \<Rightarrow> length t \<le> 256 \<and> valid_utf8 t)"

lemma tag_read: "n < 2 ^ 32 \<Longrightarrow> codec_read_exact TAG_BYTES (le_bytes 4 n @ r) = Inr (le_bytes 4 n, r) \<and> (of_nat (from_le (le_bytes 4 n)) :: u32) = of_nat n"
  by (simp add: read_exact_append codec_widths from_le_le_bytes_mod)

lemma decode_chunk:
  assumes "decodable (Chunk c)"
  shows "fst (decode de fs (encoding ser (Chunk c) @ r)) = Inr (Chunk c, r)"
proof (cases "e_tag c")
  case None
  obtain fs' where "codec_read_body fs (le_bytes 8 (length (body c)) @ body c @ r) = (Inr (body c, r), fs')"
    using read_body_append [of "body c" fs r] assms by (metis decodable.simps(2) prod.collapse)
  moreover have "cached_chunk_new (body c) = c" using None by (simp add: cached_chunk_new_def)
  ultimately show ?thesis
    using tag_read [of 1 "le_bytes 8 (length (body c)) @ body c @ r"] None by (simp add: decode_def codec_tags)
next
  case (Some t)
  then have t: "length t \<le> 256" "valid_utf8 t" "length (body c) \<le> 1073741824" using assms by auto
  obtain fs' where "codec_read_body fs (le_bytes 8 (length (body c)) @ body c @ r) = (Inr (body c, r), fs')"
    using read_body_append [OF t(3), of fs r] by (metis prod.collapse)
  moreover have "cached_chunk_versioned (body c) t = c" using Some by (simp add: cached_chunk_versioned_def)
  ultimately show ?thesis
    using tag_read [of 2 "le_bytes 8 (length t) @ t @ le_bytes 8 (length (body c)) @ body c @ r"]
      read_e_tag_append [OF t(1,2), of "le_bytes 8 (length (body c)) @ body c @ r"] Some
    by (simp add: decode_def codec_tags)
qed

lemma decode_encoding:
  assumes "\<And>h r. v = Header h \<Longrightarrow> de (ser h @ r) = Some (h, r)" "decodable v"
  shows "fst (decode de fs (encoding ser v @ r)) = Inr (v, r)"
proof (cases v)
  case (Header h)
  then show ?thesis using assms(1) tag_read [of 0 "ser h @ r"] by (simp add: decode_def codec_tags)
qed (use assms(2) decode_chunk in blast)

section \<open>What decodes was encoded\<close>

lemma read_exact_inv: "codec_read_exact n r = Inr (a, r') \<longleftrightarrow> r = a @ r' \<and> length a = n"
  by (auto simp: codec_read_exact_def)

lemma read_len_inv: "read_len r = Inr (n, r') \<Longrightarrow> r = le_bytes 8 (unat n) @ r'"
proof -
  assume "read_len r = Inr (n, r')"
  then obtain l where l: "r = l @ r'" "length l = 8" "n = of_nat (from_le l)"
    by (auto simp: read_len_def try_op_def codec_widths read_exact_inv split: sum.splits)
  have "unat n = from_le l" using from_le_bound [of l] l(2,3) by (simp add: unat_of_nat)
  then show ?thesis using l(1,2) le_bytes_from_le [of l] by simp
qed

lemma read_body_inv:
  assumes "fst (codec_read_body fs r) = Inr (b, r')"
  shows "r = le_bytes 8 (length b) @ b @ r'" and "length b \<le> 1073741824"
proof -
  obtain n r1 where n: "read_len r = Inr (n, r1)" "n \<le> MAX_DECODABLE_CHUNK" "codec_read_exact (unat n) r1 = Inr (b, r')"
    using assms by (auto simp: codec_read_body_def decode_into_frame_def Let_def not_less split: sum.splits prod.splits if_splits)
  then have b: "r1 = b @ r'" "length b = unat n" by (simp_all add: read_exact_inv)
  then show "r = le_bytes 8 (length b) @ b @ r'" using read_len_inv [OF n(1)] by simp
  show "length b \<le> 1073741824" using n(2) b(2) by (simp add: word_le_nat_alt codec_widths)
qed

lemma read_e_tag_inv:
  assumes "read_e_tag r = Inr (t, r')"
  shows "r = le_bytes 8 (length t) @ t @ r'" and "length t \<le> 256" and "valid_utf8 t"
proof -
  obtain n r1 where n: "read_len r = Inr (n, r1)" "n \<le> MAX_DECODABLE_ETAG" "codec_read_exact (unat n) r1 = Inr (t, r')" "valid_utf8 t"
    using assms by (auto simp: read_e_tag_def try_op_def not_less split: sum.splits prod.splits if_splits)
  then have b: "r1 = t @ r'" "length t = unat n" by (simp_all add: read_exact_inv)
  then show "r = le_bytes 8 (length t) @ t @ r'" using read_len_inv [OF n(1)] by simp
  show "length t \<le> 256" using n(2) b(2) by (simp add: word_le_nat_alt codec_widths)
  show "valid_utf8 t" by (rule n(4))
qed

lemma tag_inv:
  assumes "codec_read_exact TAG_BYTES r = Inr (a, r')" "(of_nat (from_le a) :: u32) = of_nat n" "n < 2 ^ 32"
  shows "r = le_bytes 4 n @ r'"
proof -
  have a: "r = a @ r'" "length a = 4" using assms(1) by (simp_all add: read_exact_inv codec_widths)
  have "from_le a = n" using assms(2,3) from_le_bound [of a] a(2) by (simp add: word_of_nat_eq_iff take_bit_nat_eq_self)
  then show ?thesis using a le_bytes_from_le [of a] by simp
qed

lemma decode_chunk_inv:
  assumes "fst (decode de fs r) = Inr (Chunk c, r')"
  shows "r = encoding ser (Chunk c) @ r' \<and> decodable (Chunk c)"
proof -
  obtain a r1 where a: "codec_read_exact TAG_BYTES r = Inr (a, r1)"
    using assms by (cases "codec_read_exact TAG_BYTES r") (auto simp: decode_def)
  let ?t = "of_nat (from_le a) :: u32"
  consider "?t = 0" | "?t = 1" | "?t = 2" | "?t \<noteq> 0" "?t \<noteq> 1" "?t \<noteq> 2" by blast
  then show ?thesis
  proof cases
    case 1
    then show ?thesis using assms a by (auto simp: decode_def codec_tags split: option.splits)
  next
    case 2
    then obtain b where b: "fst (codec_read_body fs r1) = Inr (b, r')" "c = cached_chunk_new b"
      using assms a by (auto simp: decode_def codec_tags split: prod.splits sum.splits)
    then show ?thesis using tag_inv [OF a, of 1] 2 read_body_inv [OF b(1)] by (simp add: cached_chunk_new_def)
  next
    case 3
    then obtain t r2 b where b: "read_e_tag r1 = Inr (t, r2)" "fst (codec_read_body fs r2) = Inr (b, r')" "c = cached_chunk_versioned b t"
      using assms a by (auto simp: decode_def codec_tags split: prod.splits sum.splits)
    then show ?thesis using tag_inv [OF a, of 2] 3 read_body_inv [OF b(2)] read_e_tag_inv [OF b(1)]
      by (simp add: cached_chunk_versioned_def)
  next
    case 4
    then show ?thesis using assms a by (simp add: decode_def codec_tags Let_def)
  qed
qed

text \<open>The slab does not change what is read.\<close>

lemma read_body_frames: "fst (codec_read_body fs r) = fst (codec_read_body fs' r)"
  by (auto simp: codec_read_body_def decode_into_frame_def Let_def split: sum.splits prod.splits)

lemma decode_frames: "fst (decode de fs r) = fst (decode de fs' r)"
proof -
  have *: "fst (case codec_read_body fs x of (Inl e, fs) \<Rightarrow> (Inl e, fs) | (Inr (b, r), fs) \<Rightarrow> (Inr (f b, r), fs))
      = fst (case codec_read_body fs' x of (Inl e, fs) \<Rightarrow> (Inl e, fs) | (Inr (b, r), fs) \<Rightarrow> (Inr (f b, r), fs))"
    for x and f :: "bytes \<Rightarrow> cache_value"
    using read_body_frames [of fs x fs'] by (cases "codec_read_body fs x"; cases "codec_read_body fs' x") (auto split: sum.splits)
  show ?thesis unfolding decode_def Let_def by (auto simp: * split: sum.splits prod.splits)
qed

text \<open>A header for examples.\<close>

definition tiny_header :: object_header where
  "tiny_header = object_header_new 5 (Some ''v1'') None (Some 7)
     \<lparr>metadata = [], content_encoding = None, content_disposition = None, content_language = None, cache_control = None, expires_epoch_secs = None\<rparr>"

section \<open>Properties\<close>

text \<open>
  C13 (a cache value survives the disk tier): if \<^verbatim>\<open>bincode\<close> reads back a header it wrote, then a value that \<open>encode\<close> writes into a
  buffer, with a body of at most 1 GiB and an entity tag of at most 256 bytes of UTF-8, decodes to itself
  and leaves exactly what followed it, whatever frames the node has.
\<close>

theorem codec_roundtrip:
  assumes "\<And>h r. v = Header h \<Longrightarrow> de (ser h @ r) = Some (h, r)" "decodable v"
    and "encode ser v \<lparr>w_capacity = cap, w_bytes = []\<rparr> = Inr w"
  shows "fst (decode de fs (w_bytes w @ rest)) = Inr (v, rest)"
proof -
  have "fits_u64 v" using assms(2) by (cases v) (auto split: option.splits)
  then have "w_bytes w = encoding ser v" using assms(3) encode_bytes [of v ser "\<lparr>w_capacity = cap, w_bytes = []\<rparr>"] by (auto split: if_splits)
  then show ?thesis using decode_encoding [OF assms(1,2)] by simp
qed

theorem codec_roundtrip_witness:
  "fst (decode (\<lambda>r. Some (tiny_header, drop 2 r)) frames_empty (le_bytes 4 0 @ ''hd'' @ ''zz'')) = Inr (Header tiny_header, ''zz'')"
  using codec_roundtrip [of "Header tiny_header" "\<lambda>r. Some (tiny_header, drop 2 r)" "\<lambda>_. ''hd''" 64
      "\<lparr>w_capacity = 64, w_bytes = le_bytes 4 0 @ ''hd''\<rparr>" frames_empty "''zz''"]
  by (simp add: codec_write_all_def try_op_def codec_tags)

text \<open>
  If \<open>decode\<close> answers a chunk, then its body and entity tag are within the bounds, the
  bytes read are exactly the encoding of that chunk, and the rest of the input is untouched. So no two encodings read
  as the same chunk and no stray bytes read as one. The slab of frames never changes the answer.
\<close>

lemma decode_canonical:
  "(fst (decode de fs r) = Inr (Chunk c, rest) \<longleftrightarrow> r = encoding ser (Chunk c) @ rest \<and> decodable (Chunk c))
   \<and> fst (decode de fs r) = fst (decode de fs' r)"
  using decode_chunk_inv [of de fs r c rest ser] decode_chunk [of c de fs ser rest] decode_frames [of de fs r fs'] by blast

text \<open>
  The size estimate is exact: \<open>estimated_size\<close> is the number of bytes \<open>encode\<close> writes, for chunks always and for headers whenever
  \<^verbatim>\<open>bincode\<close> sizes them; so an encode into a buffer of that size succeeds.
\<close>

lemma estimated_size_exact:
  assumes "\<And>h. size_of h = Some (length (ser h))" "fits_u64 v"
  shows "encode ser v \<lparr>w_capacity = estimated_size size_of v, w_bytes = []\<rparr> =
      Inr \<lparr>w_capacity = estimated_size size_of v, w_bytes = encoding ser v\<rparr>
    \<and> length (encoding ser v) = estimated_size size_of v"
proof -
  have "length (encoding ser v) = estimated_size size_of v"
    by (cases v) (simp_all add: assms(1) codec_widths split: option.split)
  then show ?thesis using encode_bytes [OF assms(2)] by simp
qed

lemma estimated_size_exact_example:
  "length (encoding (\<lambda>_. []) (Chunk \<lparr>body = ''abc'', e_tag = Some ''v1''\<rparr>)) = 25
   \<and> estimated_size (\<lambda>_. Some 0) (Chunk \<lparr>body = ''abc'', e_tag = Some ''v1''\<rparr>) = 25"
  using estimated_size_exact [of "\<lambda>_. Some 0" "\<lambda>_. []" "Chunk \<lparr>body = ''abc'', e_tag = Some ''v1''\<rparr>"] by (simp add: codec_widths)

end
