(* ===== verification/Tier.thy ===== *)
theory Tier
  imports Store_Restart Cache_Policy
begin

text \<open>
  The seam every chunk read and fill goes through (\<^verbatim>\<open>pacer-cache/src/tier.rs\<close>): chunks live either in the
  hybrid cache of the \<^verbatim>\<open>foyer\<close> crate or in the chunk store. The crate is a parameter: a state of any type
  and the six operations the source calls on it, with what a cache documents of them as \<open>foyer_ok\<close>. An
  \<open>anyhow::Error\<close> is a \<open>tier_error\<close> that says which backend raised it.
\<close>

section \<open>The tier\<close>

text \<open>
  The operations of \<open>ChunkCache\<close>. Each lookup gives an answer; \<open>after_get\<close>, \<open>after_memory_get\<close> and \<open>after_load\<close>
  are what the lookup leaves of the cache (promotion, recency, dropped entries).
\<close>

record ('f, 'e) foyer_ops =
  hybrid_get :: "string \<Rightarrow> 'f \<Rightarrow> 'e + cache_value option"
  after_get :: "string \<Rightarrow> 'f \<Rightarrow> 'f"
  memory_get :: "string \<Rightarrow> 'f \<Rightarrow> cache_value option"
  after_memory_get :: "string \<Rightarrow> 'f \<Rightarrow> 'f"
  storage_load :: "string \<Rightarrow> 'f \<Rightarrow> 'e + load"
  after_load :: "string \<Rightarrow> 'f \<Rightarrow> 'f"
  hybrid_insert :: "string \<Rightarrow> cache_value \<Rightarrow> 'f \<Rightarrow> 'f"
  hybrid_remove :: "string \<Rightarrow> 'f \<Rightarrow> 'f"

record 'f chunk_tier =
  tier_cache :: 'f
  tier_store :: "store option"
  tier_promotion :: promotion

datatype 'e tier_error = StoreFailed store_error | CacheFailed 'e

definition foyer :: "'f \<Rightarrow> promotion \<Rightarrow> 'f chunk_tier" where
  "foyer c p = \<lparr>tier_cache = c, tier_store = None, tier_promotion = p\<rparr>"

definition with_store :: "'f \<Rightarrow> store \<Rightarrow> promotion \<Rightarrow> 'f chunk_tier" where
  "with_store c st p = \<lparr>tier_cache = c, tier_store = Some st, tier_promotion = p\<rparr>"

definition has_store :: "'f chunk_tier \<Rightarrow> bool" where
  "has_store t \<longleftrightarrow> tier_store t \<noteq> None"

text \<open>What \<open>read_chunk_entry\<close> leaves of the cache, by the lookups it makes.\<close>

definition after_read :: "('f, 'e) foyer_ops \<Rightarrow> string \<Rightarrow> promotion \<Rightarrow> 'f \<Rightarrow> 'f" where
  "after_read F key promo f =
     (if promo = OnDiskHit then after_get F key f
      else if memory_get F key f \<noteq> None then after_memory_get F key f
      else after_load F key (after_memory_get F key f))"

definition get_chunk :: "(bytes \<Rightarrow> u32) \<Rightarrow> ('f, 'e) foyer_ops \<Rightarrow> io_env \<Rightarrow> string \<Rightarrow> 'f chunk_tier
    \<Rightarrow> ('e tier_error + cached_chunk option) option \<times> 'f chunk_tier" where
  "get_chunk crc32 F env key t = (case tier_store t of
      Some st \<Rightarrow>
        (let (r, st') = store_get crc32 env key st
         in (map_option (map_sum StoreFailed id) r, t\<lparr>tier_store := Some st'\<rparr>))
    | None \<Rightarrow>
        (let f = tier_cache t;
             r = read_chunk_entry (\<lambda>k. hybrid_get F k f) (\<lambda>k. memory_get F k f)
                   (\<lambda>k. storage_load F k (after_memory_get F k f)) key (tier_promotion t)
         in (Some (map_sum CacheFailed (\<lambda>v. Option.bind v as_chunk) r),
             t\<lparr>tier_cache := after_read F key (tier_promotion t) f\<rparr>)))"

definition tier_forget :: "('f, 'e) foyer_ops \<Rightarrow> string \<Rightarrow> 'f chunk_tier \<Rightarrow> 'f chunk_tier" where
  "tier_forget F key t =
     (let t = t\<lparr>tier_cache := hybrid_remove F key (tier_cache t)\<rparr>
      in case tier_store t of Some st \<Rightarrow> t\<lparr>tier_store := Some (snd (store_remove key st))\<rparr> | None \<Rightarrow> t)"

definition put_chunk :: "(bytes \<Rightarrow> u32) \<Rightarrow> ('f, 'e) foyer_ops \<Rightarrow> io_env \<Rightarrow> string \<Rightarrow> cached_chunk \<Rightarrow> 'f chunk_tier
    \<Rightarrow> 'e tier_error option \<times> 'f chunk_tier" where
  "put_chunk crc32 F env key c t = (case tier_store t of
      Some st \<Rightarrow>
        (let (r, st') = store_put crc32 env key c st in (map_option StoreFailed r, t\<lparr>tier_store := Some st'\<rparr>))
    | None \<Rightarrow> (None, t\<lparr>tier_cache := hybrid_insert F key (Chunk c) (tier_cache t)\<rparr>))"

section \<open>What the hybrid cache documents\<close>

text \<open>
  \<open>held f k\<close> is the value a cache may answer under \<open>k\<close>. Lookups answer nothing else and add nothing;
  an insert adds at most its own entry (the cache may decline it, but then the old value is gone too);
  a removal takes the entry out.
\<close>

definition foyer_ok :: "('f, 'e) foyer_ops \<Rightarrow> ('f \<Rightarrow> string \<Rightarrow> cache_value option) \<Rightarrow> bool" where
  "foyer_ok F held \<longleftrightarrow>
     (\<forall>f k v. hybrid_get F k f = Inr (Some v) \<longrightarrow> held f k = Some v)
   \<and> (\<forall>f k v. memory_get F k f = Some v \<longrightarrow> held f k = Some v)
   \<and> (\<forall>f k v. storage_load F k f \<in> {Inr (Entry v), Inr (Piece v)} \<longrightarrow> held f k = Some v)
   \<and> (\<forall>f k. held (after_get F k f) \<subseteq>\<^sub>m held f \<and> held (after_memory_get F k f) \<subseteq>\<^sub>m held f \<and> held (after_load F k f) \<subseteq>\<^sub>m held f)
   \<and> (\<forall>f k v. held (hybrid_insert F k v f) \<subseteq>\<^sub>m (held f)(k \<mapsto> v))
   \<and> (\<forall>f k. held (hybrid_remove F k f) \<subseteq>\<^sub>m (held f)(k := None))"

lemma foyer_okD:
  assumes "foyer_ok F held"
  shows "hybrid_get F k f = Inr (Some v) \<Longrightarrow> held f k = Some v"
    and "memory_get F k f = Some v \<Longrightarrow> held f k = Some v"
    and "storage_load F k f = Inr (Entry v) \<Longrightarrow> held f k = Some v"
    and "storage_load F k f = Inr (Piece v) \<Longrightarrow> held f k = Some v"
    and "held (after_get F k f) \<subseteq>\<^sub>m held f"
    and "held (after_memory_get F k f) \<subseteq>\<^sub>m held f"
    and "held (after_load F k f) \<subseteq>\<^sub>m held f"
    and "held (hybrid_insert F k v f) \<subseteq>\<^sub>m (held f)(k \<mapsto> v)"
    and "held (hybrid_remove F k f) \<subseteq>\<^sub>m (held f)(k := None)"
  using assms unfolding foyer_ok_def by simp_all

lemma after_read_held: "foyer_ok F held \<Longrightarrow> held (after_read F k p f) \<subseteq>\<^sub>m held f"
  by (simp add: after_read_def foyer_okD map_le_trans [OF foyer_okD(7) foyer_okD(6)])

lemma read_entry_held:
  assumes "foyer_ok F held"
    and "read_chunk_entry (\<lambda>k. hybrid_get F k f) (\<lambda>k. memory_get F k f) (\<lambda>k. storage_load F k (after_memory_get F k f)) k p = Inr (Some v)"
  shows "held f k = Some v"
proof -
  have "held f k = Some v" if "held (after_memory_get F k f) k = Some v"
    using foyer_okD(6) [OF assms(1)] that by (metis domI map_le_def)
  then show ?thesis using assms(2) foyer_okD(1-4) [OF assms(1)]
    by (auto simp: read_chunk_entry_def split: if_splits option.splits sum.splits load.splits)
qed

section \<open>The tier is a chunk backend\<close>

definition tier_view :: "('f \<Rightarrow> string \<Rightarrow> cache_value option) \<Rightarrow> 'f chunk_tier \<Rightarrow> string \<Rightarrow> cached_chunk option" where
  "tier_view held t k = (case tier_store t of
      Some st \<Rightarrow> contents st k
    | None \<Rightarrow> Option.bind (held (tier_cache t) k) as_chunk)"

definition tier_sound :: "(bytes \<Rightarrow> u32) \<Rightarrow> ('f, 'e) foyer_ops \<Rightarrow> ('f \<Rightarrow> string \<Rightarrow> cache_value option) \<Rightarrow> bool \<Rightarrow> 'f chunk_tier \<Rightarrow> bool" where
  "tier_sound crc32 F held m t \<longleftrightarrow> foyer_ok F held \<and> has_store t = m
     \<and> (case tier_store t of Some st \<Rightarrow> store_sound crc32 st | None \<Rightarrow> True)"

text \<open>How a chunk reads back: the store turns an empty witness into none.\<close>

definition tier_stored :: "bool \<Rightarrow> cached_chunk \<Rightarrow> cached_chunk" where
  "tier_stored m = (if m then read_back else id)"

definition tier_answer :: "('e tier_error + cached_chunk option) option \<Rightarrow> cached_chunk option option" where
  "tier_answer r = (case r of Some (Inr a) \<Rightarrow> Some a | _ \<Rightarrow> None)"

definition tier_get :: "(bytes \<Rightarrow> u32) \<Rightarrow> ('f, 'e) foyer_ops \<Rightarrow> io_env \<Rightarrow> string \<Rightarrow> 'f chunk_tier \<Rightarrow> cached_chunk option option \<times> 'f chunk_tier" where
  "tier_get crc32 F e k t = (tier_answer (fst (get_chunk crc32 F e k t)), snd (get_chunk crc32 F e k t))"

definition tier_put :: "(bytes \<Rightarrow> u32) \<Rightarrow> ('f, 'e) foyer_ops \<Rightarrow> io_env \<Rightarrow> string \<Rightarrow> cached_chunk \<Rightarrow> 'f chunk_tier \<Rightarrow> bool \<times> 'f chunk_tier" where
  "tier_put crc32 F e k c t = (fst (put_chunk crc32 F e k c t) = None, snd (put_chunk crc32 F e k c t))"

abbreviation tier_run :: "(bytes \<Rightarrow> u32) \<Rightarrow> ('f, 'e) foyer_ops \<Rightarrow> io_env backend_op \<Rightarrow> 'f chunk_tier \<Rightarrow> 'f chunk_tier" where
  "tier_run crc32 F \<equiv> run_backend (tier_get crc32 F) (tier_put crc32 F) (tier_forget F)"

text \<open>Each operation, by the backend that holds chunks.\<close>

lemma tier_with_store:
  assumes "tier_store t = Some st"
  shows "tier_get crc32 F e k t = (fst (backend_get crc32 e k st), t\<lparr>tier_store := Some (snd (backend_get crc32 e k st))\<rparr>)"
    and "snd (tier_put crc32 F e k c t) = t\<lparr>tier_store := Some (snd (backend_put crc32 e k c st))\<rparr>"
    and "tier_forget F k t = t\<lparr>tier_cache := hybrid_remove F k (tier_cache t), tier_store := Some (backend_drop k st)\<rparr>"
proof -
  obtain r st' where "store_get crc32 e k st = (r, st')" by fastforce
  then show "tier_get crc32 F e k t = (fst (backend_get crc32 e k st), t\<lparr>tier_store := Some (snd (backend_get crc32 e k st))\<rparr>)"
    using assms by (simp add: tier_get_def get_chunk_def tier_answer_def store_answer_def map_sum_def split: option.split sum.split)
  show "snd (tier_put crc32 F e k c t) = t\<lparr>tier_store := Some (snd (backend_put crc32 e k c st))\<rparr>"
    using assms by (simp add: tier_put_def put_chunk_def split: prod.split)
qed (use assms in \<open>simp add: tier_forget_def Let_def\<close>)

lemma tier_foyer:
  assumes "tier_store t = None"
  shows "snd (tier_get crc32 F e k t) = t\<lparr>tier_cache := after_read F k (tier_promotion t) (tier_cache t)\<rparr>"
    and "snd (tier_put crc32 F e k c t) = t\<lparr>tier_cache := hybrid_insert F k (Chunk c) (tier_cache t)\<rparr>"
    and "tier_forget F k t = t\<lparr>tier_cache := hybrid_remove F k (tier_cache t)\<rparr>"
  using assms by (simp_all add: tier_get_def tier_put_def get_chunk_def put_chunk_def tier_forget_def Let_def)

lemma view_le: "m \<subseteq>\<^sub>m m' \<Longrightarrow> (\<lambda>k. Option.bind (m k) as_chunk) \<subseteq>\<^sub>m (\<lambda>k. Option.bind (m' k) as_chunk)"
  unfolding map_le_def by (metis bind_eq_None_conv domD domI domIff)

lemma tier_view_simps:
  "tier_store t = Some st \<Longrightarrow> tier_view held t = contents st"
  "tier_store t = None \<Longrightarrow> tier_view held t = (\<lambda>k. Option.bind (held (tier_cache t) k) as_chunk)"
  by (auto simp: tier_view_def)

lemmas tier_sound_simps = tier_sound_def has_store_def tier_stored_def

lemma tier_get_answer:
  assumes "tier_sound crc32 F held m t" "fst (tier_get crc32 F e k t) = Some (Some c)"
  shows "tier_view held t k = Some c"
proof (cases "tier_store t")
  case None
  then obtain v where "read_chunk_entry (\<lambda>k. hybrid_get F k (tier_cache t)) (\<lambda>k. memory_get F k (tier_cache t))
        (\<lambda>k. storage_load F k (after_memory_get F k (tier_cache t))) k (tier_promotion t) = Inr (Some v)" "as_chunk v = Some c"
    using assms(2) by (auto simp: tier_get_def get_chunk_def tier_answer_def Let_def bind_eq_Some_conv map_sum_def split: sum.splits)
  then show ?thesis using read_entry_held [of F held] assms(1) None by (simp add: tier_view_simps tier_sound_def)
next
  case (Some st)
  then show ?thesis using assms store_backend.get_answer [of crc32 st e k c]
    by (simp add: tier_with_store tier_view_simps tier_sound_def)
qed

interpretation tier_backend: chunk_backend "tier_sound crc32 F held m" "tier_view held" "tier_get crc32 F" "tier_put crc32 F"
    "tier_forget F" put_args_ok "tier_stored m" for crc32 F held m
proof (unfold_locales, goal_cases)
  case (1 t e k)
  then show ?case
    by (cases "tier_store t") (auto simp: tier_sound_simps tier_foyer tier_with_store dest: store_backend.get_sound)
next
  case (2 t e k)
  then show ?case
    by (cases "tier_store t")
      (simp_all add: tier_sound_simps tier_foyer tier_with_store tier_view_simps view_le [OF after_read_held] store_backend.get_view [simplified])
next
  case (3 t e k c)
  then show ?case by (rule tier_get_answer)
next
  case (4 t k c e)
  then show ?case
    by (cases "tier_store t") (auto simp: tier_sound_simps tier_foyer tier_with_store dest: store_backend.put_sound)
next
  case (5 t k c e)
  show ?case
  proof (cases "tier_store t")
    case None
    have "tier_view held (snd (tier_put crc32 F e k c t)) \<subseteq>\<^sub>m (\<lambda>k'. Option.bind (((held (tier_cache t))(k \<mapsto> Chunk c)) k') as_chunk)"
      using 5(1) None by (simp add: tier_sound_def tier_foyer tier_view_simps view_le [OF foyer_okD(8)] del: fun_upd_apply)
    also have "\<dots> = (tier_view held t)(k \<mapsto> c)" using None by (auto simp: tier_view_simps)
    finally show ?thesis using 5(1) None by (simp add: tier_sound_simps del: fun_upd_apply)
  next
    case (Some st)
    then show ?thesis using store_backend.put_view [of crc32 st k c e] 5 by (simp add: tier_sound_simps tier_with_store tier_view_simps)
  qed
next
  case (6 t k)
  then show ?case
    by (cases "tier_store t") (auto simp: tier_sound_simps tier_foyer tier_with_store dest: store_backend.drp_sound)
next
  case (7 t k)
  show ?case
  proof (cases "tier_store t")
    case None
    have "tier_view held (tier_forget F k t) \<subseteq>\<^sub>m (\<lambda>k'. Option.bind (((held (tier_cache t))(k := None)) k') as_chunk)"
      using 7 None by (simp add: tier_sound_def tier_foyer tier_view_simps view_le [OF foyer_okD(9)] del: fun_upd_apply)
    also have "\<dots> = (tier_view held t)(k := None)" using None by (auto simp: tier_view_simps)
    finally show ?thesis .
  next
    case (Some st)
    then show ?thesis using store_backend.drp_view [of crc32 st k] 7 by (simp add: tier_sound_def tier_with_store tier_view_simps)
  qed
qed

section \<open>Properties\<close>

text \<open>A tier that holds no chunk yet: an empty hybrid cache, or a store opened on fresh files.\<close>

definition fresh_tier :: "store_config \<Rightarrow> ('f \<Rightarrow> string \<Rightarrow> cache_value option) \<Rightarrow> 'f chunk_tier \<Rightarrow> bool" where
  "fresh_tier cfg held t = (case tier_store t of
      None \<Rightarrow> held (tier_cache t) = Map.empty
    | Some st \<Rightarrow> store_cfg_ok cfg \<and> st_chunk_size cfg < 2 ^ 32 \<and> store_open cfg (\<lambda>_. True) blank_disk = Inr st)"

lemma fresh_tier_sound:
  assumes "fresh_tier cfg held t" "foyer_ok F held"
  shows "tier_sound crc32 F held (has_store t) t" and "tier_view held t k = None"
proof -
  have "store_sound crc32 st \<and> contents st k = None" if "tier_store t = Some st" for st
  proof -
    have st: "store_cfg_ok cfg" "st_chunk_size cfg < 2 ^ 32" "store_open cfg (\<lambda>_. True) blank_disk = Inr st"
      using assms(1) that by (simp_all add: fresh_tier_def)
    then show ?thesis using open_blank(1,3,4) [OF st(1,3)] by (simp add: store_sound_def)
  qed
  then show "tier_sound crc32 F held (has_store t) t" "tier_view held t k = None"
    using assms by (auto simp: tier_sound_def tier_view_def fresh_tier_def split: option.splits)
qed

text \<open>The plainest cache, for examples: it keeps everything, in one map.\<close>

definition map_foyer :: "(string \<Rightarrow> cache_value option, unit) foyer_ops" where
  "map_foyer = \<lparr>hybrid_get = \<lambda>k f. Inr (f k), after_get = \<lambda>k f. f, memory_get = \<lambda>k f. f k, after_memory_get = \<lambda>k f. f,
     storage_load = \<lambda>k f. Inr Miss, after_load = \<lambda>k f. f, hybrid_insert = \<lambda>k v f. f(k \<mapsto> v), hybrid_remove = \<lambda>k f. f(k := None)\<rparr>"

lemma map_foyer_ok: "foyer_ok map_foyer id"
  by (simp add: foyer_ok_def map_foyer_def)

text \<open>
  C8 (the tier never serves a chunk under the wrong key, whichever backend it has): start with an empty tier and let any
  sequence of reads, fills and invalidations go through it, with any system call of the store failing and the
  hybrid cache dropping or declining what it likes. If the hybrid cache keeps to its contract, then a read answers
  only a chunk put under that very key since the key was last forgotten.
\<close>

theorem tier_never_serves_wrong:
  assumes "foyer_ok F held" "fresh_tier cfg held t" "\<forall>x \<in> set ops. args_in put_args_ok x"
    and "fst (get_chunk crc32 F env k (fold (tier_run crc32 F) ops t)) = Some (Inr (Some c))"
  shows "c \<in> live (tier_stored (has_store t)) (rev ops) k"
  by (rule tier_backend.served_live [OF fresh_tier_sound(1) [OF assms(2,1)] assms(3) fresh_tier_sound(2) [OF assms(2,1)], of crc32 env k c])
    (use assms(4) in \<open>simp add: tier_get_def tier_answer_def\<close>)

theorem tier_never_serves_wrong_witness:
  "\<lparr>body = ''abc'', e_tag = None\<rparr> \<in> live (tier_stored False) (rev [BPut io_good ''k'' \<lparr>body = ''abc'', e_tag = None\<rparr>]) ''k''"
proof -
  let ?c = "\<lparr>body = ''abc'', e_tag = None\<rparr> :: cached_chunk" and ?t = "foyer Map.empty Never"
  have "fst (get_chunk (\<lambda>_. 0) map_foyer io_good ''k'' (fold (tier_run (\<lambda>_. 0) map_foyer) [BPut io_good ''k'' ?c] ?t)) = Some (Inr (Some ?c))"
    by (simp add: tier_put_def put_chunk_def get_chunk_def foyer_def map_foyer_def read_chunk_entry_def)
  moreover have "fresh_tier cfg id ?t" for cfg by (simp add: fresh_tier_def foyer_def)
  moreover have "\<forall>x \<in> set [BPut io_good ''k'' ?c]. args_in put_args_ok x" by (simp add: put_args_ok_def byte_in_def)
  moreover have "\<not> has_store ?t" by (simp add: has_store_def foyer_def)
  ultimately show ?thesis
    using tier_never_serves_wrong [OF map_foyer_ok, of undefined ?t "[BPut io_good ''k'' ?c]" "\<lambda>_. 0" io_good "''k''" ?c] by (simp add: tier_stored_def)
qed

text \<open>How a forgotten key reads, from either backend.\<close>

lemma forgotten_unanswered:
  assumes "tier_sound crc32 F held m t"
  shows "fst (get_chunk crc32 F env k (tier_forget F k t)) \<noteq> Some (Inr (Some d))"
proof
  assume "fst (get_chunk crc32 F env k (tier_forget F k t)) = Some (Inr (Some d))"
  then have "tier_view held (tier_forget F k t) k = Some d"
    using tier_get_answer [OF tier_backend.drp_sound [OF assms], of env k k d] by (simp add: tier_get_def tier_answer_def)
  then show False using tier_backend.drp_view [OF assms, of k] by (metis domI fun_upd_same map_le_def option.distinct(1))
qed

text \<open>
  C35 (an invalidation clears the backends the tier was opened with, and misses the other): \<open>forget\<close> is documented to clear both backends unconditionally. On a tier opened with a store it does:
  the key is answered neither by the store nor, were the chunks moved to it, by the hybrid cache. On a tier opened with the hybrid cache alone the key is not answered either; but once the node
  is back on the store it had filled before, the store's chunk is served under the forgotten key.
\<close>

theorem forget_misses_idle_store:
  assumes "foyer_ok F held" "store_cfg_ok cfg" "st_chunk_size cfg < 2 ^ 32" "filled crc32 cfg st"
    and "fst (get_chunk crc32 F io_good k (with_store f st p)) = Some (Inr (Some c))"
  shows "fst (get_chunk crc32 F env k (tier_forget F k (with_store f st p))) \<noteq> Some (Inr (Some d))
    \<and> fst (get_chunk crc32 F env k (foyer (tier_cache (tier_forget F k (with_store f st p))) p')) \<noteq> Some (Inr (Some d))
    \<and> fst (get_chunk crc32 F env k (tier_forget F k (foyer f' p'))) \<noteq> Some (Inr (Some d))
    \<and> (\<exists>st'. store_open cfg (\<lambda>_. True) (sdisk st) = Inr st'
        \<and> fst (get_chunk crc32 F io_good k (with_store (tier_cache (tier_forget F k (foyer f' p'))) st' p)) = Some (Inr (Some c)))"
proof -
  have st: "scfg st = cfg" "store_ok crc32 st" "disk_agrees st" using filled_agrees [OF assms(4,2,3)] by auto
  obtain st' where o: "store_open cfg (\<lambda>_. True) (sdisk st) = Inr st'" "store_ok crc32 st'" "contents st' = contents st"
    using reopen [OF st(2,3), of "\<lambda>_. True"] assms(2) st(1) by metis
  have "fst (store_get crc32 io_good k st') = fst (store_get crc32 io_good k st)"
    using get_correct(4) [OF st(2), of io_good k] get_correct(4) [OF o(2), of io_good k] o(3) by simp
  then have "\<exists>st'. store_open cfg (\<lambda>_. True) (sdisk st) = Inr st'
        \<and> fst (get_chunk crc32 F io_good k (with_store (tier_cache (tier_forget F k (foyer f' p'))) st' p)) = Some (Inr (Some c))"
    using o(1) assms(5) by (auto simp: get_chunk_def with_store_def split: prod.splits)
  moreover have hybrid: "tier_sound crc32 F held False (foyer f1 p1)" for f1 p1 using assms(1) by (simp add: tier_sound_simps foyer_def)
  have "tier_sound crc32 F held True (with_store f st p)" using assms(1,3) st(1,2) by (simp add: tier_sound_simps with_store_def store_sound_def)
  moreover have "foyer (tier_cache (tier_forget F k (with_store f st p))) p' = tier_forget F k (foyer f p')"
    by (simp add: tier_forget_def with_store_def foyer_def Let_def)
  ultimately show ?thesis using forgotten_unanswered hybrid by metis
qed

theorem forget_misses_idle_store_witness:
  "\<exists>(st :: store) st'. store_open tiny_store (\<lambda>_. True) (sdisk st) = Inr st'
    \<and> fst (get_chunk (\<lambda>_. 0) map_foyer io_good ''k'' (tier_forget map_foyer ''k'' (foyer [''k'' \<mapsto> Chunk tiny_chunk] Never))) \<noteq> Some (Inr (Some tiny_chunk))
    \<and> fst (get_chunk (\<lambda>_. 0) map_foyer io_good ''k'' (with_store (tier_cache (tier_forget map_foyer ''k'' (foyer [''k'' \<mapsto> Chunk tiny_chunk] Never))) st' Never))
        = Some (Inr (Some tiny_chunk))"
proof -
  obtain st where st: "filled (\<lambda>_. 0) tiny_store st" "fst (store_get (\<lambda>_. 0) io_good ''k'' st) = Some (Inr (Some tiny_chunk))"
    by (rule tiny_filled [of "\<lambda>_. 0"], rule that)
  then have "fst (get_chunk (\<lambda>_. 0) map_foyer io_good ''k'' (with_store Map.empty st Never)) = Some (Inr (Some tiny_chunk))"
    by (auto simp: get_chunk_def with_store_def split: prod.splits)
  from forget_misses_idle_store [OF map_foyer_ok tiny_ok(1,2) st(1) this, of io_good tiny_chunk Never "[''k'' \<mapsto> Chunk tiny_chunk]"] show ?thesis by blast
qed

end
