(* ===== verification/Admission.thy ===== *)
theory Admission
  imports Complex_Main Numbers "HOL-Library.AList"
begin

text \<open>
  The requester-local admission gate (\<^verbatim>\<open>pacer-cache/src/admission.rs\<close>): a count-min sketch that estimates
  how often a chunk was fetched in the current window, a byte budget per window, the generations it
  vends and the file that keeps them monotonic across restarts, and the record of admitted keys.
  The standard library's \<^verbatim>\<open>DefaultHasher\<close> is unspecified and is the parameter \<open>hash\<close> (of a row's seed
  and a key). Clocks are nanoseconds as \<open>nat\<close>; \<open>duration_since\<close> saturates at zero, as subtraction on
  \<open>nat\<close> does. The gate's lock makes each method one step.
\<close>

section \<open>The sketch\<close>

definition SKETCH_DEPTH :: nat where "SKETCH_DEPTH = 4"
definition SKETCH_WIDTH :: nat where "SKETCH_WIDTH = 2048"

definition ROW_SEEDS :: "u64 list" where
  "ROW_SEEDS = [0x9e3779b97f4a7c15, 0xc2b2ae3d27d4eb4f, 0x165667b19e3779f9, 0xff51afd7ed558ccd]"

type_synonym sketch = "u16 list list"

definition sketch_new :: sketch where
  "sketch_new = replicate SKETCH_DEPTH (replicate SKETCH_WIDTH 0)"

definition col :: "(u64 \<Rightarrow> string \<Rightarrow> u64) \<Rightarrow> nat \<Rightarrow> string \<Rightarrow> nat" where
  "col hash r key = unat (hash (ROW_SEEDS ! r) key mod of_nat SKETCH_WIDTH)"

definition bump :: "(u64 \<Rightarrow> string \<Rightarrow> u64) \<Rightarrow> string \<Rightarrow> nat \<Rightarrow> u16 \<times> sketch \<Rightarrow> u16 \<times> sketch" where
  "bump hash key r acc = (let (est, rows) = acc; c = col hash r key;
     v = saturating_add (rows ! r ! c) 1 in (min est v, rows[r := (rows ! r)[c := v]]))"

definition increment :: "(u64 \<Rightarrow> string \<Rightarrow> u64) \<Rightarrow> string \<Rightarrow> sketch \<Rightarrow> u16 \<times> sketch" where
  "increment hash key rows = fold (bump hash key) [0..<SKETCH_DEPTH] (- 1, rows)"

definition sketch_clear :: "sketch \<Rightarrow> sketch" where
  "sketch_clear rows = replicate SKETCH_DEPTH (replicate SKETCH_WIDTH 0)"

section \<open>The generation file\<close>

definition GENERATION_RESERVE_BLOCK :: u64 where "GENERATION_RESERVE_BLOCK = 1024"
definition REANNOUNCE_TRACKED_KEYS :: nat where "REANNOUNCE_TRACKED_KEYS = 4096"

text \<open>The file's text, or \<open>None\<close> when it is absent or unreadable.\<close>

type_synonym gen_file = "string option"

definition gen_load :: "gen_file \<Rightarrow> u64" where
  "gen_load gf = (case gf of None \<Rightarrow> 0 | Some s \<Rightarrow> (case parse_u64 (trim s) of None \<Rightarrow> 0 | Some g \<Rightarrow> g))"

text \<open>The rename at the end replaces the file at once; a failure anywhere before leaves it.\<close>

definition persist :: "bool \<Rightarrow> u64 \<Rightarrow> gen_file \<Rightarrow> gen_file" where
  "persist works hwm gf = (if works then Some (decimal (unat hwm)) else gf)"

section \<open>Admitted keys\<close>

record admitted_keys =
  ak_cap :: nat
  ak_order :: "string list"
  ak_gens :: "(string, u64) hash_map"

definition admitted_new :: "nat \<Rightarrow> admitted_keys" where
  "admitted_new cap = \<lparr>ak_cap = cap, ak_order = [], ak_gens = []\<rparr>"

definition admitted_insert :: "string \<Rightarrow> u64 \<Rightarrow> admitted_keys \<Rightarrow> admitted_keys" where
  "admitted_insert key generation ak =
     (if map_of (ak_gens ak) key \<noteq> None then ak\<lparr>ak_gens := AList.update key generation (ak_gens ak)\<rparr>
      else let ak = (if ak_cap ak \<le> length (ak_order ak) then (case ak_order ak of
                  old # rest \<Rightarrow> ak\<lparr>ak_order := rest, ak_gens := AList.delete old (ak_gens ak)\<rparr>
                | [] \<Rightarrow> ak) else ak)
        in ak\<lparr>ak_order := ak_order ak @ [key], ak_gens := AList.update key generation (ak_gens ak)\<rparr>)"

definition admitted_snapshot :: "admitted_keys \<Rightarrow> (string \<times> u64) list" where
  "admitted_snapshot ak = ak_gens ak"

section \<open>The gate\<close>

record gate_state =
  sketch :: sketch
  window_start :: nat
  admitted_bytes :: u64
  next_gen :: u64
  reserved_through :: u64
  admitted :: admitted_keys

text \<open>\<open>persistent\<close>: the gate has a generation store.\<close>

record gate =
  threshold :: u16
  window :: nat
  byte_budget :: u64
  persistent :: bool
  gstate :: gate_state

text \<open>
  The budget is a product of \<open>f64\<close> values; \<open>rnd\<close> rounds to the nearest one, and the cast to
  \<open>u64\<close> truncates and saturates.
\<close>

definition budget_of :: "(rat \<Rightarrow> rat) \<Rightarrow> rat \<Rightarrow> u64 \<Rightarrow> u64" where
  "budget_of rnd fraction capacity =
     (let x = rnd (rnd (of_nat (unat capacity)) * max 0 (min 1 fraction)) in
      if x \<ge> 2 ^ 64 then - 1 else of_nat (nat \<lfloor>x\<rfloor>))"

definition gate_new :: "(rat \<Rightarrow> rat) \<Rightarrow> u32 \<Rightarrow> nat \<Rightarrow> rat \<Rightarrow> u64 \<Rightarrow> nat \<Rightarrow> gate" where
  "gate_new rnd thr win fraction capacity start =
     \<lparr>threshold = of_nat (max 1 (min (unat thr) 65535)), window = win, byte_budget = budget_of rnd fraction capacity,
      persistent = False,
      gstate = \<lparr>sketch = sketch_new, window_start = start, admitted_bytes = 0, next_gen = 0, reserved_through = 0,
        admitted = admitted_new REANNOUNCE_TRACKED_KEYS\<rparr>\<rparr>"

definition with_generation_store :: "gen_file \<Rightarrow> gate \<Rightarrow> gate" where
  "with_generation_store gf g = (let hwm = gen_load gf in
     g\<lparr>persistent := True, gstate := (gstate g)\<lparr>next_gen := hwm, reserved_through := hwm\<rparr>\<rparr>)"

definition next_generation :: "bool \<Rightarrow> bool \<Rightarrow> gate_state \<Rightarrow> gen_file \<Rightarrow> u64 \<times> gate_state \<times> gen_file" where
  "next_generation pers works st gf =
     (let generation = next_gen st + 1; st = st\<lparr>next_gen := generation\<rparr> in
      if generation > reserved_through st then
        (let hwm = saturating_add generation (GENERATION_RESERVE_BLOCK - 1) in
         (generation, st\<lparr>reserved_through := hwm\<rparr>, if pers then persist works hwm gf else gf))
      else (generation, st, gf))"

definition roll :: "nat \<Rightarrow> nat \<Rightarrow> gate_state \<Rightarrow> gate_state" where
  "roll win now st = (if win \<le> now - window_start st
     then st\<lparr>sketch := sketch_clear (sketch st), admitted_bytes := 0, window_start := now\<rparr> else st)"

definition admit_at :: "(u64 \<Rightarrow> string \<Rightarrow> u64) \<Rightarrow> bool \<Rightarrow> string \<Rightarrow> u64 \<Rightarrow> nat \<Rightarrow> gate \<Rightarrow> gen_file \<Rightarrow> u64 option \<times> gate \<times> gen_file" where
  "admit_at hash works key len now g gf =
     (let st = roll (window g) now (gstate g);
          (estimate, rows) = increment hash key (sketch st);
          st = st\<lparr>sketch := rows\<rparr>
      in if estimate < threshold g then (None, g\<lparr>gstate := st\<rparr>, gf)
         else if saturating_add (admitted_bytes st) len > byte_budget g then (None, g\<lparr>gstate := st\<rparr>, gf)
         else let st = st\<lparr>admitted_bytes := admitted_bytes st + len\<rparr>;
                  (generation, st, gf) = next_generation (persistent g) works st gf
              in (Some generation, g\<lparr>gstate := st\<lparr>admitted := admitted_insert key generation (admitted st)\<rparr>\<rparr>, gf))"

definition admitted_holdings :: "gate \<Rightarrow> (string \<times> u64) list" where
  "admitted_holdings g = admitted_snapshot (admitted (gstate g))"

section \<open>Runs of a gate\<close>

text \<open>
  One fetch at a time, with the outcome of the write it may do; or a restart, which builds
  a fresh gate with the same settings and reads the file the old one left.
\<close>

datatype gate_op = Fetch string u64 nat bool | Restart nat

text \<open>An admission: the start of its window, the key, the bytes and the generation vended.\<close>

record admission =
  adm_window :: nat
  adm_key :: string
  adm_len :: u64
  adm_gen :: u64

text \<open>The gate, its file and the admissions so far, latest first.\<close>

type_synonym gate_run = "gate \<times> gen_file \<times> admission list"

fun gate_step :: "(u64 \<Rightarrow> string \<Rightarrow> u64) \<Rightarrow> (nat \<Rightarrow> gate) \<Rightarrow> gate_op \<Rightarrow> gate_run \<Rightarrow> gate_run" where
  "gate_step hash fresh (Fetch key len now works) (g, gf, adms) =
     (case admit_at hash works key len now g gf of
        (None, g, gf) \<Rightarrow> (g, gf, adms)
      | (Some n, g, gf) \<Rightarrow> (g, gf, \<lparr>adm_window = window_start (gstate g), adm_key = key, adm_len = len, adm_gen = n\<rparr> # adms))"
| "gate_step hash fresh (Restart now) (g, gf, adms) = (with_generation_store gf (fresh now), gf, adms)"

section \<open>The sketch never underestimates\<close>

definition sketch_ok :: "sketch \<Rightarrow> bool" where
  "sketch_ok rows \<longleftrightarrow> length rows = SKETCH_DEPTH \<and> (\<forall>row \<in> set rows. length row = SKETCH_WIDTH)"

definition cell :: "(u64 \<Rightarrow> string \<Rightarrow> u64) \<Rightarrow> sketch \<Rightarrow> nat \<Rightarrow> string \<Rightarrow> nat" where
  "cell hash rows r key = unat (rows ! r ! col hash r key)"

lemma col_bound: "col hash r key < SKETCH_WIDTH"
proof -
  have "hash (ROW_SEEDS ! r) key mod of_nat SKETCH_WIDTH < of_nat SKETCH_WIDTH"
    by (rule word_mod_less_divisor) (simp add: SKETCH_WIDTH_def)
  then show ?thesis by (simp add: col_def SKETCH_WIDTH_def word_less_nat_alt)
qed

lemma sketch_ok_row: "sketch_ok rows \<Longrightarrow> r < SKETCH_DEPTH \<Longrightarrow> length (rows ! r) = SKETCH_WIDTH"
  by (auto simp: sketch_ok_def)

lemma bump_step: "bump hash key r (e, rows) = (let v = saturating_add (rows ! r ! col hash r key) 1 in
    (min e v, rows[r := (rows ! r)[col hash r key := v]]))"
  by (simp add: bump_def Let_def)

lemma bumped_cell: "unat (saturating_add (rows ! r ! col hash r key) 1) = min (Suc (cell hash rows r key)) 65535" for rows :: sketch
  by (simp add: unat_saturating_add cell_def)

text \<open>The rows below \<open>n\<close> were bumped, the rest not yet.\<close>

lemma bump_rows:
  assumes "sketch_ok rows" "n \<le> SKETCH_DEPTH"
  shows "snd (fold (bump hash key) [0..<n] (e, rows)) =
    map (\<lambda>r. if r < n then (rows ! r)[col hash r key := saturating_add (rows ! r ! col hash r key) 1] else rows ! r) [0..<SKETCH_DEPTH]"
  using assms(2)
proof (induction n)
  case 0
  have "map ((!) rows) [0..<SKETCH_DEPTH] = rows" using assms(1) map_nth [of rows] by (simp add: sketch_ok_def)
  then show ?case by simp
next
  case (Suc n)
  obtain e' rows' where f: "fold (bump hash key) [0..<n] (e, rows) = (e', rows')" by fastforce
  then have "rows' = map (\<lambda>r. if r < n then (rows ! r)[col hash r key := saturating_add (rows ! r ! col hash r key) 1] else rows ! r) [0..<SKETCH_DEPTH]"
    using Suc by simp
  then show ?case using Suc.prems by (auto simp: f bump_step Let_def nth_list_update less_Suc_eq intro!: nth_equalityI)
qed

lemma increment_rows:
  assumes "sketch_ok rows"
  shows "snd (increment hash key rows) =
    map (\<lambda>r. (rows ! r)[col hash r key := saturating_add (rows ! r ! col hash r key) 1]) [0..<SKETCH_DEPTH]"
  using bump_rows [OF assms order_refl] by (simp add: increment_def)

lemma increment_ok: "sketch_ok rows \<Longrightarrow> sketch_ok (snd (increment hash key rows))"
  by (simp add: increment_rows) (auto simp: sketch_ok_def)

lemma increment_cell:
  assumes "sketch_ok rows" "r < SKETCH_DEPTH"
  shows "cell hash (snd (increment hash key rows)) r k =
    (if col hash r k = col hash r key then min (Suc (cell hash rows r k)) 65535 else cell hash rows r k)"
  using assms(2) sketch_ok_row [OF assms] col_bound [of hash r]
  by (auto simp: increment_rows [OF assms(1)] cell_def unat_saturating_add)

text \<open>The estimate is the smallest of the key's counters.\<close>

lemma bump_estimate:
  assumes "sketch_ok rows" "n \<le> SKETCH_DEPTH"
  shows "fst (fold (bump hash key) [0..<n] (e, rows)) =
    fold (\<lambda>r. min (saturating_add (rows ! r ! col hash r key) 1)) [0..<n] e"
  using assms(2)
proof (induction n)
  case (Suc n)
  obtain e' rows' where f: "fold (bump hash key) [0..<n] (e, rows) = (e', rows')" by fastforce
  have "rows' ! n = rows ! n" using bump_rows [OF assms(1), of n hash key e] Suc.prems f by simp
  moreover have "e' = fold (\<lambda>r. min (saturating_add (rows ! r ! col hash r key) 1)) [0..<n] e" using Suc f by simp
  ultimately show ?case by (simp add: f bump_step Let_def) (rule min.commute)
qed simp

lemma fold_min_ge: "fold (\<lambda>r. min (f r)) rs e \<ge> b \<longleftrightarrow> e \<ge> b \<and> (\<forall>r \<in> set rs. f r \<ge> b)" for b :: "'a::linorder"
  by (induction rs arbitrary: e) auto

lemma estimate_ge:
  fixes b :: u16
  assumes "sketch_ok rows"
  shows "unat b \<le> unat (fst (increment hash key rows)) \<longleftrightarrow> (\<forall>r < SKETCH_DEPTH. unat b \<le> cell hash (snd (increment hash key rows)) r key)"
proof -
  have "b \<le> fst (increment hash key rows) \<longleftrightarrow> (\<forall>r < SKETCH_DEPTH. b \<le> saturating_add (rows ! r ! col hash r key) 1)"
    unfolding increment_def bump_estimate [OF assms order_refl] fold_min_ge by auto
  then show ?thesis
    by (simp add: increment_cell [OF assms] word_le_nat_alt bumped_cell)
qed

text \<open>Counters against the list of keys fetched since the sketch was last cleared.\<close>

definition counts :: "(u64 \<Rightarrow> string \<Rightarrow> u64) \<Rightarrow> sketch \<Rightarrow> string list \<Rightarrow> bool" where
  "counts hash rows ks \<longleftrightarrow> sketch_ok rows \<and> (\<forall>r < SKETCH_DEPTH. \<forall>k.
     cell hash rows r k = min (length (filter (\<lambda>k'. col hash r k' = col hash r k) ks)) 65535)"

lemma counts_clear: "counts hash (sketch_clear rows) []" "counts hash sketch_new []"
  using col_bound by (auto simp: counts_def sketch_clear_def sketch_new_def sketch_ok_def cell_def)

lemma counts_increment:
  assumes "counts hash rows ks"
  shows "counts hash (snd (increment hash key rows)) (key # ks)"
  using assms by (auto simp: counts_def increment_ok increment_cell)

lemma estimate_hot:
  assumes "counts hash rows ks" "unat t \<le> Suc (count_list ks key)"
  shows "t \<le> fst (increment hash key rows)"
proof -
  have ok: "sketch_ok rows" using assms(1) by (simp add: counts_def)
  have c: "count_list ks key = length (filter (\<lambda>k. k = key) ks)" by (simp add: count_list_eq_length_filter) (metis (mono_tags))
  have l: "length (filter (\<lambda>k. k = key) ks) \<le> length (filter (\<lambda>k. col hash r k = col hash r key) ks)" for r
    by (induction ks) auto
  have b: "unat t \<le> 65535" using unat_bound [of t] by simp
  have le: "unat t \<le> min (Suc (length (filter (\<lambda>k. col hash r k = col hash r key) ks))) 65535" for r
    using assms(2) c l [of r] b by linarith
  have "unat t \<le> cell hash (snd (increment hash key rows)) r key" if "r < SKETCH_DEPTH" for r
    using counts_increment [OF assms(1), of key] le [of r] that by (simp add: counts_def)
  then show ?thesis using estimate_ge [OF ok, of t hash key] by (simp add: word_le_nat_alt)
qed

lemma estimate_cold:
  assumes "counts hash rows ks" "t \<le> fst (increment hash key rows)" "r < SKETCH_DEPTH"
  shows "unat t \<le> Suc (length (filter (\<lambda>k. col hash r k = col hash r key) ks))"
proof -
  have "unat t \<le> cell hash (snd (increment hash key rows)) r key"
    using estimate_ge [of rows t hash key] assms by (auto simp: counts_def word_le_nat_alt)
  then show ?thesis using counts_increment [OF assms(1), of key] assms(3) by (auto simp: counts_def)
qed

section \<open>One fetch\<close>

lemma roll_sel [simp]:
  "next_gen (roll win now st) = next_gen st" "reserved_through (roll win now st) = reserved_through st"
  "admitted (roll win now st) = admitted st"
  by (simp_all add: roll_def)

lemma next_generation_parts:
  assumes "next_generation pers works st gf = (n, st', gf')"
  shows "n = next_gen st + 1" and "next_gen st' = n" and "sketch st' = sketch st" and "window_start st' = window_start st"
    and "admitted_bytes st' = admitted_bytes st" and "admitted st' = admitted st"
    and "reserved_through st' = (if n > reserved_through st then saturating_add n 1023 else reserved_through st)"
    and "gf' = (if n > reserved_through st \<and> pers then persist works (reserved_through st') gf else gf)"
  using assms by (auto simp: next_generation_def Let_def GENERATION_RESERVE_BLOCK_def split: if_splits)

text \<open>A fetch either only counts, or is admitted with the next generation.\<close>

lemma admit_parts:
  fixes hash works key len now g gf
  defines "st \<equiv> roll (window g) now (gstate g)"
  defines "est \<equiv> fst (increment hash key (sketch st))" and "rows \<equiv> snd (increment hash key (sketch st))"
  assumes "admit_at hash works key len now g gf = (r, g', gf')"
  shows "threshold g' = threshold g" and "window g' = window g" and "byte_budget g' = byte_budget g" and "persistent g' = persistent g"
    and "sketch (gstate g') = rows" and "window_start (gstate g') = window_start st"
    and "r = None \<longleftrightarrow> est < threshold g \<or> byte_budget g < saturating_add (admitted_bytes st) len"
    and "r = None \<Longrightarrow> admitted_bytes (gstate g') = admitted_bytes st \<and> next_gen (gstate g') = next_gen (gstate g)
      \<and> reserved_through (gstate g') = reserved_through (gstate g) \<and> admitted (gstate g') = admitted (gstate g) \<and> gf' = gf"
    and "r = Some n \<Longrightarrow> n = next_gen (gstate g) + 1 \<and> admitted_bytes (gstate g') = admitted_bytes st + len \<and> next_gen (gstate g') = n
      \<and> reserved_through (gstate g') = (if n > reserved_through (gstate g) then saturating_add n 1023 else reserved_through (gstate g))
      \<and> gf' = (if n > reserved_through (gstate g) \<and> persistent g then persist works (reserved_through (gstate g')) gf else gf)
      \<and> admitted (gstate g') = admitted_insert key n (admitted (gstate g))"
proof -
  have inc: "increment hash key (sketch st) = (est, rows)" by (simp add: est_def rows_def)
  let ?st = "st\<lparr>sketch := rows, admitted_bytes := admitted_bytes st + len\<rparr>"
  obtain n1 st1 f1 where ng: "next_generation (persistent g) works ?st gf = (n1, st1, f1)" by (metis prod_cases3)
  note p = next_generation_parts [OF ng]
  have a: "admit_at hash works key len now g gf =
      (if est < threshold g \<or> byte_budget g < saturating_add (admitted_bytes st) len then (None, g\<lparr>gstate := st\<lparr>sketch := rows\<rparr>\<rparr>, gf)
       else (Some n1, g\<lparr>gstate := st1\<lparr>admitted := admitted_insert key n1 (admitted st1)\<rparr>\<rparr>, f1))"
    using inc ng by (simp add: admit_at_def Let_def st_def [symmetric])
  have s: "next_gen st = next_gen (gstate g)" "reserved_through st = reserved_through (gstate g)" "admitted st = admitted (gstate g)"
    by (simp_all add: st_def)
  show "threshold g' = threshold g" "window g' = window g" "byte_budget g' = byte_budget g" "persistent g' = persistent g"
    "sketch (gstate g') = rows" "window_start (gstate g') = window_start st"
    "r = None \<longleftrightarrow> est < threshold g \<or> byte_budget g < saturating_add (admitted_bytes st) len"
    using assms(4) unfolding a by (auto simp: p split: if_splits)
  show "r = None \<Longrightarrow> admitted_bytes (gstate g') = admitted_bytes st \<and> next_gen (gstate g') = next_gen (gstate g)
      \<and> reserved_through (gstate g') = reserved_through (gstate g) \<and> admitted (gstate g') = admitted (gstate g) \<and> gf' = gf"
    using assms(4) s unfolding a by (auto split: if_splits)
  show "r = Some n \<Longrightarrow> n = next_gen (gstate g) + 1 \<and> admitted_bytes (gstate g') = admitted_bytes st + len \<and> next_gen (gstate g') = n
      \<and> reserved_through (gstate g') = (if n > reserved_through (gstate g) then saturating_add n 1023 else reserved_through (gstate g))
      \<and> gf' = (if n > reserved_through (gstate g) \<and> persistent g then persist works (reserved_through (gstate g')) gf else gf)
      \<and> admitted (gstate g') = admitted_insert key n (admitted (gstate g))"
    using assms(4) s unfolding a by (auto simp: p split: if_splits)
qed

section \<open>Generations across restarts\<close>

lemma gen_load_persist: "gen_load (persist True hwm gf) = hwm"
  by (simp add: gen_load_def persist_def trim_decimal parse_u64_decimal)

text \<open>\<open>b\<close> is where the generations started; \<open>m\<close> bounds how far the reservation has climbed.\<close>

fun gens_ok :: "u64 \<Rightarrow> nat \<Rightarrow> gate_run \<Rightarrow> bool" where
  "gens_ok b m (g, gf, adms) \<longleftrightarrow> persistent g \<and> next_gen (gstate g) \<le> reserved_through (gstate g)
     \<and> gen_load gf = reserved_through (gstate g) \<and> unat (reserved_through (gstate g)) \<le> m
     \<and> sorted_wrt (>) (map adm_gen adms) \<and> b \<le> next_gen (gstate g)
     \<and> (\<forall>a \<in> set adms. b < adm_gen a \<and> adm_gen a \<le> next_gen (gstate g))"

fun writes_work :: "gate_op \<Rightarrow> bool" where
  "writes_work (Fetch _ _ _ works) = works"
| "writes_work (Restart _) = True"

lemma gens_ok_step:
  assumes "gens_ok b m run" "writes_work x" "m + 1024 < 2 ^ 64"
  shows "gens_ok b (m + 1024) (gate_step hash fresh x run)"
proof -
  obtain g gf adms where run: "run = (g, gf, adms)" by (metis prod_cases3)
  show ?thesis
  proof (cases x)
    case (Fetch key len now works)
    obtain r g' gf' where a: "admit_at hash works key len now g gf = (r, g', gf')" by (metis prod_cases3)
    note p = admit_parts [OF a]
    show ?thesis
    proof (cases r)
      case None
      then show ?thesis using assms(1) p(4,8) Fetch by (auto simp: run a)
    next
      case (Some n)
      note q = p(9) [OF Some] and w = assms(2) [unfolded Fetch writes_work.simps]
      let ?ng = "next_gen (gstate g)" and ?rt = "reserved_through (gstate g)"
      have le: "unat ?ng \<le> unat ?rt" "unat ?rt \<le> m" using assms(1) by (auto simp: run word_le_nat_alt)
      then have n: "unat n = unat ?ng + 1" using q assms(3) by (simp add: unat_add_no_wrap)
      have rt: "unat (reserved_through (gstate g')) \<le> m + 1024" "n \<le> reserved_through (gstate g')"
        using q n le assms(3) by (auto simp: word_less_nat_alt word_le_nat_alt unat_saturating_add)
      have f: "gen_load gf' = reserved_through (gstate g')" using q w assms(1) by (auto simp: run gen_load_persist)
      have "\<forall>a \<in> set adms. adm_gen a < n" using assms(1) n by (auto simp: run word_le_nat_alt word_less_nat_alt)
      then show ?thesis using assms(1) p(4) q rt f n Fetch Some by (auto simp: run a word_le_nat_alt word_less_nat_alt)
    qed
  next
    case (Restart now)
    then show ?thesis using assms(1)
      by (auto simp: run with_generation_store_def Let_def intro: order.trans)
  qed
qed

lemma gens_ok_run:
  "gens_ok b m run \<Longrightarrow> \<forall>x \<in> set ops. writes_work x \<Longrightarrow> m + 1024 * length ops < 2 ^ 64 \<Longrightarrow>
    gens_ok b (m + 1024 * length ops) (fold (gate_step hash fresh) ops run)"
proof (induction ops arbitrary: m run)
  case (Cons x ops)
  have "gens_ok b (m + 1024) (gate_step hash fresh x run)"
    by (rule gens_ok_step [OF Cons.prems(1)]) (use Cons.prems(2,3) in simp_all)
  from Cons.IH [OF this] Cons.prems(2,3) show ?case by (simp add: algebra_simps)
qed simp

section \<open>The byte budget of a window\<close>

definition bytes_in :: "nat \<Rightarrow> admission list \<Rightarrow> nat" where
  "bytes_in w adms = sum_list (map (\<lambda>a. unat (adm_len a)) (filter (\<lambda>a. adm_window a = w) adms))"

fun within_budget :: "gate_run \<Rightarrow> bool" where
  "within_budget (g, gf, adms) \<longleftrightarrow> 0 < window g \<and> byte_budget g \<noteq> - 1 \<and> unat (admitted_bytes (gstate g)) = bytes_in (window_start (gstate g)) adms
     \<and> (\<forall>a \<in> set adms. adm_window a \<le> window_start (gstate g)) \<and> (\<forall>w. bytes_in w adms \<le> unat (byte_budget g))"

fun is_fetch :: "gate_op \<Rightarrow> bool" where
  "is_fetch (Fetch _ _ _ _) = True"
| "is_fetch (Restart _) = False"

lemma bytes_in_none: "\<forall>a \<in> set adms. adm_window a < w \<Longrightarrow> bytes_in w adms = 0"
  by (auto simp: bytes_in_def filter_empty_conv)

lemma within_budget_roll:
  assumes "within_budget (g, gf, adms)"
  shows "within_budget (g\<lparr>gstate := roll (window g) now (gstate g)\<rparr>, gf, adms)"
proof (cases "window g \<le> now - window_start (gstate g)")
  case True
  have "0 < window g" using assms by simp
  then have "window_start (gstate g) < now" using True by arith
  then have "\<forall>a \<in> set adms. adm_window a < now" using assms by auto
  then show ?thesis using assms True bytes_in_none by (auto simp: roll_def)
qed (use assms in \<open>simp add: roll_def\<close>)

lemma unat_not_max: "w \<noteq> - 1 \<Longrightarrow> unat w < 2 ^ 64 - 1" for w :: u64
proof -
  assume "w \<noteq> - 1"
  then have "unat w \<noteq> 2 ^ 64 - 1" using unat_max_value [where 'a = 64] by (simp add: word_unat_eq_iff)
  then show ?thesis using unat_bound [of w] by simp
qed

lemma within_budget_step:
  assumes "within_budget run" "is_fetch x"
  shows "within_budget (gate_step hash fresh x run) \<and> byte_budget (fst (gate_step hash fresh x run)) = byte_budget (fst run)"
proof -
  obtain g gf adms where run: "run = (g, gf, adms)" by (metis prod_cases3)
  obtain key len now works where x: "x = Fetch key len now works" using assms(2) by (cases x) auto
  obtain r g' gf' where a: "admit_at hash works key len now g gf = (r, g', gf')" by (metis prod_cases3)
  note p = admit_parts [OF a]
  let ?st = "roll (window g) now (gstate g)"
  have b: "within_budget (g\<lparr>gstate := ?st\<rparr>, gf, adms)" using within_budget_roll assms(1) run by blast
  show ?thesis
  proof (cases r)
    case None
    then show ?thesis using b p(2,3,6,8) by (simp add: run x a)
  next
    case (Some n)
    have fits: "\<not> byte_budget g < saturating_add (admitted_bytes ?st) len" using p(7) Some by simp
    have sum: "unat (admitted_bytes ?st) + unat len \<le> unat (byte_budget g)"
      using fits unat_not_max [of "byte_budget g"] b by (auto simp: word_less_nat_alt unat_saturating_add min_def split: if_splits)
    then have "unat (admitted_bytes ?st + len) = unat (admitted_bytes ?st) + unat len"
      using unat_bound [of "byte_budget g"] by (intro unat_add_no_wrap) simp
    then show ?thesis using b p(2,3,6) p(9) [OF Some] sum by (auto simp: run x a Some bytes_in_def)
  qed
qed

lemma within_budget_run:
  "within_budget run \<Longrightarrow> \<forall>x \<in> set ops. is_fetch x \<Longrightarrow> within_budget (fold (gate_step hash fresh) ops run)
    \<and> byte_budget (fst (fold (gate_step hash fresh) ops run)) = byte_budget (fst run)"
  by (induction ops arbitrary: run) (auto simp: within_budget_step)

section \<open>Heat within a window\<close>

text \<open>
  What the gate should know after each operation: when the current window began, and the keys fetched in it, latest first. A fetch a full window
  or more after the start begins a new window; so does a restart.
\<close>

fun window_log :: "nat \<Rightarrow> gate_op \<Rightarrow> nat \<times> string list \<Rightarrow> nat \<times> string list" where
  "window_log win (Fetch key _ now _) (began, keys) = (if win \<le> now - began then (now, [key]) else (began, key # keys))"
| "window_log win (Restart now) _ = (now, [])"

definition follows_log :: "(u64 \<Rightarrow> string \<Rightarrow> u64) \<Rightarrow> gate \<Rightarrow> nat \<times> string list \<Rightarrow> gate \<Rightarrow> bool" where
  "follows_log hash g0 wl g \<longleftrightarrow> threshold g = threshold g0 \<and> window g = window g0 \<and> byte_budget g = byte_budget g0
     \<and> window_start (gstate g) = fst wl \<and> counts hash (sketch (gstate g)) (snd wl)"

lemma roll_logged:
  assumes "follows_log hash g0 (began, keys) g"
  shows "roll (window g) now (gstate g) = (if window g0 \<le> now - began
      then (gstate g)\<lparr>sketch := sketch_clear (sketch (gstate g)), admitted_bytes := 0, window_start := now\<rparr> else gstate g)"
    and "counts hash (sketch (roll (window g) now (gstate g))) (if window g0 \<le> now - began then [] else keys)"
  using assms by (auto simp: follows_log_def roll_def counts_clear)

lemma logged_step:
  assumes "follows_log hash g0 wl g" "\<And>t gf. follows_log hash g0 (t, []) (with_generation_store gf (fresh t))"
    and "gate_step hash fresh x (g, gf, adms) = (g1, gf1, adms1)"
  shows "follows_log hash g0 (window_log (window g0) x wl) g1"
proof (cases x)
  case (Fetch key len now works)
  obtain began keys where l: "wl = (began, keys)" by fastforce
  obtain r g' gf' where a: "admit_at hash works key len now g gf = (r, g', gf')" by (metis prod_cases3)
  have g1: "g1 = g'" using assms(3) a Fetch by (cases r) auto
  note p = admit_parts(1-3,5,6) [OF a] and q = roll_logged [OF assms(1) [unfolded l], of now]
  show ?thesis using assms(1) p q(1) counts_increment [OF q(2), of key] unfolding g1 Fetch l
    by (auto simp: follows_log_def split: if_splits)
qed (use assms(2,3) in auto)

lemma logged_run:
  assumes "follows_log hash g0 wl g" "\<And>t gf. follows_log hash g0 (t, []) (with_generation_store gf (fresh t))"
    and "fold (gate_step hash fresh) ops (g, gf, adms) = (g', gf', adms')"
  shows "follows_log hash g0 (fold (window_log (window g0)) ops wl) g'"
  using assms(1,3)
proof (induction ops arbitrary: g gf adms wl)
  case (Cons x ops)
  obtain g1 gf1 adms1 where s: "gate_step hash fresh x (g, gf, adms) = (g1, gf1, adms1)" by (metis prod_cases3)
  show ?case using Cons.IH [OF logged_step [OF Cons.prems(1) assms(2) s]] Cons.prems(2) s by simp
qed simp

section \<open>The record of admitted keys\<close>

definition admitted_ok :: "admitted_keys \<Rightarrow> bool" where
  "admitted_ok ak \<longleftrightarrow> distinct (ak_order ak) \<and> keys_distinct (ak_gens ak) \<and> set (ak_order ak) = fst ` set (ak_gens ak)
     \<and> 0 < ak_cap ak \<and> length (ak_order ak) \<le> ak_cap ak"

lemma admitted_new_ok: "0 < cap \<Longrightarrow> admitted_ok (admitted_new cap)"
  by (simp add: admitted_ok_def admitted_new_def)

lemma delete_keys_set: "fst ` set (AList.delete k m) = fst ` set m - {k}"
  by (auto simp: AList.delete_eq)

lemma admitted_insert_ok:
  assumes "admitted_ok ak"
  shows "admitted_ok (admitted_insert k n ak)" and "ak_cap (admitted_insert k n ak) = ak_cap ak"
    and "map_of (ak_gens (admitted_insert k n ak)) j = Some m \<Longrightarrow> if j = k then m = n else map_of (ak_gens ak) j = Some m"
    and "map_of (ak_gens (admitted_insert k n ak)) k = Some n"
proof -
  have upd: "admitted_ok (ak\<lparr>ak_gens := AList.update k n (ak_gens ak)\<rparr>)" if "map_of (ak_gens ak) k \<noteq> None"
    using assms that by (auto simp: admitted_ok_def dom_update distinct_update map_of_eq_None_iff)
  consider "map_of (ak_gens ak) k \<noteq> None" | "map_of (ak_gens ak) k = None" "length (ak_order ak) < ak_cap ak"
    | old rest where "map_of (ak_gens ak) k = None" "length (ak_order ak) = ak_cap ak" "ak_order ak = old # rest"
  proof -
    have "ak_order ak \<noteq> []" if "length (ak_order ak) = ak_cap ak" using assms that by (auto simp: admitted_ok_def)
    moreover have "length (ak_order ak) \<le> ak_cap ak" using assms by (simp add: admitted_ok_def)
    ultimately show thesis using that by (metis le_neq_implies_less neq_Nil_conv)
  qed
  then have "admitted_ok (admitted_insert k n ak) \<and> ak_cap (admitted_insert k n ak) = ak_cap ak
      \<and> (map_of (ak_gens (admitted_insert k n ak)) j = Some m \<longrightarrow> (if j = k then m = n else map_of (ak_gens ak) j = Some m))
      \<and> map_of (ak_gens (admitted_insert k n ak)) k = Some n"
  proof cases
    case 1
    then show ?thesis using upd by (auto simp: admitted_insert_def update_conv')
  next
    case 2
    then show ?thesis using assms
      by (auto simp: admitted_insert_def admitted_ok_def dom_update distinct_update map_of_eq_None_iff update_conv')
  next
    case 3
    then show ?thesis using assms
      by (auto simp: admitted_insert_def admitted_ok_def dom_update distinct_update distinct_delete map_of_eq_None_iff update_conv' delete_conv' delete_keys_set
          split: if_splits)
  qed
  then show "admitted_ok (admitted_insert k n ak)" "ak_cap (admitted_insert k n ak) = ak_cap ak"
    "map_of (ak_gens (admitted_insert k n ak)) j = Some m \<Longrightarrow> if j = k then m = n else map_of (ak_gens ak) j = Some m"
    "map_of (ak_gens (admitted_insert k n ak)) k = Some n" by auto
qed

fun holdings_ok :: "gate_run \<Rightarrow> bool" where
  "holdings_ok (g, gf, adms) \<longleftrightarrow> admitted_ok (admitted (gstate g)) \<and> ak_cap (admitted (gstate g)) = REANNOUNCE_TRACKED_KEYS
     \<and> (\<forall>k n. map_of (ak_gens (admitted (gstate g))) k = Some n \<longrightarrow> map_of (map (\<lambda>a. (adm_key a, adm_gen a)) adms) k = Some n)"

lemma fresh_holdings: "holdings_ok (with_generation_store gf (gate_new rnd thr win fraction capacity t), gf, adms)"
  by (simp add: with_generation_store_def Let_def gate_new_def admitted_new_ok REANNOUNCE_TRACKED_KEYS_def) (simp add: admitted_new_def)

lemma holdings_step:
  assumes "holdings_ok run"
  shows "holdings_ok (gate_step hash (gate_new rnd thr win fraction capacity) x run)"
proof -
  obtain g gf adms where run: "run = (g, gf, adms)" by (metis prod_cases3)
  show ?thesis
  proof (cases x)
    case (Fetch key len now works)
    obtain r g' gf' where a: "admit_at hash works key len now g gf = (r, g', gf')" by (metis prod_cases3)
    show ?thesis
    proof (cases r)
      case None
      then show ?thesis using assms admit_parts(8) [OF a] Fetch by (simp add: run a)
    next
      case (Some n)
      then have ad: "admitted (gstate g') = admitted_insert key n (admitted (gstate g))" using admit_parts(9) [OF a] by simp
      have ok: "admitted_ok (admitted (gstate g))" using assms by (simp add: run)
      note i = admitted_insert_ok(1,2) [OF ok, of key n]
      have "map_of (map (\<lambda>a. (adm_key a, adm_gen a)) (\<lparr>adm_window = w, adm_key = key, adm_len = len, adm_gen = n\<rparr> # adms)) k = Some m"
        if "map_of (ak_gens (admitted (gstate g'))) k = Some m" for k m w
        using admitted_insert_ok(3) [OF ok, of key n k m] that assms by (auto simp: run ad split: if_splits)
      then show ?thesis using i assms Fetch Some by (simp add: run a ad)
    qed
  qed (simp add: run fresh_holdings del: holdings_ok.simps)
qed

interpretation gate_runs: invariant_system
    "\<lambda>run. \<exists>gf t. run = (with_generation_store gf (gate_new rnd thr win fraction capacity t), gf, [])"
    "gate_step hash (gate_new rnd thr win fraction capacity)" holdings_ok
    for hash rnd thr win fraction capacity
  by unfold_locales (auto simp: fresh_holdings holdings_step simp del: holdings_ok.simps gate_step.simps)

section \<open>Properties\<close>

abbreviation gate_opened :: "(rat \<Rightarrow> rat) \<Rightarrow> u32 \<Rightarrow> nat \<Rightarrow> rat \<Rightarrow> u64 \<Rightarrow> gen_file \<Rightarrow> nat \<Rightarrow> gate_run" where
  "gate_opened rnd thr win fraction capacity gf t \<equiv> (with_generation_store gf (gate_new rnd thr win fraction capacity t), gf, [])"

lemma opened_gens: "gens_ok (gen_load gf) (unat (gen_load gf)) (gate_opened rnd thr win fraction capacity gf t)"
  by (simp add: with_generation_store_def Let_def)

lemma opened_budget:
  "0 < win \<Longrightarrow> budget_of rnd fraction capacity \<noteq> - 1 \<Longrightarrow> within_budget (gate_opened rnd thr win fraction capacity gf t)"
  by (simp add: with_generation_store_def Let_def gate_new_def bytes_in_def)

text \<open>The first fetch of a gate with threshold one.\<close>

lemma first_fetch:
  assumes "unat len \<le> unat (budget_of rnd fraction capacity)" "now < t + win" "0 < win" "gen_load gf < gen_load gf + 1"
  shows "\<exists>g'. gate_step hash fresh (Fetch key len now works) (with_generation_store gf (gate_new rnd 1 win fraction capacity t), gf, adms) =
    (g', persist works (saturating_add (gen_load gf + 1) 1023) gf, \<lparr>adm_window = t, adm_key = key, adm_len = len, adm_gen = gen_load gf + 1\<rparr> # adms)"
proof -
  let ?g = "with_generation_store gf (gate_new rnd 1 win fraction capacity t)"
  have g: "window_start (gstate ?g) = t" "window ?g = win" "counts hash (sketch (gstate ?g)) []" "threshold ?g = 1"
      "byte_budget ?g = budget_of rnd fraction capacity" "admitted_bytes (gstate ?g) = 0" "next_gen (gstate ?g) = gen_load gf"
      "reserved_through (gstate ?g) = gen_load gf" "persistent ?g"
    by (simp_all add: with_generation_store_def Let_def gate_new_def counts_clear)
  obtain r g' gf' where a: "admit_at hash works key len now ?g gf = (r, g', gf')" by (metis prod_cases3)
  have roll: "roll (window ?g) now (gstate ?g) = gstate ?g" using g(1,2) assms(2,3) by (auto simp: roll_def)
  note p = admit_parts [OF a, unfolded roll]
  have "1 \<le> fst (increment hash key (sketch (gstate ?g)))" by (rule estimate_hot [OF g(3)]) simp
  then have "r \<noteq> None" using p(7) g(4,5,6) assms(1) by (auto simp: word_less_nat_alt word_le_nat_alt unat_saturating_add)
  then obtain n where "r = Some n" by blast
  then show ?thesis using p(6) p(9) [of n] g assms(4) by (simp add: a)
qed

lemma example_budget: "budget_of id 1 1000 = 1000"
  by (simp add: budget_of_def)

lemma example_load: "gen_load (Some ''7'') = 7"
proof -
  have "trim ''7'' = ''7''" by (rule trim_graphic) (simp_all add: graphic_def)
  then show ?thesis by (simp add: gen_load_def parse_u64_def from_str_radix_def to_digit_def)
qed

text \<open>
  C12 (a generation is never vended twice, restarts included): run a gate with a generation store through any
  sequence of fetches and restarts, each restart a crash that loses everything but the
  file. When the writes of the file succeed and the 64-bit counter does not run out, the generations of the
  admissions strictly increase over the whole history, and all exceed the mark the first process found.
\<close>

theorem generations_strictly_increase:
  assumes "\<forall>x \<in> set ops. writes_work x" "unat (gen_load gf) + 1024 * length ops < 2 ^ 64"
    and "fold (gate_step hash (gate_new rnd thr win fraction capacity)) ops (gate_opened rnd thr win fraction capacity gf t) = (g', gf', adms)"
  shows "sorted_wrt (>) (map adm_gen adms) \<and> (\<forall>a \<in> set adms. gen_load gf < adm_gen a)"
  using gens_ok_run [OF opened_gens assms(1,2), of hash "gate_new rnd thr win fraction capacity" rnd thr win fraction capacity t] assms(3) by simp

theorem generations_strictly_increase_witness:
  "\<exists>g gf adms. fold (gate_step (\<lambda>_ _. 0) (gate_new id 1 10 1 1000)) [Fetch ''a'' 5 0 True, Restart 3, Fetch ''a'' 5 4 True]
       (gate_opened id 1 10 1 1000 (Some ''7'') 0) = (g, gf, adms)
     \<and> map adm_gen adms = [1032, 8] \<and> sorted_wrt (>) (map adm_gen adms)"
proof -
  let ?h = "\<lambda>_ _. 0" and ?f = "gate_new id 1 10 1 1000"
  obtain g1 where 1: "gate_step ?h ?f (Fetch ''a'' 5 0 True) (with_generation_store (Some ''7'') (?f 0), Some ''7'', []) =
      (g1, persist True 1031 (Some ''7''), [\<lparr>adm_window = 0, adm_key = ''a'', adm_len = 5, adm_gen = 8\<rparr>])"
    using first_fetch [where len = 5 and rnd = id and fraction = 1 and capacity = 1000 and gf = "Some ''7''" and now = 0 and t = 0 and win = 10
        and hash = ?h and fresh = ?f and key = "''a''" and works = True and adms = "[]"]
    by (auto simp: example_budget example_load saturating_add_def simp del: gate_step.simps)
  obtain g2 where 2: "gate_step ?h ?f (Fetch ''a'' 5 4 True) (with_generation_store (persist True 1031 (Some ''7'')) (?f 3), persist True 1031 (Some ''7''),
        [\<lparr>adm_window = 0, adm_key = ''a'', adm_len = 5, adm_gen = 8\<rparr>]) =
      (g2, persist True 2055 (persist True 1031 (Some ''7'')),
        [\<lparr>adm_window = 3, adm_key = ''a'', adm_len = 5, adm_gen = 1032\<rparr>, \<lparr>adm_window = 0, adm_key = ''a'', adm_len = 5, adm_gen = 8\<rparr>])"
    using first_fetch [where len = 5 and rnd = id and fraction = 1 and capacity = 1000 and gf = "persist True 1031 (Some ''7'')" and now = 4 and t = 3 and win = 10
        and hash = ?h and fresh = ?f and key = "''a''" and works = True]
    by (auto simp: example_budget gen_load_persist saturating_add_def simp del: gate_step.simps)
  show ?thesis
    using 1 2 generations_strictly_increase [of "[Fetch ''a'' 5 0 True, Restart 3, Fetch ''a'' 5 4 True]" "Some ''7''" ?h id 1 10 1 1000 0]
    by (simp add: example_load del: gate_step.simps(1))
qed

text \<open>
  C27 (a window's byte budget is never exceeded): for every window, the bytes of the chunks admitted in it sum to at most the budget,
  whatever is fetched.
\<close>

theorem window_budget_respected:
  assumes "0 < win" "budget_of rnd fraction capacity \<noteq> - 1" "\<forall>x \<in> set ops. is_fetch x"
    and "fold (gate_step hash fresh) ops (gate_opened rnd thr win fraction capacity gf t) = (g', gf', adms)"
  shows "sum_list (map (\<lambda>a. unat (adm_len a)) (filter (\<lambda>a. adm_window a = w) adms)) \<le> unat (budget_of rnd fraction capacity)"
proof -
  from within_budget_run [OF opened_budget [OF assms(1,2)] assms(3), of hash fresh gf thr t]
  have "within_budget (g', gf', adms)" "byte_budget g' = byte_budget (with_generation_store gf (gate_new rnd thr win fraction capacity t))"
    unfolding assms(4) by (simp_all del: within_budget.simps)
  then show ?thesis by (simp add: bytes_in_def with_generation_store_def Let_def gate_new_def)
qed

theorem window_budget_respected_witness:
  "\<exists>g gf adms. fold (gate_step (\<lambda>_ _. 0) (gate_new id 1 10 1 1000)) [Fetch ''a'' 5 0 True] (gate_opened id 1 10 1 1000 None 0) = (g, gf, adms)
     \<and> map adm_key adms = [''a''] \<and> sum_list (map (\<lambda>a. unat (adm_len a)) (filter (\<lambda>a. adm_window a = 0) adms)) \<le> 1000"
proof -
  obtain g1 gf1 a where f: "gate_step (\<lambda>_ _. 0) (gate_new id 1 10 1 1000) (Fetch ''a'' 5 0 True) (gate_opened id 1 10 1 1000 None 0) = (g1, gf1, [a])"
      "adm_key a = ''a''"
    using first_fetch [where len = 5 and rnd = id and fraction = 1 and capacity = 1000 and gf = None and now = 0 and t = 0 and win = 10
        and hash = "\<lambda>_ _. 0" and fresh = "gate_new id 1 10 1 1000" and key = "''a''" and works = True and adms = "[]"]
    by (auto simp: example_budget gen_load_def simp del: gate_step.simps)
  have "sum_list (map (\<lambda>a. unat (adm_len a)) (filter (\<lambda>a. adm_window a = 0) [a])) \<le> unat (budget_of id 1 1000)"
    by (rule window_budget_respected [where ops = "[Fetch ''a'' 5 0 True]" and win = 10 and gf = None and thr = 1 and t = 0])
      (use f in \<open>simp_all add: example_budget del: gate_step.simps\<close>)
  then show ?thesis using f by (simp add: example_budget del: gate_step.simps)
qed

text \<open>
  C28 (hot chunks are admitted, and only hot ones): after any fetches and restarts, over any number of windows, let \<open>keys\<close> be what was fetched in the window the next fetch falls into, and \<open>used\<close> the bytes
  admitted in it; both are empty when that fetch begins a window. A chunk fetched for the \<open>threshold\<close>-th time or later in the window and within the budget is
  admitted. A chunk is admitted only when it is within the budget and, in every row of the sketch, at least \<open>threshold\<close> fetches of the window, this one included, fell on its column.
\<close>

theorem admitted_iff_hot:
  assumes "fold (gate_step hash (gate_new rnd thr win fraction capacity)) ops (gate_opened rnd thr win fraction capacity gf t) = (g', gf', adms)"
    and "admit_at hash works key len now g' gf' = (r, g'', gf'')" "fold (window_log win) ops (t, []) = (began, fetched)"
    and "keys = (if win \<le> now - began then [] else fetched)" "used = (if win \<le> now - began then 0 else unat (admitted_bytes (gstate g')))"
    and "fits = (min (used + unat len) (2 ^ 64 - 1) \<le> unat (budget_of rnd fraction capacity))" "heat = max 1 (min (unat thr) 65535)"
  shows "(heat \<le> Suc (count_list keys key) \<and> fits \<longrightarrow> r \<noteq> None)
    \<and> (r \<noteq> None \<longrightarrow> fits \<and> (\<forall>i < SKETCH_DEPTH. heat \<le> Suc (length (filter (\<lambda>k. col hash i k = col hash i key) keys))))"
proof -
  let ?new = "\<lambda>gf t. with_generation_store gf (gate_new rnd thr win fraction capacity t)"
  have new: "follows_log hash (?new gf t) (t', []) (?new gf1 t')" for t' gf1
    by (simp add: follows_log_def with_generation_store_def Let_def gate_new_def counts_clear)
  have w: "window (?new gf t) = win" "unat (threshold (?new gf t)) = heat" "byte_budget (?new gf t) = budget_of rnd fraction capacity"
    using assms(7) by (simp_all add: with_generation_store_def Let_def gate_new_def unat_of_nat)
  have l: "follows_log hash (?new gf t) (began, fetched) g'"
    using logged_run [OF new [of t gf] new assms(1)] by (simp add: w(1) assms(3))
  note q = roll_logged [OF l, of now, unfolded w(1)]
  have g': "unat (threshold g') = heat" "byte_budget g' = budget_of rnd fraction capacity" using l w(2,3) by (simp_all add: follows_log_def)
  have c: "counts hash (sketch (roll (window g') now (gstate g'))) keys" using q(2) assms(4) by simp
  have "unat (admitted_bytes (roll (window g') now (gstate g'))) = used" using q(1) assms(5) by simp
  then have f: "fits \<longleftrightarrow> \<not> byte_budget g' < saturating_add (admitted_bytes (roll (window g') now (gstate g'))) len"
    using assms(6) g'(2) by (simp add: word_less_nat_alt unat_saturating_add not_less min_le_iff_disj)
  note p = admit_parts(7) [OF assms(2), folded f]
  have "r \<noteq> None" if "heat \<le> Suc (count_list keys key)" fits
    using p f that(2) estimate_hot [OF c, of "threshold g'" key] that(1) g'(1) by (auto simp: not_less)
  moreover have "heat \<le> Suc (length (filter (\<lambda>k. col hash i k = col hash i key) keys))" if "r \<noteq> None" "i < SKETCH_DEPTH" for i
    using estimate_cold [OF c _ that(2), of "threshold g'" key] p that(1) g'(1) by (simp add: not_less)
  ultimately show ?thesis using p f by auto
qed

text \<open>With a threshold of two and no byte limit: the second fetch of a window is admitted, the first of the next one is not.\<close>

theorem admitted_iff_hot_witness:
  "case fold (gate_step (\<lambda>_ _. 0) (gate_new id 2 10 1 (- 1))) [Fetch ''a'' 5 0 True, Fetch ''a'' 5 12 True] (gate_opened id 2 10 1 (- 1) None 0) of (g, gf, adms) \<Rightarrow>
     fst (admit_at (\<lambda>_ _. 0) True ''a'' 5 13 g gf) \<noteq> None \<and> fst (admit_at (\<lambda>_ _. 0) True ''a'' 5 25 g gf) = None"
proof -
  let ?ops = "[Fetch ''a'' 5 0 True, Fetch ''a'' 5 12 True]"
  obtain g gf adms where f: "fold (gate_step (\<lambda>_ _. 0) (gate_new id 2 10 1 (- 1))) ?ops (gate_opened id 2 10 1 (- 1) None 0) = (g, gf, adms)" by (metis prod_cases3)
  obtain r1 g1 gf1 where a1: "admit_at (\<lambda>_ _. 0) True ''a'' 5 13 g gf = (r1, g1, gf1)" by (metis prod_cases3)
  obtain r2 g2 gf2 where a2: "admit_at (\<lambda>_ _. 0) True ''a'' 5 25 g gf = (r2, g2, gf2)" by (metis prod_cases3)
  have wl: "fold (window_log 10) ?ops (0, []) = (12, [''a''])" by simp
  have b: "unat (budget_of id 1 (- 1)) = 2 ^ 64 - 1" by (simp add: budget_of_def unat_max_value)
  have "r1 \<noteq> None" using admitted_iff_hot [OF f a1 wl refl refl refl refl] by (simp add: b)
  moreover have "r2 = None" using admitted_iff_hot [OF f a2 wl refl refl refl refl] by (auto simp: SKETCH_DEPTH_def dest: spec [of _ 0])
  ultimately show ?thesis unfolding f by (simp add: a1 a2)
qed

text \<open>
  After any sequence of fetches and restarts, with any writes failing, the holdings the gate
  reports are at most 4096 distinct keys, each with the generation of its latest admission.
\<close>

lemma reannounced_generations_current:
  "case fold (gate_step hash (gate_new rnd thr win fraction capacity)) ops (gate_opened rnd thr win fraction capacity gf t) of
     (g', gf', adms) \<Rightarrow>
       set (admitted_holdings g') \<subseteq> {(k, n). map_of (map (\<lambda>a. (adm_key a, adm_gen a)) adms) k = Some n}
       \<and> length (admitted_holdings g') \<le> 4096 \<and> distinct (map fst (admitted_holdings g'))"
proof -
  obtain g' gf' adms where f: "fold (gate_step hash (gate_new rnd thr win fraction capacity)) ops
      (gate_opened rnd thr win fraction capacity gf t) = (g', gf', adms)" by (metis prod_cases3)
  then have h: "holdings_ok (g', gf', adms)" using gate_runs.reachable_holds [of "gate_opened rnd thr win fraction capacity gf t" rnd thr win fraction capacity hash ops] by auto
  let ?ak = "admitted (gstate g')"
  have ok: "keys_distinct (ak_gens ?ak)" "length (ak_order ?ak) \<le> 4096" "set (ak_order ?ak) = set (map fst (ak_gens ?ak))" "distinct (ak_order ?ak)"
    using h by (auto simp: admitted_ok_def REANNOUNCE_TRACKED_KEYS_def)
  have "length (ak_gens ?ak) = length (ak_order ?ak)" using ok(1,3,4) by (metis distinct_card length_map)
  then show ?thesis using h ok by (auto simp: f admitted_holdings_def admitted_snapshot_def)
qed

end
