(* ===== verification/Backend.thy ===== *)
theory Backend
  imports Numbers Chunk
begin

text \<open>
  Reads from S3 (\<^verbatim>\<open>pacer-backend/src/retry.rs\<close> and \<^verbatim>\<open>pacer-backend/src/lib.rs\<close>): the backend shape and the
  settings of its client, the retry policy with its jittered backoff, the retry loop, one ranged
  \<open>GetObject\<close> with its body, and the classification of its failures. The AWS SDK is a parameter: an attempt is a
  function of the attempt's number, and a request is answered by \<open>send\<close>, whose answers have the shapes the source
  matches on. A \<open>Duration\<close> is its nanoseconds.
\<close>

unbundle bit_operations_syntax

section \<open>Backend shapes\<close>

datatype backend_type = Express | Standard

definition BACKEND_TYPE_EXPRESS :: string where "BACKEND_TYPE_EXPRESS = ''express''"
definition BACKEND_TYPE_STANDARD :: string where "BACKEND_TYPE_STANDARD = ''standard''"

definition is_express :: "backend_type \<Rightarrow> bool" where
  "is_express b \<longleftrightarrow> b = Express"

text \<open>The error carries the token that was not recognised.\<close>

definition backend_type_from_str :: "string \<Rightarrow> string + backend_type" where
  "backend_type_from_str s = (let t = to_ascii_lowercase (trim s) in
     if t = BACKEND_TYPE_EXPRESS then Inr Express
     else if t = BACKEND_TYPE_STANDARD then Inr Standard
     else Inl t)"

record backend_config =
  backend_type :: backend_type
  endpoint :: "string option"
  force_path_style :: bool

text \<open>The settings of the SDK's builder that \<open>build_client\<close> touches; \<open>base\<close> is what the environment gave it.\<close>

record client_settings =
  endpoint_url :: "string option"
  path_style :: bool
  disable_s3_express_session_auth :: bool

definition build_client :: "client_settings \<Rightarrow> backend_config \<Rightarrow> client_settings" where
  "build_client base cfg =
     (let builder = base;
          builder = (case endpoint cfg of Some e \<Rightarrow> builder\<lparr>endpoint_url := Some e\<rparr> | None \<Rightarrow> builder);
          builder = (if force_path_style cfg then builder\<lparr>path_style := True\<rparr> else builder)
      in if \<not> is_express (backend_type cfg) then builder\<lparr>disable_s3_express_session_auth := True\<rparr> else builder)"

section \<open>The retry policy\<close>

definition DEFAULT_MAX_ATTEMPTS :: u32 where "DEFAULT_MAX_ATTEMPTS = 3"
definition DEFAULT_BASE_BACKOFF :: nat where "DEFAULT_BASE_BACKOFF = 50 * 1000000"
definition DEFAULT_MAX_BACKOFF :: nat where "DEFAULT_MAX_BACKOFF = 1000000000"
definition MAX_BACKOFF_SHIFT :: u32 where "MAX_BACKOFF_SHIFT = 16"
definition JITTER_SCALE :: u64 where "JITTER_SCALE = 1024"

text \<open>\<open>Duration::MAX\<close>: \<open>u64::MAX\<close> seconds and 999,999,999 nanoseconds.\<close>

definition DURATION_MAX :: nat where "DURATION_MAX = 2 ^ 64 * 1000000000 - 1"

record retry_policy =
  max_attempts :: u32
  base_backoff :: nat
  max_backoff :: nat

definition retry_policy_default :: retry_policy where
  "retry_policy_default = \<lparr>max_attempts = DEFAULT_MAX_ATTEMPTS, base_backoff = DEFAULT_BASE_BACKOFF, max_backoff = DEFAULT_MAX_BACKOFF\<rparr>"

definition with_max_attempts :: "u32 \<Rightarrow> retry_policy" where
  "with_max_attempts n = retry_policy_default\<lparr>max_attempts := max n 1\<rparr>"

definition GOLDEN_GAMMA :: u64 where "GOLDEN_GAMMA = 0x9E3779B97F4A7C15"
definition MIX_A :: u64 where "MIX_A = 0xBF58476D1CE4E5B9"
definition MIX_B :: u64 where "MIX_B = 0x94D049BB133111EB"

definition mix :: "u64 \<Rightarrow> u32 \<Rightarrow> u64" where
  "mix jitter_index attempt =
     (let z = jitter_index * GOLDEN_GAMMA + ucast attempt * GOLDEN_GAMMA;
          z = (z XOR drop_bit 30 z) * MIX_A;
          z = (z XOR drop_bit 27 z) * MIX_B
      in z XOR drop_bit 31 z)"

text \<open>The ceiling of a backoff, before the jitter.\<close>

definition ceiling :: "retry_policy \<Rightarrow> u32 \<Rightarrow> nat" where
  "ceiling p attempt = (let exp = min (saturating_sub attempt 1) MAX_BACKOFF_SHIFT in
     min (min (base_backoff p * unat (push_bit (unat exp) (1 :: u32))) DURATION_MAX) (max_backoff p))"

definition backoff :: "retry_policy \<Rightarrow> u32 \<Rightarrow> u64 \<Rightarrow> nat" where
  "backoff p attempt jitter_index =
     (let half = (if ceiling p attempt div 2 < 2 ^ 64 then of_nat (ceiling p attempt div 2) else - 1);
          fraction = mix jitter_index attempt mod JITTER_SCALE
      in unat (half + saturating_mul half fraction div JITTER_SCALE))"

section \<open>The retry loop\<close>

datatype attempt_error = Transient string | Permanent string | MissingKey

datatype read_error_kind = ReadMissing | ReadPermanent string | ReadExhausted string

record chunk_body =
  cb_body :: bytes
  cb_attempts :: u32

record backend_read_error =
  bre_kind :: read_error_kind
  bre_attempts :: u32

text \<open>
  \<open>outcome i\<close> is what the \<open>i\<close>-th call of the attempt gives. The loop returns its result and the delays it
  slept. \<open>rest\<close> counts the attempts still allowed after this one.
\<close>

fun retry_loop :: "retry_policy \<Rightarrow> u64 \<Rightarrow> (nat \<Rightarrow> attempt_error + bytes) \<Rightarrow> nat \<Rightarrow> nat \<Rightarrow> (backend_read_error + chunk_body) \<times> nat list" where
  "retry_loop p j outcome attempt rest =
     (case outcome attempt of
        Inr b \<Rightarrow> (Inr \<lparr>cb_body = b, cb_attempts = of_nat attempt\<rparr>, [])
      | Inl MissingKey \<Rightarrow> (Inl \<lparr>bre_kind = ReadMissing, bre_attempts = of_nat attempt\<rparr>, [])
      | Inl (Permanent m) \<Rightarrow> (Inl \<lparr>bre_kind = ReadPermanent m, bre_attempts = of_nat attempt\<rparr>, [])
      | Inl (Transient m) \<Rightarrow> (case rest of
            0 \<Rightarrow> (Inl \<lparr>bre_kind = ReadExhausted m, bre_attempts = of_nat attempt\<rparr>, [])
          | Suc n \<Rightarrow> let (r, delays) = retry_loop p j outcome (Suc attempt) n
              in (r, backoff p (of_nat attempt) j # delays)))"

declare retry_loop.simps [simp del]

definition retrying :: "retry_policy \<Rightarrow> u64 \<Rightarrow> (nat \<Rightarrow> attempt_error + bytes) \<Rightarrow> (backend_read_error + chunk_body) \<times> nat list" where
  "retrying p j outcome = retry_loop p j outcome 1 (unat (max (max_attempts p) 1) - 1)"

record chunk_read =
  rd_bucket :: string
  rd_key :: string
  rd_start :: u64
  rd_end :: u64
  rd_jitter :: u64

definition read_range_with :: "chunk_read \<Rightarrow> retry_policy \<Rightarrow> (nat \<Rightarrow> attempt_error + bytes) \<Rightarrow> (backend_read_error + chunk_body) \<times> nat list" where
  "read_range_with rd p outcome =
     (if rd_end rd \<le> rd_start rd then (Inr \<lparr>cb_body = [], cb_attempts = 0\<rparr>, [])
      else retrying p (rd_jitter rd) outcome)"

section \<open>One attempt\<close>

text \<open>
  The failures of \<open>send\<close> the source distinguishes, each with the text \<open>describe\<close> makes of it: a dispatch
  failure carries \<open>is_user\<close>; a service error whether it is \<open>NoSuchKey\<close>, its HTTP status and its code.
\<close>

datatype sdk_error =
    ConstructionFailure string
  | TimeoutError string
  | ResponseError string
  | DispatchFailure bool string
  | ServiceError bool u16 "string option" string
  | OtherSdkError string

definition RETRYABLE_ERROR_CODES :: "string list" where
  "RETRYABLE_ERROR_CODES = [''RequestTimeout'', ''RequestTimeoutException'', ''SlowDown'', ''ThrottlingException'',
     ''TooManyRequests'', ''InternalError'', ''ServiceUnavailable'']"

definition STATUS_TOO_MANY_REQUESTS :: u16 where "STATUS_TOO_MANY_REQUESTS = 429"
definition STATUS_SERVER_ERROR :: u16 where "STATUS_SERVER_ERROR = 500"

definition retryable_response :: "u16 \<Rightarrow> string option \<Rightarrow> bool" where
  "retryable_response status code =
     (if status \<ge> STATUS_SERVER_ERROR \<or> status = STATUS_TOO_MANY_REQUESTS then True
      else case code of None \<Rightarrow> False | Some c \<Rightarrow> c \<in> set RETRYABLE_ERROR_CODES)"

fun classify_send_error :: "sdk_error \<Rightarrow> attempt_error" where
  "classify_send_error (ConstructionFailure m) = Permanent m"
| "classify_send_error (TimeoutError m) = Transient m"
| "classify_send_error (ResponseError m) = Transient m"
| "classify_send_error (DispatchFailure is_user m) = (if is_user then Permanent m else Transient m)"
| "classify_send_error (ServiceError no_such_key status code m) =
     (if no_such_key then MissingKey
      else if retryable_response status code then Transient m else Permanent m)"
| "classify_send_error (OtherSdkError m) = Permanent m"

text \<open>A response: the promised length, an \<open>i64\<close> that may be absent, and the body, whose collection may fail.\<close>

record get_response =
  content_length :: "int option"
  resp_body :: "string + bytes"

definition range_header :: "u64 \<Rightarrow> u64 \<Rightarrow> string" where
  "range_header s e = ''bytes='' @ decimal (unat s) @ ''-'' @ decimal (unat (e - 1))"

definition promised :: "get_response \<Rightarrow> nat option" where
  "promised r = (case content_length r of Some l \<Rightarrow> if 0 \<le> l then Some (nat l) else None | None \<Rightarrow> None)"

definition read_once :: "(string \<Rightarrow> string \<Rightarrow> string \<Rightarrow> sdk_error + get_response) \<Rightarrow> chunk_read \<Rightarrow> attempt_error + bytes" where
  "read_once send rd =
     (case send (rd_bucket rd) (rd_key rd) (range_header (rd_start rd) (rd_end rd)) of
        Inl e \<Rightarrow> Inl (classify_send_error e)
      | Inr resp \<Rightarrow> (case resp_body resp of
            Inl e \<Rightarrow> Inl (Transient (''body read failed: '' @ e))
          | Inr b \<Rightarrow> (case promised resp of
                Some n \<Rightarrow> if length b \<noteq> n
                  then Inl (Transient (''short body: got '' @ decimal (length b) @ '' of '' @ decimal n @ '' bytes''))
                  else Inr b
              | None \<Rightarrow> Inr b)))"

text \<open>\<open>sends i\<close> answers the request of the \<open>i\<close>-th attempt.\<close>

definition read_range :: "(nat \<Rightarrow> string \<Rightarrow> string \<Rightarrow> string \<Rightarrow> sdk_error + get_response) \<Rightarrow> chunk_read \<Rightarrow> retry_policy
    \<Rightarrow> (backend_read_error + chunk_body) \<times> nat list" where
  "read_range sends rd p = read_range_with rd p (\<lambda>i. read_once (sends i) rd)"

section \<open>Backoff\<close>

text \<open>The mix of an index and an attempt depends only on their sum.\<close>

lemma mix_sum: "mix j a = (let z = (j + ucast a) * GOLDEN_GAMMA; z = (z XOR drop_bit 30 z) * MIX_A; z = (z XOR drop_bit 27 z) * MIX_B
    in z XOR drop_bit 31 z)"
  unfolding mix_def distrib_right ..

lemma xorshift_inj:
  fixes x y :: u64
  assumes "0 < n" "x XOR drop_bit n x = y XOR drop_bit n y"
  shows "x = y"
proof -
  let ?d = "x XOR y"
  have "drop_bit n ?d = drop_bit n x XOR drop_bit n y" by (rule drop_bit_xor)
  also have "\<dots> = ?d"
    using assms(2) by (metis (no_types, lifting) xor.assoc xor.commute xor.left_neutral xor_self_eq)
  finally have "unat ?d = unat ?d div 2 ^ n" by (metis unat_drop_bit_eq drop_bit_eq_div)
  moreover have "unat ?d div 2 ^ n < unat ?d" if "0 < unat ?d"
    using that one_less_power [of "2 :: nat" n] assms(1) by (intro div_less_dividend) simp_all
  ultimately have "unat ?d = 0" by linarith
  then have "?d = 0" by (simp only: word_unat_eq_iff unat_0)
  moreover have "x XOR ?d = y" by (simp only: xor.assoc [symmetric] xor_self_eq xor.left_neutral)
  ultimately show ?thesis by (simp only: xor.right_neutral)
qed

lemma odd_mult_inj: "c * d = 1 \<Longrightarrow> x * c = y * c \<Longrightarrow> x = y" for c d x y :: u64
proof -
  assume c: "c * d = 1" and e: "x * c = y * c"
  have "x * c * d = y * c * d" unfolding e ..
  then show "x = y" unfolding mult.assoc c by simp
qed

lemma mix_round_inj: "c * d = 1 \<Longrightarrow> 0 < n \<Longrightarrow> (x XOR drop_bit n x) * c = (y XOR drop_bit n y) * c \<Longrightarrow> x = y" for c d x y :: u64
  using odd_mult_inj xorshift_inj by blast

lemma mix_inverses: "GOLDEN_GAMMA * 0xF1DE83E19937733D = 1" "MIX_A * 0x96DE1B173F119089 = 1" "MIX_B * 0x319642B2D24D8EC3 = 1"
  by (simp_all add: GOLDEN_GAMMA_def MIX_A_def MIX_B_def)

lemma mix_inj:
  assumes "mix j a = mix j' a'"
  shows "j + ucast a = j' + ucast a'"
proof -
  let ?z = "(j + ucast a) * GOLDEN_GAMMA" and ?z' = "(j' + ucast a') * GOLDEN_GAMMA"
  let ?f = "\<lambda>z. (z XOR drop_bit 30 z) * MIX_A"
  let ?g = "\<lambda>z. (z XOR drop_bit 27 z) * MIX_B"
  have "?g (?f ?z) XOR drop_bit 31 (?g (?f ?z)) = ?g (?f ?z') XOR drop_bit 31 (?g (?f ?z'))"
    using assms unfolding mix_sum Let_def .
  then have "?g (?f ?z) = ?g (?f ?z')" by (rule xorshift_inj [rotated]) simp
  then have "?f ?z = ?f ?z'" by (rule mix_round_inj [OF mix_inverses(3), rotated]) simp
  then have "?z = ?z'" by (rule mix_round_inj [OF mix_inverses(2), rotated]) simp
  then show ?thesis using odd_mult_inj [OF mix_inverses(1)] by blast
qed

lemma ceiling_le: "ceiling p a \<le> max_backoff p"
  by (simp add: ceiling_def Let_def)

lemma backoff_range:
  assumes "ceiling p a < 2 ^ 64"
  shows "ceiling p a div 2 \<le> backoff p a j" and "backoff p a j \<le> ceiling p a"
proof -
  let ?h = "ceiling p a div 2" and ?f = "unat (mix j a mod JITTER_SCALE)"
  define half :: u64 where "half = of_nat ?h"
  have h: "unat half = ?h" "?h < 2 ^ 63" using assms by (simp_all add: half_def unat_of_nat)
  have f: "?f < 1024" by (simp add: JITTER_SCALE_def unat_mod)
  let ?x = "saturating_mul half (mix j a mod JITTER_SCALE) div JITTER_SCALE"
  have "unat ?x = min (?h * ?f) (2 ^ 64 - 1) div 1024"
    by (simp add: unat_div unat_saturating_mul h(1) JITTER_SCALE_def)
  also have "\<dots> \<le> ?h * ?f div 1024" by (intro div_le_mono) simp
  also have "\<dots> \<le> ?h" using f by (metis div_le_mono div_mult_self_is_m less_imp_le mult_le_mono2 zero_less_numeral)
  finally have x: "unat ?x \<le> ?h" .
  then have "unat (half + ?x) = ?h + unat ?x" using h by (subst unat_add_no_wrap) simp_all
  moreover have "backoff p a j = unat (half + ?x)" using assms h(2) by (simp add: backoff_def Let_def half_def)
  ultimately show "?h \<le> backoff p a j" "backoff p a j \<le> ceiling p a" using x by simp_all
qed

section \<open>The loop against its specification\<close>

definition transient :: "attempt_error + bytes \<Rightarrow> bool" where
  "transient r \<longleftrightarrow> (case r of Inl (Transient m) \<Rightarrow> True | _ \<Rightarrow> False)"

fun outcome_result :: "nat \<Rightarrow> attempt_error + bytes \<Rightarrow> backend_read_error + chunk_body" where
  "outcome_result i (Inr b) = Inr \<lparr>cb_body = b, cb_attempts = of_nat i\<rparr>"
| "outcome_result i (Inl MissingKey) = Inl \<lparr>bre_kind = ReadMissing, bre_attempts = of_nat i\<rparr>"
| "outcome_result i (Inl (Permanent m)) = Inl \<lparr>bre_kind = ReadPermanent m, bre_attempts = of_nat i\<rparr>"
| "outcome_result i (Inl (Transient m)) = Inl \<lparr>bre_kind = ReadExhausted m, bre_attempts = of_nat i\<rparr>"

text \<open>The attempt that decides: the first that is not transient, or the last allowed.\<close>

definition deciding :: "(nat \<Rightarrow> attempt_error + bytes) \<Rightarrow> nat \<Rightarrow> nat \<Rightarrow> nat" where
  "deciding outcome a rest = (case find (\<lambda>i. \<not> transient (outcome i)) [a..<a + rest] of Some i \<Rightarrow> i | None \<Rightarrow> a + rest)"

lemma deciding_step:
  "deciding outcome a 0 = a"
  "deciding outcome a (Suc n) = (if transient (outcome a) then deciding outcome (Suc a) n else a)"
proof -
  show "deciding outcome a 0 = a" by (simp add: deciding_def)
  have "[a..<a + Suc n] = a # [Suc a..<Suc a + n]" by (simp add: upt_conv_Cons del: upt_Suc)
  then show "deciding outcome a (Suc n) = (if transient (outcome a) then deciding outcome (Suc a) n else a)"
    unfolding deciding_def by (cases "find (\<lambda>i. \<not> transient (outcome i)) [Suc a..<Suc a + n]") (simp_all del: upt_Suc)
qed

lemma deciding_bounds: "a \<le> deciding outcome a rest \<and> deciding outcome a rest \<le> a + rest"
proof (induction rest arbitrary: a)
  case (Suc n)
  then have "Suc a \<le> deciding outcome (Suc a) n \<and> deciding outcome (Suc a) n \<le> Suc a + n" by blast
  then show ?case unfolding deciding_step by simp
qed (simp add: deciding_step)

lemma deciding_transient:
  "a \<le> k \<Longrightarrow> k < deciding outcome a rest \<Longrightarrow> transient (outcome k)"
proof (induction rest arbitrary: a)
  case (Suc n)
  then show ?case using Suc.IH [of "Suc a"] by (cases "k = a") (auto simp: deciding_step split: if_splits)
qed (simp add: deciding_step)

lemma deciding_last: "transient (outcome (deciding outcome a rest)) \<Longrightarrow> deciding outcome a rest = a + rest"
proof (induction rest arbitrary: a)
  case (Suc n)
  then show ?case using Suc.IH [of "Suc a"] by (auto simp: deciding_step split: if_splits)
qed (simp add: deciding_step)

lemma retry_loop_spec:
  "retry_loop p j outcome a rest =
     (let i = deciding outcome a rest in (outcome_result i (outcome i), map (\<lambda>k. backoff p (of_nat k) j) [a..<i]))"
proof (induction rest arbitrary: a)
  case 0
  show ?case
    by (auto simp: retry_loop.simps [of p j outcome a] deciding_step Let_def split: sum.splits attempt_error.splits)
next
  case (Suc n)
  show ?case
  proof (cases "transient (outcome a)")
    case True
    then obtain m where m: "outcome a = Inl (Transient m)" by (auto simp: transient_def split: sum.splits attempt_error.splits)
    have "a < deciding outcome (Suc a) n" using deciding_bounds [of "Suc a" outcome n] by simp
    then show ?thesis
      using Suc.IH [of "Suc a"] True m by (simp add: retry_loop.simps [of p j outcome a] deciding_step Let_def upt_conv_Cons)
  next
    case False
    then show ?thesis
      by (auto simp: retry_loop.simps [of p j outcome a] deciding_step Let_def transient_def split: sum.splits attempt_error.splits)
  qed
qed

lemma deciding_two:
  "deciding outcome 1 2 = (if \<not> transient (outcome 1) then 1 else if \<not> transient (outcome 2) then 2 else 3)"
proof -
  have "deciding outcome 1 (Suc (Suc 0)) = (if \<not> transient (outcome 1) then 1 else if \<not> transient (outcome (Suc 1)) then Suc 1 else Suc (Suc 1))"
    by (simp add: deciding_step)
  then show ?thesis by (simp add: numeral_2_eq_2 numeral_3_eq_3)
qed

lemma default_retrying:
  "fst (retrying retry_policy_default j outcome) = (let i = deciding outcome 1 2 in outcome_result i (outcome i))"
proof -
  have "unat (max (max_attempts retry_policy_default) 1) - 1 = 2"
    by (simp add: retry_policy_default_def DEFAULT_MAX_ATTEMPTS_def unat_max_word)
  then show ?thesis by (simp add: retrying_def retry_loop_spec Let_def)
qed

section \<open>Properties\<close>

text \<open>
  C26 (the retry loop is bounded and stops at the right attempt): with \<open>n\<close> attempts allowed (at least one), the loop ends at the first attempt that is not a
  transient failure, or at attempt \<open>n\<close>; all attempts before it were transient; it returns that attempt's outcome, with its
  number, and it slept once before each attempt after the first, never longer than \<open>max_backoff\<close>.
\<close>

theorem retrying_bounded:
  assumes "max_backoff p < 2 ^ 64"
  shows "\<exists>i. 1 \<le> i \<and> i \<le> unat (max (max_attempts p) 1) \<and> (\<forall>k. 1 \<le> k \<and> k < i \<longrightarrow> transient (outcome k))
    \<and> (transient (outcome i) \<longrightarrow> i = unat (max (max_attempts p) 1))
    \<and> fst (retrying p j outcome) = outcome_result i (outcome i)
    \<and> length (snd (retrying p j outcome)) = i - 1 \<and> (\<forall>d \<in> set (snd (retrying p j outcome)). d \<le> max_backoff p)"
proof -
  let ?n = "unat (max (max_attempts p) 1)"
  have n: "1 \<le> ?n" by (simp add: unat_max_word)
  let ?i = "deciding outcome 1 (?n - 1)"
  have b: "1 \<le> ?i" "?i \<le> ?n" using deciding_bounds [of 1 outcome "?n - 1"] n by auto
  have r: "retrying p j outcome = (outcome_result ?i (outcome ?i), map (\<lambda>k. backoff p (of_nat k) j) [1..<?i])"
    unfolding retrying_def retry_loop_spec Let_def ..
  have d: "backoff p a j \<le> max_backoff p" for a
    using backoff_range(2) [of p a j] ceiling_le [of p a] assms by linarith
  have l: "transient (outcome ?i) \<Longrightarrow> ?i = ?n" using deciding_last [of outcome 1 "?n - 1"] n by simp
  show ?thesis
    using b r d l deciding_transient [of 1 _ outcome "?n - 1"] by (intro exI [of _ ?i]) auto
qed

theorem retrying_bounded_witness:
  "let outcome = \<lambda>i. if i = 2 then Inr ''ab'' else Inl (Transient ''reset''); r = retrying retry_policy_default 7 outcome
   in fst r = Inr \<lparr>cb_body = ''ab'', cb_attempts = 2\<rparr> \<and> (\<forall>d \<in> set (snd r). d \<le> 1000000000)"
proof -
  let ?o = "\<lambda>i :: nat. if i = 2 then Inr ''ab'' else Inl (Transient ''reset'')"
  have m: "max_backoff retry_policy_default = 1000000000" "max_backoff retry_policy_default < 2 ^ 64"
    by (simp_all add: retry_policy_default_def DEFAULT_MAX_BACKOFF_def)
  have "fst (retrying retry_policy_default 7 ?o) = Inr \<lparr>cb_body = ''ab'', cb_attempts = 2\<rparr>"
    unfolding default_retrying deciding_two Let_def by (simp add: transient_def)
  moreover obtain i where "\<forall>d \<in> set (snd (retrying retry_policy_default 7 ?o)). d \<le> max_backoff retry_policy_default"
    using retrying_bounded [OF m(2), of ?o 7] by blast
  ultimately show ?thesis unfolding m(1) Let_def by (rule conjI)
qed

text \<open>The body of a read that succeeds is that of one attempt, and whole when each response promises the length asked for.\<close>

lemma read_range_with_attempt:
  assumes "rd_start rd < rd_end rd" "fst (read_range_with rd p outcome) = Inr cb"
  shows "\<exists>i. outcome i = Inr (cb_body cb)"
proof -
  define i where "i = deciding outcome 1 (unat (max (max_attempts p) 1) - 1)"
  have "Inr cb = outcome_result i (outcome i)"
    using assms(2) unfolding read_range_with_def if_not_P [OF assms(1) [unfolded not_le [symmetric]]] retrying_def retry_loop_spec Let_def i_def by simp
  then have "outcome i = Inr (cb_body cb)" by (cases "(i, outcome i)" rule: outcome_result.cases) auto
  then show ?thesis by blast
qed

lemma read_range_whole:
  assumes "\<And>i r. sends i (rd_bucket rd) (rd_key rd) (range_header (rd_start rd) (rd_end rd)) = Inr r \<Longrightarrow>
      content_length r = Some (int (length want)) \<and> (\<forall>b. resp_body r = Inr b \<longrightarrow> (\<exists>rest. want = b @ rest))"
    and "rd_start rd < rd_end rd" "fst (read_range sends rd p) = Inr cb"
  shows "cb_body cb = want"
proof -
  let ?o = "\<lambda>i. read_once (sends i) rd"
  let ?send = "\<lambda>i. sends i (rd_bucket rd) (rd_key rd) (range_header (rd_start rd) (rd_end rd))"
  obtain i where o: "?o i = Inr (cb_body cb)" using read_range_with_attempt [OF assms(2), of p ?o cb] assms(3) by (auto simp: read_range_def)
  then obtain r where r: "?send i = Inr r" by (cases "?send i") (simp_all add: read_once_def)
  then have b: "resp_body r = Inr (cb_body cb)"
    using o by (cases "resp_body r") (simp_all add: read_once_def split: option.splits if_splits)
  obtain rest where w: "content_length r = Some (int (length want))" "want = cb_body cb @ rest"
    using assms(1) [OF r] b by blast
  have "promised r = Some (length want)" using w(1) by (simp add: promised_def)
  then have "length want = length (cb_body cb)" using o r b by (simp add: read_once_def split: if_splits)
  then show ?thesis using w(2) by simp
qed

text \<open>
  C11 (a chunk read never returns truncated bytes): let every response to the request promise the length of the bytes asked
  for, and let a body that is collected be a prefix of them, as when a connection drops. If \<open>read_range\<close> succeeds, at any attempt,
  its body is all the bytes asked for.
\<close>

theorem read_range_no_truncation:
  assumes "\<And>i r. sends i (rd_bucket rd) (rd_key rd) (range_header (rd_start rd) (rd_end rd)) = Inr r \<Longrightarrow>
      content_length r = Some (int (length want)) \<and> (\<forall>b. resp_body r = Inr b \<longrightarrow> (\<exists>rest. want = b @ rest))"
    and "rd_start rd < rd_end rd" "fst (read_range sends rd p) = Inr cb"
  shows "cb_body cb = want"
  by (rule read_range_whole [OF assms(1) assms(2,3)])

theorem read_range_no_truncation_witness:
  "let rd = \<lparr>rd_bucket = ''b'', rd_key = ''k'', rd_start = 0, rd_end = 3, rd_jitter = 0\<rparr>;
       sends = \<lambda>i b k h. Inr \<lparr>content_length = Some 3, resp_body = Inr (if i = 1 then ''ab'' else ''abc'')\<rparr>
   in \<exists>cb. fst (read_range sends rd retry_policy_default) = Inr cb \<and> cb_attempts cb = 2 \<and> cb_body cb = ''abc''"
proof -
  let ?rd = "\<lparr>rd_bucket = ''b'', rd_key = ''k'', rd_start = 0, rd_end = 3, rd_jitter = 0\<rparr>"
  let ?sends = "\<lambda>i b k h. Inr \<lparr>content_length = Some 3, resp_body = Inr (if i = (1 :: nat) then ''ab'' else ''abc'')\<rparr>"
  have e: "\<not> rd_end ?rd \<le> rd_start ?rd" by simp
  obtain cb where cb: "fst (read_range ?sends ?rd retry_policy_default) = Inr cb" "cb_attempts cb = 2"
    unfolding read_range_def read_range_with_def if_not_P [OF e] default_retrying deciding_two Let_def
    by (simp add: transient_def read_once_def promised_def)
  have "cb_body cb = ''abc''"
    by (rule read_range_no_truncation [where sends = ?sends and rd = ?rd, OF _ _ cb(1)]) auto
  then show ?thesis using cb by (auto simp: Let_def)
qed

text \<open>
  Two chunks at the same attempt never mix to the same value; but a
  chunk's second attempt mixes to the same value as the next chunk's first, for every chunk and attempt.
\<close>

lemma jitter_mix:
  "(mix j a = mix j' a \<longleftrightarrow> j = j') \<and> (unat a + 1 < 2 ^ 32 \<longrightarrow> mix j (a + 1) = mix (j + 1) a)"
proof
  show "mix j a = mix j' a \<longleftrightarrow> j = j'" using mix_inj [of j a j' a] by auto
  show "unat a + 1 < 2 ^ 32 \<longrightarrow> mix j (a + 1) = mix (j + 1) a"
  proof
    assume a: "unat a + 1 < 2 ^ 32"
    have u: "unat (ucast x :: u64) = unat x" for x :: u32
      using unat_bound [of x] by (simp add: unsigned_ucast_eq take_bit_nat_eq_self)
    have "unat (ucast a :: u64) + unat (1 :: u64) < 2 ^ 64" using a by (simp add: u)
    then have "unat (ucast (a + 1) :: u64) = unat (ucast a + 1 :: u64)"
      using a unat_add_no_wrap [of a 1] unat_add_no_wrap [of "ucast a" "1 :: u64"] by (simp add: u)
    then have "(ucast (a + 1) :: u64) = ucast a + 1" by (simp only: word_unat_eq_iff)
    then have "j + ucast (a + 1) = j + 1 + ucast a" by (simp only: ac_simps)
    then show "mix j (a + 1) = mix (j + 1) a" unfolding mix_sum by (simp only:)
  qed
qed

lemma jitter_mix_example: "mix 4 2 = mix 5 1"
  using jitter_mix [of 4 1 4] by simp

end
