(* ===== verification/Staging.thy ===== *)
theory Staging
  imports Prelude "HOL-Library.AList"
begin

text \<open>
  The owner side of a scattered write (\<^verbatim>\<open>pacer-daemon/src/staging.rs\<close>): chunks uploaded as parts of a multipart
  upload and held, invisible to readers, until the upload commits. The lock makes each method one step. Byte counts are
  \<open>nat\<close> (they count bytes in memory), instants are nanoseconds and \<open>duration_since\<close> saturates, as subtraction does. The
  refusals are those of the peer contract in \<^verbatim>\<open>pacer-transport/src/lib.rs\<close>.
\<close>

section \<open>Staged chunks\<close>

datatype store_refusal =
    BudgetExhausted u64 u64
  | RacingUpload
  | OversizedForBudget u64 u64
  | NotAccepting
  | UnknownRefusal

fun is_transient :: "store_refusal \<Rightarrow> bool" where
  "is_transient (BudgetExhausted _ _) = True"
| "is_transient RacingUpload = True"
| "is_transient _ = False"

record staged =
  st_body :: bytes
  upload_id :: string
  staged_at :: nat

datatype stage_outcome = Staged | AlreadyStaged | Refused store_refusal

record staging_state =
  pending_chunks :: "(string, staged) hash_map"
  staged_bytes :: nat
  staged_bytes_peak :: nat

record staging_area =
  sa_state :: staging_state
  budget_bytes :: nat
  sa_ttl :: nat

definition staging_new :: "nat \<Rightarrow> nat \<Rightarrow> staging_area" where
  "staging_new budget ttl = \<lparr>sa_state = \<lparr>pending_chunks = [], staged_bytes = 0, staged_bytes_peak = 0\<rparr>, budget_bytes = budget, sa_ttl = ttl\<rparr>"

section \<open>Operations\<close>

definition state_remove :: "string \<Rightarrow> staging_state \<Rightarrow> staged option \<times> staging_state" where
  "state_remove key st = (case map_of (pending_chunks st) key of
      None \<Rightarrow> (None, st)
    | Some s \<Rightarrow> (Some s, st\<lparr>pending_chunks := AList.delete key (pending_chunks st),
                           staged_bytes := staged_bytes st - length (st_body s)\<rparr>))"

definition keys_of :: "string \<Rightarrow> staging_state \<Rightarrow> string list" where
  "keys_of up st = map fst (filter (\<lambda>(_, s). upload_id s = up) (pending_chunks st))"

text \<open>The byte total is a sum of lengths of bodies in memory, so it is kept as a natural number.\<close>

definition try_stage_at :: "string \<Rightarrow> string \<Rightarrow> bytes \<Rightarrow> nat \<Rightarrow> staging_area \<Rightarrow> stage_outcome \<times> staging_area" where
  "try_stage_at key up b now a =
     (let chunk_len = length b; budget = of_nat (budget_bytes a) in
      if budget_bytes a < chunk_len then (Refused (OversizedForBudget (of_nat chunk_len) budget), a)
      else let st = sa_state a in
        case map_of (pending_chunks st) key of
          Some existing \<Rightarrow> (if upload_id existing = up then AlreadyStaged else Refused RacingUpload, a)
        | None \<Rightarrow>
            if budget_bytes a < staged_bytes st + chunk_len
            then (Refused (BudgetExhausted (of_nat (staged_bytes st)) budget), a)
            else let st = st\<lparr>staged_bytes := staged_bytes st + chunk_len\<rparr>;
                     st = st\<lparr>staged_bytes_peak := max (staged_bytes_peak st) (staged_bytes st)\<rparr>
                 in (Staged, a\<lparr>sa_state := st\<lparr>pending_chunks :=
                       AList.update key \<lparr>st_body = b, upload_id = up, staged_at = now\<rparr> (pending_chunks st)\<rparr>\<rparr>))"

definition release :: "string \<Rightarrow> staging_area \<Rightarrow> bool \<times> staging_area" where
  "release key a = (let (r, st) = state_remove key (sa_state a) in (r \<noteq> None, a\<lparr>sa_state := st\<rparr>))"

text \<open>The removals of \<open>commit\<close>, key by key.\<close>

fun commit_keys :: "string list \<Rightarrow> staging_state \<Rightarrow> (string \<times> bytes) list \<times> staging_state" where
  "commit_keys [] st = ([], st)"
| "commit_keys (k # ks) st = (case state_remove k st of
      (None, st) \<Rightarrow> commit_keys ks st
    | (Some s, st) \<Rightarrow> let (out, st) = commit_keys ks st in ((k, st_body s) # out, st))"

definition commit :: "string \<Rightarrow> staging_area \<Rightarrow> (string \<times> bytes) list \<times> staging_area" where
  "commit up a = (let (out, st) = commit_keys (keys_of up (sa_state a)) (sa_state a) in (out, a\<lparr>sa_state := st\<rparr>))"

definition discard :: "string \<Rightarrow> staging_area \<Rightarrow> nat \<times> staging_area" where
  "discard up a = (let (out, st) = commit_keys (keys_of up (sa_state a)) (sa_state a) in (length out, a\<lparr>sa_state := st\<rparr>))"

definition reap_at :: "nat \<Rightarrow> staging_area \<Rightarrow> string list \<times> staging_area" where
  "reap_at now a =
     (let st = sa_state a;
          expired = map fst (filter (\<lambda>(_, s). sa_ttl a \<le> now - staged_at s) (pending_chunks st))
      in (expired, a\<lparr>sa_state := snd (commit_keys expired st)\<rparr>))"

definition pending_count :: "staging_area \<Rightarrow> nat" where
  "pending_count a = length (pending_chunks (sa_state a))"

section \<open>Histories\<close>

text \<open>The calls an owner serves, in any order.\<close>

datatype stage_op = Offer string string bytes nat | Release string | Commit string | Discard string | Reap nat

fun stage_run :: "stage_op \<Rightarrow> staging_area \<Rightarrow> staging_area" where
  "stage_run (Offer k up b now) a = snd (try_stage_at k up b now a)"
| "stage_run (Release k) a = snd (release k a)"
| "stage_run (Commit up) a = snd (commit up a)"
| "stage_run (Discard up) a = snd (discard up a)"
| "stage_run (Reap now) a = snd (reap_at now a)"

text \<open>
  The specification: a map of waiting chunks. An offer enters when its key is free and the waiting bytes stay within the
  budget; every other call takes out the chunks it is about.
\<close>

definition held_bytes :: "(string \<Rightarrow> staged option) \<Rightarrow> nat" where
  "held_bytes w = (\<Sum>k \<in> dom w. length (st_body (the (w k))))"

definition without :: "(staged \<Rightarrow> bool) \<Rightarrow> (string \<Rightarrow> staged option) \<Rightarrow> string \<Rightarrow> staged option" where
  "without gone w = (\<lambda>k. case w k of Some s \<Rightarrow> if gone s then None else Some s | None \<Rightarrow> None)"

fun stage_spec :: "nat \<Rightarrow> nat \<Rightarrow> stage_op \<Rightarrow> (string \<Rightarrow> staged option) \<Rightarrow> string \<Rightarrow> staged option" where
  "stage_spec budget ttl (Offer k up b now) w =
     (if w k = None \<and> held_bytes w + length b \<le> budget then w(k \<mapsto> \<lparr>st_body = b, upload_id = up, staged_at = now\<rparr>) else w)"
| "stage_spec budget ttl (Release k) w = w(k := None)"
| "stage_spec budget ttl (Commit up) w = without (\<lambda>s. upload_id s = up) w"
| "stage_spec budget ttl (Discard up) w = without (\<lambda>s. upload_id s = up) w"
| "stage_spec budget ttl (Reap now) w = without (\<lambda>s. ttl \<le> now - staged_at s) w"

section \<open>The accounts\<close>

definition bytes_of :: "(string, staged) hash_map \<Rightarrow> nat" where
  "bytes_of m = sum_list (map (\<lambda>(_, s). length (st_body s)) m)"

definition state_ok :: "staging_state \<Rightarrow> bool" where
  "state_ok st \<longleftrightarrow> keys_distinct (pending_chunks st) \<and> staged_bytes st = bytes_of (pending_chunks st)"

lemma bytes_of_map:
  assumes "keys_distinct m"
  shows "bytes_of m = held_bytes (map_of m)"
proof -
  have "bytes_of m = (\<Sum>(_, s) \<in> set m. length (st_body s))"
    using assms by (simp add: bytes_of_def sum_list_distinct_conv_sum_set distinct_map)
  also have "\<dots> = (\<Sum>k \<in> fst ` set m. length (st_body (the (map_of m k))))"
    using assms by (subst sum.reindex) (auto simp: distinct_map intro!: sum.cong)
  finally show ?thesis by (simp add: held_bytes_def dom_map_of_conv_image_fst)
qed

lemma bytes_of_delete: "map_of m k = Some s \<Longrightarrow> keys_distinct m \<Longrightarrow> bytes_of (AList.delete k m) + length (st_body s) = bytes_of m"
proof (induction m)
  case (Cons x m)
  show ?case
  proof (cases "fst x = k")
    case True
    then have "k \<notin> fst ` set m" using Cons.prems(2) by auto
    then show ?thesis using True Cons.prems(1) by (cases x) (simp add: bytes_of_def delete_idem)
  next
    case False
    then show ?thesis using Cons by (cases x) (auto simp: bytes_of_def)
  qed
qed simp

lemma bytes_of_update: "map_of m k = None \<Longrightarrow> bytes_of (AList.update k s m) = bytes_of m + length (st_body s)"
  by (induction m) (auto simp: bytes_of_def split: if_splits)

lemma state_remove_ok:
  assumes "state_ok st" "state_remove k st = (r, st')"
  shows "state_ok st'" "r = map_of (pending_chunks st) k" "map_of (pending_chunks st') = (map_of (pending_chunks st))(k := None)"
    "staged_bytes_peak st' = staged_bytes_peak st" "staged_bytes st' \<le> staged_bytes st"
proof -
  have "bytes_of (AList.delete k (pending_chunks st)) = bytes_of (pending_chunks st) - length (st_body s)"
    if "map_of (pending_chunks st) k = Some s" for s
    using bytes_of_delete [OF that] assms(1) by (simp add: state_ok_def)
  then show "state_ok st'" "r = map_of (pending_chunks st) k" "map_of (pending_chunks st') = (map_of (pending_chunks st))(k := None)"
    "staged_bytes_peak st' = staged_bytes_peak st" "staged_bytes st' \<le> staged_bytes st"
    using assms by (auto simp: state_ok_def state_remove_def AList.delete_conv' distinct_delete split: option.splits)
qed

lemma commit_keys_run:
  "state_ok st \<Longrightarrow> distinct ks \<Longrightarrow> set ks \<subseteq> dom (map_of (pending_chunks st)) \<Longrightarrow> commit_keys ks st = (out, st') \<Longrightarrow>
    state_ok st' \<and> out = map (\<lambda>k. (k, st_body (the (map_of (pending_chunks st) k)))) ks
    \<and> map_of (pending_chunks st') = (map_of (pending_chunks st)) |` (- set ks)
    \<and> staged_bytes_peak st' = staged_bytes_peak st \<and> staged_bytes st' \<le> staged_bytes st"
proof (induction ks arbitrary: st out)
  case (Cons k ks)
  obtain r st1 where r: "state_remove k st = (r, st1)" by fastforce
  note k = state_remove_ok [OF \<open>state_ok st\<close> r]
  obtain s where s: "r = Some s" using k(2) Cons.prems(3) by auto
  obtain out1 st2 where c: "commit_keys ks st1 = (out1, st2)" by fastforce
  have st2: "st2 = st'" "out = (k, st_body s) # out1" using Cons.prems(4) r s c by auto
  have ks: "distinct ks" "set ks \<subseteq> dom (map_of (pending_chunks st1))" "k \<notin> set ks" using Cons.prems(2,3) k(3) by auto
  have s': "map_of (pending_chunks st) k = Some s" using k(2) s by simp
  note IH = Cons.IH [OF k(1) ks(1,2) c [unfolded st2]]
  have "out1 = map (\<lambda>k. (k, st_body (the (map_of (pending_chunks st) k)))) ks"
    using IH k(3) ks(3) by auto
  moreover have "map_of (pending_chunks st') = (map_of (pending_chunks st)) |` (- set (k # ks))"
    using IH k(3) by (auto simp: restrict_map_def)
  ultimately show ?case using IH k(4,5) s' by (simp add: st2)
qed (auto simp: restrict_map_def)

text \<open>The three callers remove the chunks that satisfy a predicate.\<close>

lemma remove_matching:
  assumes "state_ok st" "ks = map fst (filter (\<lambda>(_, s). gone s) (pending_chunks st))" "commit_keys ks st = (out, st')"
  shows "state_ok st'" "set out = {(k, st_body s) | k s. map_of (pending_chunks st) k = Some s \<and> gone s}" "distinct (map fst out)"
    "map_of (pending_chunks st') = without gone (map_of (pending_chunks st))"
    "staged_bytes_peak st' = staged_bytes_peak st" "staged_bytes st' \<le> staged_bytes st" "map fst out = ks"
proof -
  let ?m = "pending_chunks st"
  have d: "keys_distinct ?m" using assms(1) by (simp add: state_ok_def)
  then have ks: "distinct ks" by (simp add: assms(2) distinct_map_filter)
  have k: "k \<in> set ks \<longleftrightarrow> (\<exists>s. map_of ?m k = Some s \<and> gone s)" for k
    using d by (force simp: assms(2))
  then have "set ks \<subseteq> dom (map_of ?m)" by auto
  note c = commit_keys_run [OF assms(1) ks this assms(3)]
  show "state_ok st'" "staged_bytes_peak st' = staged_bytes_peak st" "staged_bytes st' \<le> staged_bytes st" using c by auto
  show "map fst out = ks" "distinct (map fst out)" using c ks by (simp_all add: comp_def)
  show "set out = {(k, st_body s) | k s. map_of ?m k = Some s \<and> gone s}" using c k by (force simp: image_iff)
  show "map_of (pending_chunks st') = without gone (map_of ?m)"
    using c k by (auto simp: without_def restrict_map_def fun_eq_iff split: option.splits)
qed

section \<open>Runs\<close>

text \<open>The area implements the map and its byte total is that of the map.\<close>

definition area_ok :: "staging_area \<Rightarrow> bool" where
  "area_ok a \<longleftrightarrow> state_ok (sa_state a) \<and> staged_bytes (sa_state a) \<le> staged_bytes_peak (sa_state a)
     \<and> staged_bytes_peak (sa_state a) \<le> budget_bytes a"

abbreviation area_map :: "staging_area \<Rightarrow> string \<Rightarrow> staged option" where
  "area_map a \<equiv> map_of (pending_chunks (sa_state a))"

lemma area_bytes: "area_ok a \<Longrightarrow> staged_bytes (sa_state a) = held_bytes (area_map a)"
  by (simp add: area_ok_def state_ok_def bytes_of_map)

lemma stage_step:
  assumes "area_ok a"
  shows "area_ok (stage_run x a)" "area_map (stage_run x a) = stage_spec (budget_bytes a) (sa_ttl a) x (area_map a)"
    "budget_bytes (stage_run x a) = budget_bytes a" "sa_ttl (stage_run x a) = sa_ttl a"
proof -
  have ok: "state_ok (sa_state a)" using assms by (simp add: area_ok_def)
  have "area_ok (stage_run x a) \<and> area_map (stage_run x a) = stage_spec (budget_bytes a) (sa_ttl a) x (area_map a)
    \<and> budget_bytes (stage_run x a) = budget_bytes a \<and> sa_ttl (stage_run x a) = sa_ttl a"
  proof (cases x)
    case (Offer k up b now)
    then show ?thesis using assms area_bytes [OF assms]
      by (auto simp: try_stage_at_def Let_def area_ok_def state_ok_def bytes_of_update update_conv' distinct_update split: option.splits)
  next
    case (Release k)
    obtain r st' where r: "state_remove k (sa_state a) = (r, st')" by fastforce
    show ?thesis using state_remove_ok [OF ok r] assms by (auto simp: Release release_def r area_ok_def)
  next
    case (Commit up)
    obtain out st' where c: "commit_keys (keys_of up (sa_state a)) (sa_state a) = (out, st')" by fastforce
    show ?thesis using remove_matching [OF ok keys_of_def c] assms by (auto simp: Commit commit_def c area_ok_def)
  next
    case (Discard up)
    obtain out st' where c: "commit_keys (keys_of up (sa_state a)) (sa_state a) = (out, st')" by fastforce
    show ?thesis using remove_matching [OF ok keys_of_def c] assms by (auto simp: Discard discard_def c area_ok_def)
  next
    case (Reap now)
    let ?ks = "map fst (filter (\<lambda>(_, s). sa_ttl a \<le> now - staged_at s) (pending_chunks (sa_state a)))"
    obtain out st' where c: "commit_keys ?ks (sa_state a) = (out, st')" by fastforce
    show ?thesis using remove_matching [OF ok refl c] assms by (auto simp: Reap reap_at_def Let_def c area_ok_def)
  qed
  then show "area_ok (stage_run x a)" "area_map (stage_run x a) = stage_spec (budget_bytes a) (sa_ttl a) x (area_map a)"
    "budget_bytes (stage_run x a) = budget_bytes a" "sa_ttl (stage_run x a) = sa_ttl a" by auto
qed

interpretation stage_runs: invariant_system
    "\<lambda>(a, w). (\<exists>budget ttl. a = staging_new budget ttl) \<and> w = Map.empty"
    "\<lambda>x (a, w). (stage_run x a, stage_spec (budget_bytes a) (sa_ttl a) x w)"
    "\<lambda>(a, w). area_ok a \<and> area_map a = w"
  by unfold_locales (auto simp: stage_step, auto simp: staging_new_def area_ok_def state_ok_def bytes_of_def)

lemma run_pair:
  "fold (\<lambda>x (a, w). (stage_run x a, stage_spec (budget_bytes a) (sa_ttl a) x w)) ops (a, w)
     = (fold stage_run ops a, fold (stage_spec (budget_bytes a) (sa_ttl a)) ops w) \<and>
   budget_bytes (fold stage_run ops a) = budget_bytes a \<and> sa_ttl (fold stage_run ops a) = sa_ttl a" if "area_ok a"
  using that by (induction ops arbitrary: a w) (simp_all add: stage_step)

lemma staged_run:
  fixes ops :: "stage_op list" and budget ttl :: nat
  defines "a \<equiv> fold stage_run ops (staging_new budget ttl)" and "w \<equiv> fold (stage_spec budget ttl) ops Map.empty"
  shows "area_ok a" "area_map a = w" "budget_bytes a = budget" "sa_ttl a = ttl"
proof -
  let ?a = "staging_new budget ttl"
  have new: "budget_bytes ?a = budget" "sa_ttl ?a = ttl" by (simp_all add: staging_new_def)
  have ok: "area_ok ?a" by (simp add: staging_new_def area_ok_def state_ok_def bytes_of_def)
  note r = run_pair [OF ok, of ops Map.empty, unfolded new]
  show "area_ok a" "area_map a = w"
    using stage_runs.reachable_holds [of "(?a, Map.empty)" ops] r by (auto simp: a_def w_def new)
  show "budget_bytes a = budget" "sa_ttl a = ttl" using r by (simp_all add: a_def)
qed

section \<open>Properties\<close>

text \<open>What each call answers, by the map of waiting chunks.\<close>

lemma offer_answer:
  assumes "area_ok a"
  shows "fst (try_stage_at k up b now a) = Staged \<longleftrightarrow> area_map a k = None \<and> held_bytes (area_map a) + length b \<le> budget_bytes a"
    and "length b \<le> budget_bytes a \<Longrightarrow> fst (try_stage_at k up b now a) = AlreadyStaged \<longleftrightarrow> (\<exists>s. area_map a k = Some s \<and> upload_id s = up)"
  by (auto simp: try_stage_at_def Let_def area_bytes [OF assms] split: option.splits)

lemma removal_answers:
  assumes "area_ok a"
  shows "set (fst (commit up a)) = {(k, st_body s) | k s. area_map a k = Some s \<and> upload_id s = up}" "distinct (map fst (fst (commit up a)))"
    and "fst (discard up a) = length (fst (commit up a))"
    and "fst (release k a) \<longleftrightarrow> area_map a k \<noteq> None"
    and "set (fst (reap_at now a)) = {k. \<exists>s. area_map a k = Some s \<and> sa_ttl a \<le> now - staged_at s}"
proof -
  have ok: "state_ok (sa_state a)" using assms by (simp add: area_ok_def)
  obtain out st' where c: "commit_keys (keys_of up (sa_state a)) (sa_state a) = (out, st')" by fastforce
  show "set (fst (commit up a)) = {(k, st_body s) | k s. area_map a k = Some s \<and> upload_id s = up}" "distinct (map fst (fst (commit up a)))"
    "fst (discard up a) = length (fst (commit up a))"
    using remove_matching [OF ok keys_of_def c] by (simp_all add: commit_def discard_def c)
  show "fst (release k a) \<longleftrightarrow> area_map a k \<noteq> None"
    using state_remove_ok(2) [OF ok, of k] by (cases "state_remove k (sa_state a)") (simp add: release_def)
  have "keys_distinct (pending_chunks (sa_state a))" using ok by (simp add: state_ok_def)
  then show "set (fst (reap_at now a)) = {k. \<exists>s. area_map a k = Some s \<and> sa_ttl a \<le> now - staged_at s}"
    by (force simp: reap_at_def Let_def)
qed

text \<open>
  C21 (the staging area implements a map of waiting chunks within its budget): after any sequence of offers, releases, commits, discards and
  reaps, the area holds exactly the chunks the map says are waiting; its byte total is theirs and, like its peak, within the
  budget. An offer is staged exactly when its key is free and it fits; a commit hands back exactly the chunks waiting for
  that upload, each once, with the bytes offered; a discard counts the same chunks; a release and a reap take out what they
  are about.
\<close>

theorem staging_refines_map:
  "let a = fold stage_run ops (staging_new budget ttl); w = fold (stage_spec budget ttl) ops Map.empty in
    map_of (pending_chunks (sa_state a)) = w
    \<and> staged_bytes (sa_state a) = held_bytes w
    \<and> staged_bytes (sa_state a) \<le> staged_bytes_peak (sa_state a) \<and> staged_bytes_peak (sa_state a) \<le> budget
    \<and> (fst (try_stage_at k up b now a) = Staged \<longleftrightarrow> w k = None \<and> held_bytes w + length b \<le> budget)
    \<and> set (fst (commit up a)) = {(k, st_body s) | k s. w k = Some s \<and> upload_id s = up} \<and> distinct (map fst (fst (commit up a)))
    \<and> fst (discard up a) = length (fst (commit up a))
    \<and> (fst (release k a) \<longleftrightarrow> w k \<noteq> None)
    \<and> set (fst (reap_at now a)) = {k. \<exists>s. w k = Some s \<and> ttl \<le> now - staged_at s}"
proof -
  define a where "a = fold stage_run ops (staging_new budget ttl)"
  define w where "w = fold (stage_spec budget ttl) ops Map.empty"
  note r = staged_run [of ops budget ttl, folded a_def w_def]
  show ?thesis unfolding Let_def a_def [symmetric] w_def [symmetric]
    using offer_answer(1) [OF r(1), where k = k and up = up and b = b and now = now] removal_answers(1-3) [OF r(1), where up = up] removal_answers(4) [OF r(1), where k = k]
      removal_answers(5) [OF r(1), where now = now] area_bytes [OF r(1)] r(1)
    unfolding r(2,3,4) by (simp add: area_ok_def r(3))
qed

end
