(* ===== verification/Token.thy ===== *)
theory Token
  imports Numbers
begin

text \<open>
  How a client names memory it registered itself (\<^verbatim>\<open>pacer-transport/src/token.rs\<close>), and the message a
  writer announces its rails with (\<^verbatim>\<open>pacer-transport/src/announce.rs\<close>). A GID is an array of 16 bytes: \<open>rail_ok\<close>
  and \<open>announced_ok\<close> keep that of the type. \<open>usize\<close> is 64 bits, as on every target the transport builds for. The
  messages \<open>ClientToken\<close> and \<open>ClientTokenRail\<close> are generated from the protobuf files; the records have the
  fields the source reads.
\<close>

section \<open>Token windows\<close>

record token_rail =
  rail_gid :: bytes
  rail_qpn :: u32
  rail_rkey :: u32

definition rail_ok :: "token_rail \<Rightarrow> bool" where
  "rail_ok r \<longleftrightarrow> length (rail_gid r) = 16"

record token_window =
  tw_start :: u64
  tw_len :: u64
  tw_rails :: "token_rail list"

datatype token_window_error =
    NoRails
  | EmptyWindow
  | AddressOverflow u64 u64
  | MalformedRail nat

definition token_window_new :: "u64 \<Rightarrow> u64 \<Rightarrow> u64 \<Rightarrow> token_rail list \<Rightarrow> token_window_error + token_window" where
  "token_window_new base_addr offset len rails =
     (if rails = [] then Inl NoRails
      else if len = 0 then Inl EmptyWindow
      else case checked_add base_addr offset of
        None \<Rightarrow> Inl (AddressOverflow base_addr offset)
      | Some start \<Rightarrow> Inr \<lparr>tw_start = start, tw_len = len, tw_rails = rails\<rparr>)"

definition slice_on :: "token_rail \<Rightarrow> u64 \<Rightarrow> u64 \<Rightarrow> token_window \<Rightarrow> (u64 \<times> u32 \<times> u64) option" where
  "slice_on rail pos len w = (case checked_add pos len of
      None \<Rightarrow> None
    | Some end_pos \<Rightarrow> if end_pos > tw_len w then None
        else case checked_add (tw_start w) pos of None \<Rightarrow> None | Some addr \<Rightarrow> Some (addr, rail_rkey rail, len))"

record client_token_rail =
  ctr_gid :: bytes
  ctr_qpn :: u32
  ctr_rkey :: u32

record client_token =
  ct_addr :: u64
  ct_len :: u64
  ct_rails :: "client_token_rail list"
  ct_checksum :: bool

fun rails_from_proto :: "client_token_rail list \<Rightarrow> token_window_error + token_rail list" where
  "rails_from_proto [] = Inr []"
| "rails_from_proto (wire # rest) =
     (if length (ctr_gid wire) \<noteq> 16 then Inl (MalformedRail (length (ctr_gid wire)))
      else case rails_from_proto rest of
        Inl e \<Rightarrow> Inl e
      | Inr rails \<Rightarrow> Inr (\<lparr>rail_gid = ctr_gid wire, rail_qpn = ctr_qpn wire, rail_rkey = ctr_rkey wire\<rparr> # rails))"

definition from_proto :: "client_token \<Rightarrow> token_window_error + token_window" where
  "from_proto token = (case rails_from_proto (ct_rails token) of
      Inl e \<Rightarrow> Inl e
    | Inr rails \<Rightarrow> token_window_new (ct_addr token) 0 (ct_len token) rails)"

definition proto_at :: "u64 \<Rightarrow> u64 \<Rightarrow> bool \<Rightarrow> token_window \<Rightarrow> client_token option" where
  "proto_at pos len checksum w = (case tw_rails w of
      [] \<Rightarrow> None
    | first # _ \<Rightarrow> (case slice_on first pos len w of
          None \<Rightarrow> None
        | Some (addr, _, len) \<Rightarrow> Some \<lparr>ct_addr = addr, ct_len = len,
            ct_rails = map (\<lambda>r. \<lparr>ctr_gid = rail_gid r, ctr_qpn = rail_qpn r, ctr_rkey = rail_rkey r\<rparr>) (tw_rails w),
            ct_checksum = checksum\<rparr>))"

section \<open>Announcements\<close>

definition ANNOUNCE_VERSION :: nat where "ANNOUNCE_VERSION = 1"
definition MAX_ANNOUNCED_RAILS :: nat where "MAX_ANNOUNCED_RAILS = 64"
definition HEADER_BYTES :: nat where "HEADER_BYTES = 2"
definition ENTRY_BYTES :: nat where "ENTRY_BYTES = 22"
definition ANNOUNCE_MAX_BYTES :: nat where "ANNOUNCE_MAX_BYTES = HEADER_BYTES + MAX_ANNOUNCED_RAILS * ENTRY_BYTES"

record announced_rail =
  an_gid :: bytes
  an_qpn :: u32
  an_rail :: u16

datatype announce_error =
    NoRailsToAnnounce
  | TooManyRails nat
  | ShortAnnounce nat
  | UnknownVersion nat
  | ZeroRails
  | WrongLength nat nat

definition encode_entry :: "announced_rail \<Rightarrow> bytes" where
  "encode_entry r = an_gid r @ be_bytes 4 (unat (an_qpn r)) @ be_bytes 2 (unat (an_rail r))"

definition announce_encode :: "announced_rail list \<Rightarrow> announce_error + bytes" where
  "announce_encode rails =
     (if rails = [] then Inl NoRailsToAnnounce
      else if length rails > MAX_ANNOUNCED_RAILS then Inl (TooManyRails (length rails))
      else Inr (char_of ANNOUNCE_VERSION # char_of (length rails) # concat (map encode_entry rails)))"

definition decode_entry :: "bytes \<Rightarrow> announced_rail" where
  "decode_entry e = \<lparr>an_gid = seg 0 16 e, an_qpn = of_nat (from_be (seg 16 20 e)), an_rail = of_nat (from_be (seg 20 22 e))\<rparr>"

definition announce_decode :: "bytes \<Rightarrow> announce_error + announced_rail list" where
  "announce_decode bs =
     (if length bs < HEADER_BYTES then Inl (ShortAnnounce (length bs))
      else let version = of_char (bs ! 0); count = of_char (bs ! 1); want = HEADER_BYTES + count * ENTRY_BYTES in
        if version \<noteq> ANNOUNCE_VERSION then Inl (UnknownVersion version)
        else if count = 0 then Inl ZeroRails
        else if count > MAX_ANNOUNCED_RAILS then Inl (TooManyRails count)
        else if length bs \<noteq> want then Inl (WrongLength want (length bs))
        else Inr (map decode_entry (as_chunks ENTRY_BYTES (drop HEADER_BYTES bs))))"

lemmas announce_consts = ANNOUNCE_VERSION_def MAX_ANNOUNCED_RAILS_def HEADER_BYTES_def ENTRY_BYTES_def

definition announced_ok :: "announced_rail \<Rightarrow> bool" where
  "announced_ok r \<longleftrightarrow> length (an_gid r) = 16"

lemma decode_encode_entry: "announced_ok r \<Longrightarrow> decode_entry (encode_entry r) = r"
proof -
  assume "announced_ok r"
  then have g: "length (an_gid r) = 16" by (simp add: announced_ok_def)
  have "from_be (be_bytes 4 (unat (an_qpn r))) = unat (an_qpn r)" "from_be (be_bytes 2 (unat (an_rail r))) = unat (an_rail r)"
    using unat_bound [of "an_qpn r"] unat_bound [of "an_rail r"] by (simp_all add: from_be_be_bytes)
  then show ?thesis using g by (simp add: decode_entry_def encode_entry_def seg_def)
qed

lemma encode_decode_entry: "length e = 22 \<Longrightarrow> encode_entry (decode_entry e) = e \<and> announced_ok (decode_entry e)"
proof -
  assume e: "length e = 22"
  let ?q = "seg 16 20 e" and ?r = "seg 20 22 e"
  have "unat (of_nat (from_be ?q) :: u32) = from_be ?q" "unat (of_nat (from_be ?r) :: u16) = from_be ?r"
    using from_be_bound [of ?q] from_be_bound [of ?r] e by (simp_all add: unat_of_nat)
  moreover have "be_bytes 4 (from_be ?q) = ?q" "be_bytes 2 (from_be ?r) = ?r"
    using be_bytes_from_be [of ?q] be_bytes_from_be [of ?r] e by simp_all
  moreover have "seg 0 16 e @ ?q @ ?r = e"
    using seg_append [of 16 20 22 e] seg_append [of 0 16 22 e] seg_whole [of e 22] e by simp
  ultimately show ?thesis using e by (simp add: decode_entry_def encode_entry_def announced_ok_def)
qed

section \<open>Properties\<close>

lemma rails_through_proto:
  "list_all rail_ok rails \<Longrightarrow>
   rails_from_proto (map (\<lambda>r. \<lparr>ctr_gid = rail_gid r, ctr_qpn = rail_qpn r, ctr_rkey = rail_rkey r\<rparr>) rails) = Inr rails"
  by (induction rails) (simp_all add: rail_ok_def)

text \<open>
  C24 (a holder writes exactly where the client asked): a client's window of \<open>n\<close> bytes is offered at \<open>base + off\<close>. When the requester
  renders a part \<open>[pos, pos + len)\<close> of it for a holder, the part lies within the window, and the window the holder rebuilds
  has the same rails, in the client's order, and lets it write exactly at \<open>base + off + pos\<close>, that many bytes and
  no more. A part that does not fit is refused.
\<close>

theorem token_handoff:
  assumes "list_all rail_ok rails" "token_window_new base off n rails = Inr w" "0 < len"
  shows "case proto_at pos len checksum w of
      None \<Rightarrow> unat n < unat pos + unat len \<or> 2 ^ 64 \<le> unat base + unat off + unat pos
    | Some token \<Rightarrow> unat pos + unat len \<le> unat n \<and> (\<exists>w'. from_proto token = Inr w' \<and> tw_rails w' = rails \<and>
        (\<forall>r at l. slice_on r at l w' = (if unat at + unat l \<le> unat len \<and> unat base + unat off + unat pos + unat at < 2 ^ 64
           then Some (base + off + pos + at, rail_rkey r, l) else None)))"
proof -
  obtain first rest where r: "rails = first # rest" using assms(2) by (cases rails) (simp_all add: token_window_new_def)
  have w: "tw_rails w = rails" "tw_len w = n" "unat (tw_start w) = unat base + unat off" "tw_start w = base + off"
    using assms(2) by (auto simp: token_window_new_def checked_add_Some [symmetric] split: if_splits option.splits)
      (auto simp: checked_add_def split: if_splits)
  have s: "unat (base + off) = unat base + unat off" using w(3,4) by simp
  have slice: "slice_on r p l v = (if unat p + unat l \<le> unat (tw_len v) \<and> unat (tw_start v) + unat p < 2 ^ 64
      then Some (tw_start v + p, rail_rkey r, l) else None)" for r p l v
  proof (cases "unat p + unat l < 2 ^ 64")
    case True
    then show ?thesis by (simp add: slice_on_def checked_add_def word_less_nat_alt unat_add_no_wrap)
  next
    case False
    then show ?thesis using unat_bound [of "tw_len v"] by (simp add: slice_on_def checked_add_def)
  qed
  show ?thesis
  proof (cases "proto_at pos len checksum w")
    case None
    then show ?thesis by (auto simp: proto_at_def w r slice s split: if_splits)
  next
    case (Some token)
    then have fits: "unat pos + unat len \<le> unat n" "unat base + unat off + unat pos < 2 ^ 64"
      and token: "ct_addr token = base + off + pos" "ct_len token = len"
        "ct_rails token = map (\<lambda>r. \<lparr>ctr_gid = rail_gid r, ctr_qpn = rail_qpn r, ctr_rkey = rail_rkey r\<rparr>) rails"
      by (auto simp: proto_at_def w r slice s split: if_splits)
    have addr: "unat (base + off + pos) = unat base + unat off + unat pos"
      using fits(2) w(3,4) unat_add_no_wrap [of "base + off" pos] by simp
    have "from_proto token = Inr \<lparr>tw_start = base + off + pos, tw_len = len, tw_rails = rails\<rparr>"
      using assms(3) unat_bound [of "base + off + pos"] r
      unfolding from_proto_def token rails_through_proto [OF assms(1)] by (auto simp: token_window_new_def checked_add_def)
    then show ?thesis using Some fits(1) by (auto simp: slice addr)
  qed
qed

theorem token_handoff_witness:
  "let r = \<lparr>rail_gid = replicate 16 CHR ''g'', rail_qpn = 0, rail_rkey = 7\<rparr> in
   \<exists>w token w'. token_window_new 4096 64 1024 [r] = Inr w \<and> proto_at 256 128 True w = Some token \<and> from_proto token = Inr w'
     \<and> slice_on r 0 128 w' = Some (4416, 7, 128) \<and> slice_on r 0 129 w' = None"
proof -
  let ?r = "\<lparr>rail_gid = replicate 16 CHR ''g'', rail_qpn = 0, rail_rkey = 7\<rparr> :: token_rail"
  let ?w = "\<lparr>tw_start = 4160, tw_len = 1024, tw_rails = [?r]\<rparr> :: token_window"
  have ok: "list_all rail_ok [?r]" by (simp add: rail_ok_def)
  have w: "token_window_new 4096 64 1024 [?r] = Inr ?w" by (simp add: token_window_new_def checked_add_def)
  obtain token where t: "proto_at 256 128 True ?w = Some token" by (simp add: proto_at_def slice_on_def checked_add_def)
  show ?thesis using token_handoff [OF ok w, of 128 256 True] w t by (auto simp: Let_def)
qed

text \<open>
  \<open>decode\<close> accepts exactly the messages \<open>encode\<close> produces, and gives back the
  rails encoded. So a message with a byte more or less, another version or a wrong count is refused.
\<close>

lemma announce_roundtrip:
  "announce_decode bs = Inr rails \<longleftrightarrow> announce_encode rails = Inr bs \<and> list_all announced_ok rails"
proof
  assume d: "announce_decode bs = Inr rails"
  then have l: "2 \<le> length bs" by (auto simp: announce_decode_def announce_consts split: if_splits)
  then obtain v c rest where bs: "bs = v # c # rest" by (cases bs; cases "tl bs") auto
  have c: "of_char v = (1 :: nat)" "0 < (of_char c :: nat)" "of_char c \<le> (64 :: nat)" "length rest = of_char c * 22"
    "rails = map decode_entry (as_chunks 22 rest)"
    using d by (auto simp: bs announce_decode_def announce_consts Let_def split: if_splits)
  note ch = as_chunks_whole [OF c(4)]
  have "map encode_entry rails = as_chunks 22 rest" "list_all announced_ok rails"
    using ch(2) encode_decode_entry by (auto simp: c(5) list_all_iff intro!: map_idI)
  moreover have "length rails = of_char c" using ch(3) c(5) by simp
  moreover have "char_of (1 :: nat) = v" using c(1) by (metis char_of_char)
  ultimately show "announce_encode rails = Inr bs \<and> list_all announced_ok rails"
    using c ch(1) by (auto simp: bs announce_encode_def announce_consts)
next
  assume e: "announce_encode rails = Inr bs \<and> list_all announced_ok rails"
  then have bs: "bs = char_of (1 :: nat) # char_of (length rails) # concat (map encode_entry rails)"
    and r: "rails \<noteq> []" "length rails \<le> 64" by (auto simp: announce_encode_def announce_consts split: if_splits)
  have w: "list_all (\<lambda>x. length x = 22) (map encode_entry rails)" using e by (auto simp: list_all_iff announced_ok_def encode_entry_def)
  then have "length (concat (map encode_entry rails)) = length rails * 22"
    by (induction rails) auto
  moreover have "map decode_entry (map encode_entry rails) = rails" using e by (auto simp: list_all_iff decode_encode_entry intro!: map_idI)
  ultimately show "announce_decode bs = Inr rails"
    using r as_chunks_concat [OF w] by (simp add: bs announce_decode_def announce_consts Let_def)
qed

end
