(* ===== verification/Target.thy ===== *)
theory Target
  imports Token "HOL-Library.Sublist"
begin

text \<open>
  The descriptor a client sends to name its target memory: the daemon's parser
  (\<^verbatim>\<open>pacer-daemon/src/delivery.rs\<close>, \<open>TargetSpec::parse\<close>) and the client's printer
  (\<^verbatim>\<open>pacer-client/src/token.rs\<close>). The text of an error message is replaced by a constructor that says which check
  failed. Strings are their UTF-8 bytes.
\<close>

section \<open>Constants\<close>

definition SHM_SCHEME :: string where "SHM_SCHEME = ''shm:''"
definition NIC_SCHEME :: string where "NIC_SCHEME = ''nic:''"
definition RAILS_PARAM :: string where "RAILS_PARAM = ''rails''"
definition RAIL_SEPARATOR :: char where "RAIL_SEPARATOR = CHR '',''"
definition RAIL_FIELD_SEPARATOR :: char where "RAIL_FIELD_SEPARATOR = CHR ''/''"
definition RAIL_FIELDS :: nat where "RAIL_FIELDS = 3"
definition GID_HEX_CHARS :: nat where "GID_HEX_CHARS = 32"
definition MAX_TOKEN_RAILS :: nat where "MAX_TOKEN_RAILS = MAX_ANNOUNCED_RAILS"
definition PARAM_SEPARATOR :: char where "PARAM_SEPARATOR = CHR '';''"
definition OFFSET_PARAM :: string where "OFFSET_PARAM = ''offset''"
definition LEN_PARAM :: string where "LEN_PARAM = ''len''"
definition CHECKSUM_PARAM :: string where "CHECKSUM_PARAM = ''checksum''"
definition CHECKSUM_NONE :: string where "CHECKSUM_NONE = ''none''"
definition CHECKSUM_ALGORITHM :: string where "CHECKSUM_ALGORITHM = ''crc32''"
definition HEX_PREFIX :: string where "HEX_PREFIX = ''0x''"
definition HEX_RADIX :: nat where "HEX_RADIX = 16"

lemmas target_consts = SHM_SCHEME_def NIC_SCHEME_def RAILS_PARAM_def RAIL_SEPARATOR_def RAIL_FIELD_SEPARATOR_def
  RAIL_FIELDS_def GID_HEX_CHARS_def MAX_TOKEN_RAILS_def MAX_ANNOUNCED_RAILS_def PARAM_SEPARATOR_def OFFSET_PARAM_def
  LEN_PARAM_def CHECKSUM_PARAM_def CHECKSUM_NONE_def CHECKSUM_ALGORITHM_def HEX_PREFIX_def HEX_RADIX_def

section \<open>Parsing\<close>

datatype malformed =
    UnsupportedScheme
  | NotKeyValue string
  | UnknownParameter string
  | MissingLen
  | ZeroLen
  | RailsNotForShm
  | MissingRails
  | EmptyRailEntry
  | RailFieldCount nat
  | RailTwice
  | TooManyTokenRails
  | GidLength nat
  | GidNotAscii
  | GidNotHex
  | NotU32 u64
  | EmptySegmentName
  | UnsafeSegmentName string
  | UnknownChecksum string
  | BadNumber string
  | WindowOverflow
  | BadTokenWindow token_window_error

datatype target_memory = Shm string | Nic u64 "token_rail list"

record target_spec =
  ts_memory :: target_memory
  ts_offset :: u64
  ts_len :: u64
  ts_checksum :: bool

datatype scheme = ShmScheme | NicScheme

fun strip_prefix :: "string \<Rightarrow> string \<Rightarrow> string option" where
  "strip_prefix [] s = Some s"
| "strip_prefix (p # ps) [] = None"
| "strip_prefix (p # ps) (c # cs) = (if p = c then strip_prefix ps cs else None)"

definition target_parse_u64 :: "string \<Rightarrow> malformed + u64" where
  "target_parse_u64 value =
     (let v = trim value;
          parsed = (case strip_prefix HEX_PREFIX v of
              Some hex \<Rightarrow> from_str_radix HEX_RADIX (2 ^ 64) hex
            | None \<Rightarrow> from_str_radix 10 (2 ^ 64) v)
      in case parsed of Some n \<Rightarrow> Inr (of_nat n) | None \<Rightarrow> Inl (BadNumber v))"

definition parse_u32_field :: "string \<Rightarrow> malformed + u32" where
  "parse_u32_field value = (case target_parse_u64 value of
      Inl e \<Rightarrow> Inl e
    | Inr parsed \<Rightarrow> if unat parsed < 2 ^ 32 then Inr (of_nat (unat parsed)) else Inl (NotU32 parsed))"

fun gid_pairs :: "string list \<Rightarrow> malformed + bytes" where
  "gid_pairs [] = Inr []"
| "gid_pairs (pair # rest) =
     (if \<not> valid_utf8 pair then Inl GidNotAscii
      else case from_str_radix 16 256 pair of
        None \<Rightarrow> Inl GidNotHex
      | Some b \<Rightarrow> (case gid_pairs rest of Inl e \<Rightarrow> Inl e | Inr bs \<Rightarrow> Inr (char_of b # bs)))"

definition parse_gid :: "string \<Rightarrow> malformed + bytes" where
  "parse_gid value =
     (if length value \<noteq> GID_HEX_CHARS then Inl (GidLength (length value)) else gid_pairs (as_chunks 2 value))"

definition parse_rail :: "string \<Rightarrow> malformed + token_rail" where
  "parse_rail entry =
     (if entry = [] then Inl EmptyRailEntry
      else let fields = split_on RAIL_FIELD_SEPARATOR entry in
        if length fields \<noteq> RAIL_FIELDS then Inl (RailFieldCount (length fields))
        else case parse_gid (fields ! 0) of
          Inl e \<Rightarrow> Inl e
        | Inr gid \<Rightarrow> (case parse_u32_field (fields ! 1) of
            Inl e \<Rightarrow> Inl e
          | Inr qpn \<Rightarrow> (case parse_u32_field (fields ! 2) of
              Inl e \<Rightarrow> Inl e
            | Inr rkey \<Rightarrow> Inr \<lparr>rail_gid = gid, rail_qpn = qpn, rail_rkey = rkey\<rparr>)))"

fun rail_entries :: "string list \<Rightarrow> token_rail list \<Rightarrow> malformed + token_rail list" where
  "rail_entries [] rails = Inr rails"
| "rail_entries (entry # rest) rails = (case parse_rail (trim entry) of
      Inl e \<Rightarrow> Inl e
    | Inr rail \<Rightarrow>
        if list_ex (\<lambda>r. rail_gid r = rail_gid rail \<and> rail_qpn r = rail_qpn rail) rails then Inl RailTwice
        else let rails = rails @ [rail] in
          if length rails > MAX_TOKEN_RAILS then Inl TooManyTokenRails else rail_entries rest rails)"

definition parse_token_rails :: "string \<Rightarrow> malformed + token_rail list" where
  "parse_token_rails value = rail_entries (split_on RAIL_SEPARATOR value) []"

definition validate_segment_name :: "string \<Rightarrow> malformed option" where
  "validate_segment_name name =
     (if name = [] then Some EmptySegmentName
      else if CHR ''/'' \<in> set name \<or> char_of (0 :: nat) \<in> set name \<or> name = ''.'' \<or> name = ''..'' then Some (UnsafeSegmentName name)
      else None)"

definition parse_checksum :: "string \<Rightarrow> malformed + bool" where
  "parse_checksum value = (let v = trim value in
     if v = CHECKSUM_ALGORITHM then Inr True else if v = CHECKSUM_NONE then Inr False else Inl (UnknownChecksum v))"

text \<open>The parameters read so far.\<close>

record params =
  p_offset :: "u64 option"
  p_len :: "u64 option"
  p_rails :: "token_rail list option"
  p_checksum :: bool

definition parse_param :: "string \<Rightarrow> params \<Rightarrow> malformed + params" where
  "parse_param param p = (case split_once (CHR ''='') param of
      None \<Rightarrow> Inl (NotKeyValue param)
    | Some (key, value) \<Rightarrow> (let k = trim key in
        if k = OFFSET_PARAM then map_sum id (\<lambda>v. p\<lparr>p_offset := Some v\<rparr>) (target_parse_u64 value)
        else if k = LEN_PARAM then map_sum id (\<lambda>v. p\<lparr>p_len := Some v\<rparr>) (target_parse_u64 value)
        else if k = CHECKSUM_PARAM then map_sum id (\<lambda>v. p\<lparr>p_checksum := v\<rparr>) (parse_checksum value)
        else if k = RAILS_PARAM then map_sum id (\<lambda>v. p\<lparr>p_rails := Some v\<rparr>) (parse_token_rails value)
        else Inl (UnknownParameter k)))"

fun parse_params :: "string list \<Rightarrow> params \<Rightarrow> malformed + params" where
  "parse_params [] p = Inr p"
| "parse_params (param # rest) p = (case parse_param param p of Inl e \<Rightarrow> Inl e | Inr p \<Rightarrow> parse_params rest p)"

definition parse_scheme :: "string \<Rightarrow> (string \<times> scheme) option" where
  "parse_scheme raw = (case strip_prefix SHM_SCHEME raw of
      Some rest \<Rightarrow> Some (rest, ShmScheme)
    | None \<Rightarrow> (case strip_prefix NIC_SCHEME raw of Some rest \<Rightarrow> Some (rest, NicScheme) | None \<Rightarrow> None))"

definition parse_memory :: "scheme \<Rightarrow> string \<Rightarrow> token_rail list option \<Rightarrow> malformed + target_memory" where
  "parse_memory sch addr_or_name rails =
     (if sch = NicScheme then (case target_parse_u64 addr_or_name of
          Inl e \<Rightarrow> Inl e
        | Inr base_addr \<Rightarrow> (case rails of None \<Rightarrow> Inl MissingRails | Some rs \<Rightarrow> Inr (Nic base_addr rs)))
      else let name = dropWhile (\<lambda>c. c = CHR ''/'') addr_or_name in
        case validate_segment_name name of Some e \<Rightarrow> Inl e | None \<Rightarrow> Inr (Shm name))"

definition target_parse :: "string \<Rightarrow> malformed + target_spec" where
  "target_parse raw0 = (let raw = trim raw0 in
     case parse_scheme raw of
       None \<Rightarrow> Inl UnsupportedScheme
     | Some (rest, sch) \<Rightarrow>
         (let parts = split_on PARAM_SEPARATOR rest; addr_or_name = trim (hd parts) in
          case parse_params (tl parts) \<lparr>p_offset = None, p_len = None, p_rails = None, p_checksum = True\<rparr> of
            Inl e \<Rightarrow> Inl e
          | Inr p \<Rightarrow> (case p_len p of
              None \<Rightarrow> Inl MissingLen
            | Some len \<Rightarrow>
                if len = 0 then Inl ZeroLen
                else if sch \<noteq> NicScheme \<and> p_rails p \<noteq> None then Inl RailsNotForShm
                else case parse_memory sch addr_or_name (p_rails p) of
                  Inl e \<Rightarrow> Inl e
                | Inr memory \<Rightarrow> Inr \<lparr>ts_memory = memory, ts_offset = (case p_offset p of None \<Rightarrow> 0 | Some v \<Rightarrow> v),
                    ts_len = len, ts_checksum = p_checksum p\<rparr>)))"

section \<open>Printing\<close>

datatype render_error = RenderNoRails | RenderTooManyRails nat | RenderEmptyWindow

definition hex_gid :: "bytes \<Rightarrow> string" where
  "hex_gid gid = concat (map hex_byte gid)"

definition render_rail :: "token_rail \<Rightarrow> string" where
  "render_rail r = hex_gid (rail_gid r) @ [CHR ''/''] @ decimal (unat (rail_qpn r)) @ [CHR ''/''] @ decimal (unat (rail_rkey r))"

fun join_with :: "char \<Rightarrow> string list \<Rightarrow> string" where
  "join_with c [] = []"
| "join_with c [s] = s"
| "join_with c (s # t # rest) = s @ [c] @ join_with c (t # rest)"

definition render :: "u64 \<Rightarrow> u64 \<Rightarrow> u64 \<Rightarrow> bool \<Rightarrow> token_rail list \<Rightarrow> render_error + string" where
  "render base_addr offset len checksum rails =
     (if rails = [] then Inl RenderNoRails
      else if length rails > MAX_ANNOUNCED_RAILS then Inl (RenderTooManyRails (length rails))
      else if len = 0 then Inl RenderEmptyWindow
      else Inr (''nic:'' @ ''0x'' @ lower_hex (unat base_addr) @ '';'' @ ''offset='' @ decimal (unat offset) @ '';'' @ ''len='' @ decimal (unat len)
        @ (if checksum then [] else '';checksum=none'') @ '';rails='' @ join_with (CHR '','') (map render_rail rails)))"

section \<open>What a parsed descriptor names\<close>

definition rail_id :: "token_rail \<Rightarrow> bytes \<times> u32" where
  "rail_id r = (rail_gid r, rail_qpn r)"

definition rails_ok :: "token_rail list \<Rightarrow> bool" where
  "rails_ok rails \<longleftrightarrow> length rails \<le> 64 \<and> list_all rail_ok rails \<and> distinct (map rail_id rails)"

definition segment_name_ok :: "string \<Rightarrow> bool" where
  "segment_name_ok name \<longleftrightarrow> name \<notin> {[], ''.'', ''..''} \<and> CHR ''/'' \<notin> set name \<and> char_of (0 :: nat) \<notin> set name"

fun memory_ok :: "target_memory \<Rightarrow> bool" where
  "memory_ok (Shm name) = segment_name_ok name"
| "memory_ok (Nic base_addr rails) \<longleftrightarrow> rails \<noteq> [] \<and> rails_ok rails"

lemma gid_pairs_length: "gid_pairs ps = Inr g \<Longrightarrow> length g = length ps"
  by (induction ps arbitrary: g) (auto split: if_splits option.splits sum.splits)

lemma parse_rail_ok: "parse_rail entry = Inr r \<Longrightarrow> rail_ok r"
proof -
  assume "parse_rail entry = Inr r"
  then have "\<exists>f. parse_gid f = Inr (rail_gid r)"
    by (simp add: parse_rail_def Let_def split: if_splits sum.splits) auto
  then obtain f where "parse_gid f = Inr (rail_gid r)" ..
  then have "gid_pairs (as_chunks 2 f) = Inr (rail_gid r)" "length f = 32"
    by (auto simp: parse_gid_def target_consts split: if_splits)
  then show ?thesis using gid_pairs_length as_chunks_whole(3) [of f 16 2] unfolding rail_ok_def by fastforce
qed

lemma rail_entries_ok:
  "rail_entries es rails = Inr rs \<Longrightarrow> rails_ok rails \<Longrightarrow> rails_ok rs \<and> (es \<noteq> [] \<or> rails \<noteq> [] \<longrightarrow> rs \<noteq> [])"
proof (induction es arbitrary: rails)
  case (Cons e es)
  then obtain r where r: "parse_rail (trim e) = Inr r" "\<not> list_ex (\<lambda>x. rail_gid x = rail_gid r \<and> rail_qpn x = rail_qpn r) rails"
      "length (rails @ [r]) \<le> 64" "rail_entries es (rails @ [r]) = Inr rs"
    by (auto simp: Let_def target_consts not_less split: sum.splits if_splits)
  have "rail_id r \<notin> set (map rail_id rails)" using r(2) by (auto simp: list_ex_iff rail_id_def)
  then have "rails_ok (rails @ [r])" using Cons.prems(2) r(3) parse_rail_ok [OF r(1)] by (auto simp: rails_ok_def)
  with Cons.IH [OF r(4)] show ?case by simp
qed simp

lemma split_on_nonempty: "split_on c s \<noteq> []"
  by (cases s) (auto split: list.splits)

lemma split_on_at: "split_on c (s @ c # t) = split_on c s @ split_on c t"
proof (induction s)
  case (Cons x s)
  then show ?case using split_on_nonempty [of c s] by (cases "split_on c s") auto
qed simp

lemma parse_token_rails_ok: "parse_token_rails v = Inr rs \<Longrightarrow> rs \<noteq> [] \<and> rails_ok rs"
  using rail_entries_ok [of "split_on RAIL_SEPARATOR v" "[]" rs] split_on_nonempty
  by (auto simp: parse_token_rails_def rails_ok_def)

lemma map_sum_Inr: "map_sum f g x = Inr y \<longleftrightarrow> (\<exists>z. x = Inr z \<and> y = g z)"
  by (cases x) auto

lemma parse_param_rails:
  assumes "parse_param x p = Inr q"
  shows "p_rails q = p_rails p \<or> (\<exists>v rs. parse_token_rails v = Inr rs \<and> p_rails q = Some rs)"
proof -
  have "split_once (CHR ''='') x \<noteq> None" using assms by (cases "split_once (CHR ''='') x") (simp_all add: parse_param_def)
  then obtain k v where "split_once (CHR ''='') x = Some (k, v)" by auto
  then show ?thesis using assms by (auto simp: parse_param_def Let_def map_sum_Inr split: if_splits)
qed

lemma parse_params_rails:
  "parse_params ps p = Inr p' \<Longrightarrow> (\<forall>rs. p_rails p = Some rs \<longrightarrow> rs \<noteq> [] \<and> rails_ok rs)
    \<Longrightarrow> (\<forall>rs. p_rails p' = Some rs \<longrightarrow> rs \<noteq> [] \<and> rails_ok rs)"
proof (induction ps arbitrary: p)
  case (Cons x ps)
  obtain q where q: "parse_param x p = Inr q" "parse_params ps q = Inr p'"
    using Cons.prems(1) by (cases "parse_param x p") simp_all
  have "rs \<noteq> [] \<and> rails_ok rs" if "p_rails q = Some rs" for rs
    using parse_param_rails [OF q(1)]
  proof (elim disjE exE conjE)
    assume "p_rails q = p_rails p"
    then show ?thesis using that Cons.prems(2) by simp
  next
    fix v rs' assume "parse_token_rails v = Inr rs'" "p_rails q = Some rs'"
    then show ?thesis using that parse_token_rails_ok [of v rs'] by simp
  qed
  then show ?case by (intro Cons.IH [OF q(2)] allI impI)
qed simp

lemma parse_memory_ok:
  assumes "parse_memory sch a rails = Inr m" "\<forall>rs. rails = Some rs \<longrightarrow> rs \<noteq> [] \<and> rails_ok rs"
  shows "memory_ok m"
proof (cases sch)
  case ShmScheme
  then show ?thesis using assms(1)
    by (auto simp: parse_memory_def Let_def validate_segment_name_def segment_name_ok_def simp del: dropWhile_eq_Nil_conv split: if_splits)
next
  case NicScheme
  then obtain b rs where "m = Nic b rs" "rails = Some rs"
    using assms(1) by (simp add: parse_memory_def split: sum.splits option.splits) auto
  then show ?thesis using assms(2) by simp
qed

section \<open>The parser reads what the client prints\<close>

lemma strip_hex_decimal: "strip_prefix ''0x'' (decimal n) = None"
proof -
  have "CHR ''x'' \<notin> set (decimal n)" by (rule decimal_no_char) simp
  then show ?thesis by (cases "decimal n"; cases "tl (decimal n)") auto
qed

lemma parse_number: "n < 2 ^ 64 \<Longrightarrow> target_parse_u64 (decimal n) = Inr (of_nat n)"
  by (simp add: target_parse_u64_def target_consts trim_decimal strip_hex_decimal parse_decimal)

lemma parse_address: "target_parse_u64 (''0x'' @ lower_hex (unat w)) = Inr w"
proof -
  have "graphic (last (lower_hex (unat w)))"
    using lower_hex_chars [of "last (lower_hex (unat w))" "unat w"] lower_hex_nonempty [of "unat w"] hex_char_graphic by auto
  then have "trim (''0x'' @ lower_hex (unat w)) = ''0x'' @ lower_hex (unat w)"
    using lower_hex_nonempty [of "unat w"] by (intro trim_graphic) (simp_all add: graphic_def)
  then show ?thesis using unat_bound [of w] by (simp add: target_parse_u64_def target_consts parse_lower_hex)
qed

lemma parse_u32: "parse_u32_field (decimal (unat q)) = Inr q"
proof -
  have q: "unat q < 2 ^ 32" using unat_bound [of q] by simp
  then have "target_parse_u64 (decimal (unat q)) = Inr (of_nat (unat q))" by (intro parse_number) simp
  moreover have "unat (of_nat (unat q) :: u64) = unat q" using q by (simp add: unsigned_ucast_eq take_bit_nat_eq_self)
  ultimately show ?thesis using q by (simp add: parse_u32_field_def)
qed

lemma hex_byte_chars: "c \<in> set (hex_byte b) \<Longrightarrow> \<exists>d < 16. c = hex_char d"
proof -
  have "of_char b div 16 < (16 :: nat)" using of_char_bound [of b] by (simp add: less_mult_imp_div_less)
  moreover have "of_char b mod 16 < (16 :: nat)" by simp
  ultimately show "c \<in> set (hex_byte b) \<Longrightarrow> \<exists>d < 16. c = hex_char d"
    unfolding hex_byte_def by (auto simp del: mod_less_divisor)
qed

lemma hex_byte_utf8: "valid_utf8 (hex_byte b)"
proof -
  have "byte_in 0 127 c" if "c \<in> set (hex_byte b)" for c
    using hex_byte_chars [OF that] by (auto simp: byte_in_def of_char_hex_char)
  then show ?thesis by (simp add: hex_byte_def)
qed

lemma parse_hex_gid:
  assumes "length g = 16"
  shows "parse_gid (hex_gid g) = Inr g"
proof -
  have w: "list_all (\<lambda>x. length x = 2) (map hex_byte bs)" for bs by (simp add: list_all_iff hex_byte_def)
  have l: "length (hex_gid bs) = 2 * length bs" for bs by (induction bs) (simp_all add: hex_gid_def hex_byte_def)
  have "gid_pairs (map hex_byte bs) = Inr bs" for bs
    by (induction bs) (simp_all add: hex_byte_utf8 parse_hex_byte)
  then show ?thesis using as_chunks_concat [OF w, of g] l [of g] assms by (simp add: parse_gid_def target_consts hex_gid_def)
qed

text \<open>The separators are not among the characters printed.\<close>

definition printed :: "char \<Rightarrow> bool" where
  "printed c \<longleftrightarrow> graphic c \<and> c \<notin> {CHR ''/'', CHR '','', CHR '';'', CHR ''=''}"

lemma printed_hex_char: "d < 16 \<Longrightarrow> printed (hex_char d)"
proof -
  assume d: "d < 16"
  then have "of_char (hex_char d) \<notin> {47, 44, 59, 61 :: nat}" by (auto simp: of_char_hex_char)
  then have "hex_char d \<notin> {CHR ''/'', CHR '','', CHR '';'', CHR ''=''}" by auto
  then show ?thesis using hex_char_graphic [OF d] by (simp add: printed_def)
qed

lemma printed_decimal: "c \<in> set (decimal n) \<Longrightarrow> printed c"
proof -
  assume c: "c \<in> set (decimal n)"
  then obtain d where "d < 10" "c = digit d" using decimal_digits by blast
  then have "of_char c \<notin> {47, 44, 59, 61 :: nat}" by (auto simp: of_char_digit)
  then have "c \<notin> {CHR ''/'', CHR '','', CHR '';'', CHR ''=''}" by auto
  then show ?thesis using decimal_graphic [OF c] by (simp add: printed_def)
qed

lemma printed_lower_hex: "c \<in> set (lower_hex n) \<Longrightarrow> printed c"
  using lower_hex_chars printed_hex_char by blast

lemma printed_hex_gid: "c \<in> set (hex_gid g) \<Longrightarrow> printed c"
  using hex_byte_chars printed_hex_char by (fastforce simp: hex_gid_def)

lemma render_rail_chars: "c \<in> set (render_rail r) \<Longrightarrow> graphic c \<and> c \<notin> {CHR '','', CHR '';'', CHR ''=''}"
  using printed_hex_gid printed_decimal by (fastforce simp: render_rail_def printed_def graphic_def)

lemma not_printed: "\<not> printed (CHR ''/'')" "\<not> printed (CHR '','')" "\<not> printed (CHR '';'')" "\<not> printed (CHR ''='')"
  by (simp_all add: printed_def)

lemma parse_render_rail:
  assumes "rail_ok r"
  shows "parse_rail (render_rail r) = Inr r"
proof -
  have no: "CHR ''/'' \<notin> set (hex_gid g)" "CHR ''/'' \<notin> set (decimal n)" for g n
    using printed_hex_gid printed_decimal not_printed(1) by blast+
  then have "split_on (CHR ''/'') (render_rail r) = [hex_gid (rail_gid r), decimal (unat (rail_qpn r)), decimal (unat (rail_rkey r))]"
    by (simp add: render_rail_def split_on_append split_on_no_sep)
  moreover have "render_rail r \<noteq> []" by (simp add: render_rail_def)
  ultimately show ?thesis
    using assms by (simp add: parse_rail_def target_consts parse_hex_gid parse_u32 rail_ok_def)
qed

lemma trim_render_rail: "trim (render_rail r) = render_rail r"
  by (rule trim_graphic_string) (use render_rail_chars in \<open>auto simp: render_rail_def\<close>)

lemma rail_entries_render:
  "rails_ok (acc @ rails) \<Longrightarrow> rail_entries (map render_rail rails) acc = Inr (acc @ rails)"
proof (induction rails arbitrary: acc)
  case (Cons r rails)
  have ok: "rail_ok r" "rails_ok ((acc @ [r]) @ rails)" using Cons.prems by (auto simp: rails_ok_def)
  have "rail_id r \<notin> rail_id ` set acc" using Cons.prems by (auto simp: rails_ok_def)
  then have "\<not> list_ex (\<lambda>x. rail_gid x = rail_gid r \<and> rail_qpn x = rail_qpn r) acc"
    by (force simp: list_ex_iff rail_id_def image_iff)
  moreover have "length (acc @ [r]) \<le> 64" using Cons.prems by (simp add: rails_ok_def)
  ultimately show ?case using Cons.IH [OF ok(2)]
    by (simp add: trim_render_rail parse_render_rail ok(1) Let_def target_consts)
qed simp

lemma split_join: "xs \<noteq> [] \<Longrightarrow> (\<And>s. s \<in> set xs \<Longrightarrow> c \<notin> set s) \<Longrightarrow> split_on c (join_with c xs) = xs"
  by (induction c xs rule: join_with.induct) (simp_all add: split_on_no_sep split_on_append)

lemma parse_render_rails: "rails_ok rails \<Longrightarrow> rails \<noteq> [] \<Longrightarrow> parse_token_rails (join_with (CHR '','') (map render_rail rails)) = Inr rails"
  using rail_entries_render [of "[]" rails] split_join [of "map render_rail rails" "CHR '',''"] render_rail_chars
  by (fastforce simp: parse_token_rails_def target_consts)

lemma join_chars: "c \<in> set (join_with d xs) \<Longrightarrow> c = d \<or> (\<exists>s \<in> set xs. c \<in> set s)"
  by (induction d xs rule: join_with.induct) auto

lemma split_params: "(\<And>s. s \<in> set (p # ps) \<Longrightarrow> c \<notin> set s) \<Longrightarrow> split_on c (p @ concat (map (\<lambda>s. c # s) ps)) = p # ps"
  by (induction ps arbitrary: p) (simp_all add: split_on_no_sep split_on_append)

text \<open>One parameter at a time.\<close>

lemma trim_keys: "trim ''offset'' = ''offset''" "trim ''len'' = ''len''" "trim ''checksum'' = ''checksum''" "trim ''rails'' = ''rails''" "trim ''none'' = ''none''"
  by (rule trim_graphic_string; auto simp: graphic_def)+

lemma parse_printed_params:
  "parse_param (''offset='' @ decimal (unat w)) p = Inr (p\<lparr>p_offset := Some w\<rparr>)"
  "parse_param (''len='' @ decimal (unat w)) p = Inr (p\<lparr>p_len := Some w\<rparr>)"
  "parse_param ''checksum=none'' p = Inr (p\<lparr>p_checksum := False\<rparr>)"
  "rails_ok rails \<Longrightarrow> rails \<noteq> [] \<Longrightarrow>
     parse_param (''rails='' @ join_with (CHR '','') (map render_rail rails)) p = Inr (p\<lparr>p_rails := Some rails\<rparr>)"
  using unat_bound [of w]
  by (simp_all add: parse_param_def target_consts trim_keys parse_number parse_checksum_def parse_render_rails)

lemma join_last: "xs \<noteq> [] \<Longrightarrow> last xs \<noteq> [] \<Longrightarrow> join_with c xs \<noteq> [] \<and> last (join_with c xs) = last (last xs)"
  by (induction c xs rule: join_with.induct) auto

lemma render_parts:
  assumes "render base off len checksum rails = Inr raw"
  shows "raw = ''nic:'' @ (''0x'' @ lower_hex (unat base)) @ concat (map (\<lambda>s. CHR '';'' # s)
      ([''offset='' @ decimal (unat off), ''len='' @ decimal (unat len)] @ (if checksum then [] else [''checksum=none''])
        @ [''rails='' @ join_with (CHR '','') (map render_rail rails)]))"
    and "rails \<noteq> []" "len \<noteq> 0" "length rails \<le> 64"
  using assms by (auto simp: render_def target_consts split: if_splits)

lemma trim_rendered:
  assumes "render base off len checksum rails = Inr raw"
  shows "trim raw = raw"
proof (rule trim_graphic)
  let ?j = "join_with (CHR '','') (map render_rail rails)"
  have "rails \<noteq> []" by (rule render_parts(2) [OF assms])
  moreover have e: "render_rail r \<noteq> []" for r by (simp add: render_rail_def)
  ultimately have j: "?j \<noteq> []" "last ?j = last (render_rail (last rails))"
    using join_last [of "map render_rail rails"] by (simp_all add: last_map)
  obtain pre where "raw = pre @ ?j" using render_parts(1) [OF assms] by simp
  then have "last raw = last (render_rail (last rails))" using j by (simp add: last_append)
  then show "graphic (last raw)" using render_rail_chars e by (metis last_in_set)
qed (use render_parts(1) [OF assms] in \<open>simp_all add: graphic_def\<close>)

section \<open>Properties\<close>

text \<open>
  C23 (the daemon reads the descriptor its client prints): for rails that are distinct and have 16-byte GIDs, whatever the client
  renders the daemon parses, and gets the same base address, offset, length, integrity choice and rails in the same order.
\<close>

theorem daemon_parses_what_client_renders:
  assumes "list_all rail_ok rails" "distinct (map rail_id rails)" "render base off len checksum rails = Inr raw"
  shows "target_parse raw = Inr \<lparr>ts_memory = Nic base rails, ts_offset = off, ts_len = len, ts_checksum = checksum\<rparr>"
proof -
  note r = render_parts [OF assms(3)]
  have ok: "rails_ok rails" using assms(1,2) r(4) by (simp add: rails_ok_def)
  let ?ps = "[''offset='' @ decimal (unat off), ''len='' @ decimal (unat len)] @ (if checksum then [] else [''checksum=none''])
        @ [''rails='' @ join_with (CHR '','') (map render_rail rails)]"
  have semi: "CHR '';'' \<notin> set (lower_hex n)" "CHR '';'' \<notin> set (decimal n)" "CHR '';'' \<notin> set (join_with (CHR '','') (map render_rail rails))" for n
    using printed_lower_hex printed_decimal not_printed(3) join_chars render_rail_chars by (blast, blast, fastforce)
  have "split_on (CHR '';'') ((''0x'' @ lower_hex (unat base)) @ concat (map (\<lambda>s. CHR '';'' # s) ?ps)) = (''0x'' @ lower_hex (unat base)) # ?ps"
    by (rule split_params) (use semi in \<open>auto split: if_splits\<close>)
  then have split: "split_on PARAM_SEPARATOR (drop 4 raw) = (''0x'' @ lower_hex (unat base)) # ?ps" by (simp add: r(1) target_consts)
  have scheme: "parse_scheme raw = Some (drop 4 raw, NicScheme)" by (simp add: parse_scheme_def r(1) target_consts)
  have params: "parse_params ?ps \<lparr>p_offset = None, p_len = None, p_rails = None, p_checksum = True\<rparr>
      = Inr \<lparr>p_offset = Some off, p_len = Some len, p_rails = Some rails, p_checksum = checksum\<rparr>"
  proof -
    define a b c d where "a = ''offset='' @ decimal (unat off)" and "b = ''len='' @ decimal (unat len)" and "c = ''checksum=none''"
      and "d = ''rails='' @ join_with (CHR '','') (map render_rail rails)"
    have "parse_param a p = Inr (p\<lparr>p_offset := Some off\<rparr>)" "parse_param b p = Inr (p\<lparr>p_len := Some len\<rparr>)"
      "parse_param c p = Inr (p\<lparr>p_checksum := False\<rparr>)" "parse_param d p = Inr (p\<lparr>p_rails := Some rails\<rparr>)" for p
      unfolding a_def b_def c_def d_def by (intro parse_printed_params ok r(2))+
    then show ?thesis unfolding a_def [symmetric] b_def [symmetric] c_def [symmetric] d_def [symmetric] by (cases checksum) simp_all
  qed
  have base: "target_parse_u64 (trim (''0x'' @ lower_hex (unat base))) = Inr base"
  proof -
    have "trim (''0x'' @ lower_hex (unat base)) = ''0x'' @ lower_hex (unat base)"
      by (rule trim_graphic_string) (use printed_lower_hex in \<open>auto simp: printed_def graphic_def\<close>)
    then show ?thesis by (simp only: parse_address)
  qed
  show ?thesis
    unfolding target_parse_def Let_def trim_rendered [OF assms(3)] scheme option.case prod.case split list.sel params sum.case
    using r(3) base by (simp add: parse_memory_def)
qed

theorem daemon_parses_what_client_renders_witness:
  "let rails = [\<lparr>rail_gid = replicate 16 CHR ''g'', rail_qpn = 0, rail_rkey = 7\<rparr>, \<lparr>rail_gid = replicate 16 CHR ''g'', rail_qpn = 1, rail_rkey = 7\<rparr>] in
   \<exists>raw. render 4096 64 1024 False rails = Inr raw
     \<and> target_parse raw = Inr \<lparr>ts_memory = Nic 4096 rails, ts_offset = 64, ts_len = 1024, ts_checksum = False\<rparr>"
proof -
  let ?rails = "[\<lparr>rail_gid = replicate 16 CHR ''g'', rail_qpn = 0, rail_rkey = 7\<rparr>, \<lparr>rail_gid = replicate 16 CHR ''g'', rail_qpn = 1, rail_rkey = 7\<rparr>] :: token_rail list"
  have "list_all rail_ok ?rails" "distinct (map rail_id ?rails)" by (simp_all add: rail_ok_def rail_id_def)
  moreover obtain raw where "render 4096 64 1024 False ?rails = Inr raw" by (simp add: render_def target_consts)
  ultimately show ?thesis using daemon_parses_what_client_renders [of ?rails 4096 64 1024 False raw] by (simp add: Let_def)
qed

text \<open>
  Whatever parses has a window of at least one byte, and names either a segment that is a single
  file name, neither empty nor \<open>.\<close> nor \<open>..\<close>, without a slash or NUL, so that it stays inside the segment directory; or a
  base address with between one and 64 rails, each with a GID of 16 bytes and no two with the same GID and queue pair.
\<close>

lemma parsed_target_ok:
  assumes "target_parse raw = Inr spec"
  shows "0 < unat (ts_len spec) \<and> (case ts_memory spec of
      Shm name \<Rightarrow> name \<notin> {[], ''.'', ''..''} \<and> split_on (CHR ''/'') (dir @ ''/'' @ name) = split_on (CHR ''/'') dir @ [name] \<and> char_of (0 :: nat) \<notin> set name
    | Nic base rails \<Rightarrow> 1 \<le> length rails \<and> length rails \<le> 64 \<and> list_all rail_ok rails \<and> distinct (map rail_id rails))"
proof -
  obtain rest sch where sch: "parse_scheme (trim raw) = Some (rest, sch)"
    using assms by (cases "parse_scheme (trim raw)") (auto simp: target_parse_def)
  let ?parts = "split_on PARAM_SEPARATOR rest"
  let ?p0 = "\<lparr>p_offset = None, p_len = None, p_rails = None, p_checksum = True\<rparr>"
  obtain p where p: "parse_params (tl ?parts) ?p0 = Inr p"
    using assms sch by (cases "parse_params (tl ?parts) ?p0") (simp_all add: target_parse_def Let_def)
  obtain len where len: "p_len p = Some len" "len \<noteq> 0"
    using assms sch p by (cases "p_len p") (auto simp: target_parse_def Let_def split: if_splits)
  have "\<exists>m. parse_memory sch (trim (hd ?parts)) (p_rails p) = Inr m \<and> ts_memory spec = m \<and> ts_len spec = len"
    using assms sch p len by (simp add: target_parse_def Let_def split: if_splits sum.splits) auto
  then obtain m where m: "parse_memory sch (trim (hd ?parts)) (p_rails p) = Inr m" "ts_memory spec = m" "ts_len spec = len" by blast
  have ok: "memory_ok m" by (rule parse_memory_ok [OF m(1)], rule parse_params_rails [OF p]) simp
  have "0 < unat (ts_len spec)" using len(2) m(3) by (simp add: unat_gt_0)
  then show ?thesis
  proof (cases m)
    case (Shm name)
    then show ?thesis using ok m(2) \<open>0 < unat (ts_len spec)\<close> by (simp add: segment_name_ok_def split_on_at split_on_no_sep)
  next
    case (Nic base rails)
    then show ?thesis using ok m(2) \<open>0 < unat (ts_len spec)\<close> by (simp add: rails_ok_def Suc_le_eq)
  qed
qed

lemma parsed_target_ok_example:
  "\<exists>spec. target_parse ''shm:/seg;len=16'' = Inr spec \<and> ts_memory spec = Shm ''seg'' \<and> 0 < unat (ts_len spec)"
proof -
  have t: "trim ''shm:/seg;len=16'' = ''shm:/seg;len=16''" "trim ''/seg'' = ''/seg''" "trim ''16'' = ''16''"
    by (rule trim_graphic_string; auto simp: graphic_def)+
  obtain spec where s: "target_parse ''shm:/seg;len=16'' = Inr spec" "ts_memory spec = Shm ''seg''"
    by (simp add: target_parse_def parse_scheme_def target_consts t parse_param_def trim_keys target_parse_u64_def from_str_radix_def
        to_digit_def parse_memory_def validate_segment_name_def Let_def char_of_def)
  then show ?thesis using parsed_target_ok [OF s(1), of "''/dev/shm''"] by auto
qed

text \<open>
  C38 (a sign passes for a hexadecimal digit): a GID with a plus sign in place of the first digit of every byte is accepted, and reads as
  the GID with a zero there.
\<close>

theorem gid_signs_accepted:
  assumes "length ds = 16" "list_all (\<lambda>d. d < 16) ds"
  shows "parse_gid (concat (map (\<lambda>d. [CHR ''+'', hex_char d]) ds)) = Inr (map char_of ds)"
proof -
  have "valid_utf8 [CHR ''+'', hex_char d] \<and> from_str_radix 16 256 [CHR ''+'', hex_char d] = Some d" if "d < 16" for d
    using that by (simp add: byte_in_def of_char_hex_char from_str_radix_def to_digit_hex_char)
  then have "list_all (\<lambda>d. d < 16) bs \<Longrightarrow> gid_pairs (map (\<lambda>d. [CHR ''+'', hex_char d]) bs) = Inr (map char_of bs)" for bs
    by (induction bs) (simp_all del: valid_utf8.simps)
  moreover have "as_chunks 2 (concat (map (\<lambda>d. [CHR ''+'', hex_char d]) ds)) = map (\<lambda>d. [CHR ''+'', hex_char d]) ds"
    by (rule as_chunks_concat) (simp_all add: list_all_iff)
  moreover have "length (concat (map (\<lambda>d. [CHR ''+'', hex_char d]) bs)) = 2 * length bs" for bs by (induction bs) simp_all
  ultimately show ?thesis using assms by (simp add: parse_gid_def target_consts)
qed

theorem gid_signs_accepted_witness:
  "parse_gid (concat (map (\<lambda>d. [CHR ''+'', hex_char d]) (replicate 16 15))) = Inr (replicate 16 (char_of (15 :: nat)))"
  using gid_signs_accepted [of "replicate 16 15"] by (simp add: list_all_iff map_replicate)

end
