(* ===== verification/Fill.thy ===== *)
theory Fill
  imports Tier
begin

text \<open>
  The claims on chunk keys that make fills exclusive, let requests share one backend read, and fence a fill off from
  an invalidation that races it (\<^verbatim>\<open>pacer-daemon/src/proxy/fill.rs\<close>). The registry keeps two maps, each
  behind its own lock: what is claimed, and the reads in flight that may end in an insert. A broadcast channel is
  its number; what is sent on it is kept in order, and what a receiver gets is an input of the step that receives.
\<close>

section \<open>The registry\<close>

datatype fill_state = Fetching nat | Filled bytes | Exclusive | Poisoned

record read_epoch =
  readers :: nat
  epoch :: u64

record fill_registry =
  claims :: "(string \<times> fill_state) list"
  reads :: "(string \<times> read_epoch) list"
  channels :: nat
  sent :: "(nat \<times> bytes) list"
  fill_inflight :: int
  fill_abandoned :: u64

datatype fill_claim = Lead | Follow nat | Ready bytes | Busy

definition registry_new :: fill_registry where
  "registry_new = \<lparr>claims = [], reads = [], channels = 0, sent = [], fill_inflight = 0, fill_abandoned = 0\<rparr>"

definition guard_new :: "fill_registry \<Rightarrow> fill_registry" where
  "guard_new reg = reg\<lparr>fill_inflight := fill_inflight reg + 1\<rparr>"

definition claim_fill :: "string \<Rightarrow> fill_registry \<Rightarrow> fill_claim \<times> fill_registry" where
  "claim_fill key reg = (case map_of (claims reg) key of
      Some (Fetching tx) \<Rightarrow> (Follow tx, reg)
    | Some (Filled b) \<Rightarrow> (Ready b, reg)
    | Some Exclusive \<Rightarrow> (Busy, reg)
    | Some Poisoned \<Rightarrow> (Busy, reg)
    | None \<Rightarrow>
        (let tx = channels reg
         in (Lead, guard_new (reg\<lparr>channels := tx + 1, claims := AList.update key (Fetching tx) (claims reg)\<rparr>))))"

definition claim_exclusive :: "string \<Rightarrow> fill_registry \<Rightarrow> bool \<times> fill_registry" where
  "claim_exclusive key reg =
     (if map_of (claims reg) key \<noteq> None then (False, reg)
      else (True, reg\<lparr>claims := AList.update key Exclusive (claims reg)\<rparr>))"

definition for_fill :: "string \<Rightarrow> fill_registry \<Rightarrow> bool \<times> fill_registry" where
  "for_fill key reg = (let (won, reg) = claim_exclusive key reg in if won then (True, guard_new reg) else (False, reg))"

text \<open>The two critical sections of \<open>poison\<close>, one per lock.\<close>

definition poison_claims :: "string \<Rightarrow> fill_registry \<Rightarrow> fill_registry" where
  "poison_claims key reg = (case map_of (claims reg) key of
      None \<Rightarrow> reg
    | Some _ \<Rightarrow> reg\<lparr>claims := AList.update key Poisoned (claims reg)\<rparr>)"

definition poison_reads :: "string \<Rightarrow> fill_registry \<Rightarrow> fill_registry" where
  "poison_reads key reg = (case map_of (reads reg) key of
      None \<Rightarrow> reg
    | Some r \<Rightarrow> reg\<lparr>reads := AList.update key (r\<lparr>epoch := epoch r + 1\<rparr>) (reads reg)\<rparr>)"

definition poison :: "string \<Rightarrow> fill_registry \<Rightarrow> fill_registry" where
  "poison key reg = poison_reads key (poison_claims key reg)"

text \<open>A ticket is the epoch it was taken at; its key is that of the read.\<close>

definition begin_read :: "string \<Rightarrow> fill_registry \<Rightarrow> u64 \<times> fill_registry" where
  "begin_read key reg =
     (let r = (case map_of (reads reg) key of None \<Rightarrow> \<lparr>readers = 0, epoch = 0\<rparr> | Some r \<Rightarrow> r);
          r = r\<lparr>readers := readers r + 1\<rparr>
      in (epoch r, reg\<lparr>reads := AList.update key r (reads reg)\<rparr>))"

definition is_stale :: "string \<Rightarrow> u64 \<Rightarrow> fill_registry \<Rightarrow> bool" where
  "is_stale key e reg = (case map_of (reads reg) key of None \<Rightarrow> True | Some r \<Rightarrow> epoch r \<noteq> e)"

definition ticket_drop :: "string \<Rightarrow> fill_registry \<Rightarrow> fill_registry" where
  "ticket_drop key reg = (case map_of (reads reg) key of
      None \<Rightarrow> reg
    | Some r \<Rightarrow>
        (let r = r\<lparr>readers := readers r - 1\<rparr>
         in if readers r = 0 then reg\<lparr>reads := AList.delete key (reads reg)\<rparr>
            else reg\<lparr>reads := AList.update key r (reads reg)\<rparr>))"

definition registry_is_poisoned :: "string \<Rightarrow> fill_registry \<Rightarrow> bool" where
  "registry_is_poisoned key reg \<longleftrightarrow> map_of (claims reg) key = Some Poisoned"

definition publish_fill :: "string \<Rightarrow> bytes \<Rightarrow> fill_registry \<Rightarrow> fill_registry" where
  "publish_fill key b reg = (case map_of (claims reg) key of
      Some (Fetching tx) \<Rightarrow> reg\<lparr>sent := sent reg @ [(tx, b)], claims := AList.update key (Filled b) (claims reg)\<rparr>
    | _ \<Rightarrow> reg)"

definition release_claim :: "string \<Rightarrow> fill_registry \<Rightarrow> fill_registry" where
  "release_claim key reg = reg\<lparr>claims := AList.delete key (claims reg)\<rparr>"

text \<open>Dropping a guard; the ticket in it, if any, drops after.\<close>

definition guard_drop :: "string \<Rightarrow> bool \<Rightarrow> fill_registry \<Rightarrow> fill_registry" where
  "guard_drop key completed reg =
     (let reg = release_claim key reg;
          reg = reg\<lparr>fill_inflight := fill_inflight reg - 1\<rparr>
      in if completed then reg else reg\<lparr>fill_abandoned := fill_abandoned reg + 1\<rparr>)"

definition guard_is_poisoned :: "string \<Rightarrow> u64 option \<Rightarrow> fill_registry \<Rightarrow> bool" where
  "guard_is_poisoned key read reg \<longleftrightarrow>
     registry_is_poisoned key reg \<or> (case read of None \<Rightarrow> False | Some e \<Rightarrow> is_stale key e reg)"

text \<open>Whether two entity tags name one version: both present, and equal without their quotes.\<close>

definition trim_quotes :: "string \<Rightarrow> string" where
  "trim_quotes s = rev (dropWhile (\<lambda>c. c = char_of (34 :: nat)) (rev (dropWhile (\<lambda>c. c = char_of (34 :: nat)) s)))"

definition same_version :: "string option \<Rightarrow> string option \<Rightarrow> bool" where
  "same_version a b = (case (a, b) of (Some a, Some b) \<Rightarrow> trim_quotes a = trim_quotes b | _ \<Rightarrow> False)"

section \<open>Fills and invalidations, step by step\<close>

text \<open>
  A fill is one request's way through \<open>fetch_owned\<close>, \<open>fetch_leading\<close>, \<open>fetch_from_backend\<close>, \<open>maybe_fill\<close> and \<open>insert_fenced\<close>,
  cut where it takes a lock, reads the backend, writes the tier or awaits. A guard is represented by the ticket in it.
  A write is what an overwrite does to this node: the backend mutation, then \<open>forget_fenced\<close>.
\<close>

datatype fill_phase =
    Claiming
  | Leading
  | Published bytes
  | Following nat
  | FetchBackend
  | Reading u64
  | Fetched u64 bytes
  | Checking "u64 option" bytes
  | CheckingTicket u64 bytes
  | Putting "u64 option" bytes
  | Landed "u64 option"
  | Rechecking "u64 option"
  | RecheckingTicket u64
  | Undoing "u64 option"
  | Finishing "u64 option" bool
  | DroppingTicket

datatype write_phase = Committing bytes | PoisoningClaims | PoisoningReads | Forgetting

datatype task = Idle | Filling string "string option" bool fill_phase | Writing string write_phase

text \<open>What the outside contributes to a step: whether the backend read works, the system calls under a tier write, what a receiver gets.\<close>

record 'e step_in =
  in_read_ok :: bool
  in_env :: 'e
  in_received :: "bytes option"

record 't fill_world =
  registry :: fill_registry
  tier :: 't
  origin :: "string \<Rightarrow> bytes"
  tasks :: "nat \<Rightarrow> task"

datatype 'e fill_event =
    StartFill nat string "string option" bool bool
  | StartWrite nat string bytes
  | Step nat "'e step_in"
  | Cancel nat

definition after_guard :: "u64 option \<Rightarrow> fill_phase option" where
  "after_guard g = (case g of None \<Rightarrow> None | Some _ \<Rightarrow> Some DroppingTicket)"

text \<open>One step of a fill that changes the registry only: the phase after it, or \<open>None\<close> when the request is done.\<close>

fun advance_fill :: "'e step_in \<Rightarrow> string \<Rightarrow> bool \<Rightarrow> bytes \<Rightarrow> fill_phase \<Rightarrow> fill_registry \<Rightarrow> fill_phase option \<times> fill_registry" where
  "advance_fill x key admit current Claiming reg = (case claim_fill key reg of
      (Lead, reg) \<Rightarrow> (Some Leading, reg)
    | (Ready _, reg) \<Rightarrow> (None, reg)
    | (Follow tx, reg) \<Rightarrow> (Some (Following tx), reg)
    | (Busy, reg) \<Rightarrow> (Some FetchBackend, reg))"
| "advance_fill x key admit current Leading reg = (Some (if in_read_ok x then Published current else Finishing None False), reg)"
| "advance_fill x key admit current (Published b) reg = (Some (if admit then Checking None b else Finishing None True), publish_fill key b reg)"
| "advance_fill x key admit current (Following tx) reg = ((case in_received x of Some _ \<Rightarrow> None | None \<Rightarrow> Some FetchBackend), reg)"
| "advance_fill x key admit current FetchBackend reg =
     (if admit then (let (e, reg) = begin_read key reg in (Some (Reading e), reg)) else (None, reg))"
| "advance_fill x key admit current (Reading e) reg = (Some (if in_read_ok x then Fetched e current else DroppingTicket), reg)"
| "advance_fill x key admit current (Fetched e b) reg = (let (won, reg) = for_fill key reg in (Some (if won then Checking (Some e) b else DroppingTicket), reg))"
| "advance_fill x key admit current (Checking g b) reg =
     (Some (if registry_is_poisoned key reg then Finishing g True else case g of None \<Rightarrow> Putting None b | Some e \<Rightarrow> CheckingTicket e b), reg)"
| "advance_fill x key admit current (CheckingTicket e b) reg = (Some (if is_stale key e reg then Finishing (Some e) True else Putting (Some e) b), reg)"
| "advance_fill x key admit current (Landed g) reg = (Some (Rechecking g), reg)"
| "advance_fill x key admit current (Rechecking g) reg =
     (Some (if registry_is_poisoned key reg then Undoing g else case g of None \<Rightarrow> Finishing None True | Some e \<Rightarrow> RecheckingTicket e), reg)"
| "advance_fill x key admit current (RecheckingTicket e) reg = (Some (if is_stale key e reg then Undoing (Some e) else Finishing (Some e) True), reg)"
| "advance_fill x key admit current (Finishing g completed) reg = (after_guard g, guard_drop key completed reg)"
| "advance_fill x key admit current DroppingTicket reg = (None, ticket_drop key reg)"
| "advance_fill x key admit current (Putting g b) reg = (Some (Putting g b), reg)"
| "advance_fill x key admit current (Undoing g) reg = (Some (Undoing g), reg)"

text \<open>A request whose future is dropped while it awaits drops its guard and its ticket. Between awaits it cannot be.\<close>

fun cancel_fill :: "fill_phase \<Rightarrow> fill_phase option" where
  "cancel_fill Leading = Some (Finishing None False)"
| "cancel_fill (Following tx) = None"
| "cancel_fill (Reading e) = Some DroppingTicket"
| "cancel_fill (Landed g) = Some (Finishing g False)"
| "cancel_fill ph = Some ph"

definition fill_task :: "string \<Rightarrow> string option \<Rightarrow> bool \<Rightarrow> fill_phase option \<Rightarrow> task" where
  "fill_task key tag admit ph = (case ph of None \<Rightarrow> Idle | Some ph \<Rightarrow> Filling key tag admit ph)"

fun step_task :: "('e \<Rightarrow> string \<Rightarrow> cached_chunk \<Rightarrow> 't \<Rightarrow> bool \<times> 't) \<Rightarrow> (string \<Rightarrow> 't \<Rightarrow> 't) \<Rightarrow> 'e step_in \<Rightarrow> task \<Rightarrow> 't fill_world \<Rightarrow> task \<times> 't fill_world" where
  "step_task put drp x Idle w = (Idle, w)"
| "step_task put drp x (Filling key tag admit (Putting g b)) w =
     (let (ok, t) = put (in_env x) key \<lparr>body = b, e_tag = tag\<rparr> (tier w)
      in (Filling key tag admit (if ok then Landed g else Finishing g True), w\<lparr>tier := t\<rparr>))"
| "step_task put drp x (Filling key tag admit (Undoing g)) w = (Filling key tag admit (Finishing g True), w\<lparr>tier := drp key (tier w)\<rparr>)"
| "step_task put drp x (Filling key tag admit ph) w =
     (let (ph, reg) = advance_fill x key admit (origin w key) ph (registry w) in (fill_task key tag admit ph, w\<lparr>registry := reg\<rparr>))"
| "step_task put drp x (Writing key (Committing b)) w = (Writing key PoisoningClaims, w\<lparr>origin := (origin w)(key := b)\<rparr>)"
| "step_task put drp x (Writing key PoisoningClaims) w = (Writing key PoisoningReads, w\<lparr>registry := poison_claims key (registry w)\<rparr>)"
| "step_task put drp x (Writing key PoisoningReads) w = (Writing key Forgetting, w\<lparr>registry := poison_reads key (registry w)\<rparr>)"
| "step_task put drp x (Writing key Forgetting) w = (Idle, w\<lparr>tier := drp key (tier w)\<rparr>)"

fun fill_step :: "('e \<Rightarrow> string \<Rightarrow> cached_chunk \<Rightarrow> 't \<Rightarrow> bool \<times> 't) \<Rightarrow> (string \<Rightarrow> 't \<Rightarrow> 't) \<Rightarrow> 'e fill_event \<Rightarrow> 't fill_world \<Rightarrow> 't fill_world" where
  "fill_step put drp (StartFill i key tag admit coalesce) w =
     (if tasks w i = Idle then w\<lparr>tasks := (tasks w)(i := Filling key tag admit (if coalesce then Claiming else FetchBackend))\<rparr> else w)"
| "fill_step put drp (StartWrite i key b) w =
     (if tasks w i = Idle then w\<lparr>tasks := (tasks w)(i := Writing key (Committing b))\<rparr> else w)"
| "fill_step put drp (Step i x) w = (let (t, w) = step_task put drp x (tasks w i) w in w\<lparr>tasks := (tasks w)(i := t)\<rparr>)"
| "fill_step put drp (Cancel i) w = (case tasks w i of
      Filling key tag admit ph \<Rightarrow> w\<lparr>tasks := (tasks w)(i := fill_task key tag admit (cancel_fill ph))\<rparr>
    | _ \<Rightarrow> w)"

end
