(* ===== verification/Fill_Claims.thy ===== *)
theory Fill_Claims
  imports Fill
begin

text \<open>
  Who holds the claims and tickets of the fill registry when fills, invalidations and cancellations interleave in any
  order: a key is claimed exactly while one fill holds its guard, and claims and tickets are always given back.
\<close>

section \<open>Who holds what\<close>

fun phase_guards :: "fill_phase \<Rightarrow> bool" where
  "phase_guards Claiming = False"
| "phase_guards (Following tx) = False"
| "phase_guards FetchBackend = False"
| "phase_guards (Reading e) = False"
| "phase_guards (Fetched e b) = False"
| "phase_guards DroppingTicket = False"
| "phase_guards ph = True"

fun phase_ticket :: "fill_phase \<Rightarrow> u64 option" where
  "phase_ticket (Reading e) = Some e"
| "phase_ticket (Fetched e b) = Some e"
| "phase_ticket (Checking g b) = g"
| "phase_ticket (CheckingTicket e b) = Some e"
| "phase_ticket (Putting g b) = g"
| "phase_ticket (Landed g) = g"
| "phase_ticket (Rechecking g) = g"
| "phase_ticket (RecheckingTicket e) = Some e"
| "phase_ticket (Undoing g) = g"
| "phase_ticket (Finishing g c) = g"
| "phase_ticket ph = None"

definition phase_reads :: "fill_phase \<Rightarrow> bool" where
  "phase_reads ph \<longleftrightarrow> ph = DroppingTicket \<or> phase_ticket ph \<noteq> None"

fun guarding :: "string \<Rightarrow> task \<Rightarrow> bool" where
  "guarding k (Filling key tag admit ph) \<longleftrightarrow> key = k \<and> phase_guards ph"
| "guarding k _ = False"

fun reading :: "string \<Rightarrow> task \<Rightarrow> bool" where
  "reading k (Filling key tag admit ph) \<longleftrightarrow> key = k \<and> phase_reads ph"
| "reading k _ = False"

definition claimed :: "fill_registry \<Rightarrow> string \<Rightarrow> bool" where
  "claimed reg k \<longleftrightarrow> map_of (claims reg) k \<noteq> None"

definition reader_count :: "fill_registry \<Rightarrow> string \<Rightarrow> nat" where
  "reader_count reg k = (case map_of (reads reg) k of None \<Rightarrow> 0 | Some r \<Rightarrow> readers r)"

text \<open>The registry's maps have distinct keys, no entry without a reader, and the gauge counts the claims.\<close>

definition registry_ok :: "fill_registry \<Rightarrow> bool" where
  "registry_ok reg \<longleftrightarrow> distinct (map fst (claims reg)) \<and> distinct (map fst (reads reg))
     \<and> (\<forall>k r. map_of (reads reg) k = Some r \<longrightarrow> 0 < readers r) \<and> fill_inflight reg = int (length (claims reg))"

section \<open>One step of a fill\<close>

lemmas registry_ops = claim_fill_def for_fill_def claim_exclusive_def guard_new_def poison_claims_def poison_reads_def begin_read_def
  ticket_drop_def publish_fill_def release_claim_def guard_drop_def

lemma length_update_absent: "map_of xs k = None \<Longrightarrow> length (AList.update k v xs) = Suc (length xs)"
  by (induction xs) (auto split: if_splits)

lemma length_update_present: "map_of xs k = Some u \<Longrightarrow> length (AList.update k v xs) = length xs"
  by (induction xs) (auto split: if_splits)

lemma length_delete: "distinct (map fst xs) \<Longrightarrow> length (AList.delete k xs) = (if map_of xs k = None then length xs else length xs - 1)"
proof (induction xs)
  case (Cons x xs)
  have "AList.delete k xs = xs" if "map_of xs k = None" using that by (simp add: delete_id map_of_eq_None_iff)
  with Cons show ?case by (cases xs) (auto simp: map_of_eq_None_iff split: if_splits)
qed simp

lemma length_pos_if_assoc: "map_of xs k = Some v \<Longrightarrow> Suc 0 \<le> length xs"
  by (cases xs) auto

lemma registry_ok_new: "registry_ok registry_new"
  by (simp add: registry_ok_def registry_new_def)

lemma registry_ok_poison: "registry_ok reg \<Longrightarrow> registry_ok (poison_claims k reg)" "registry_ok reg \<Longrightarrow> registry_ok (poison_reads k reg)"
  by (auto simp: registry_ok_def registry_ops distinct_update update_conv' length_update_present
      simp del: map_of_eq_Some_iff Some_eq_map_of_iff split: option.splits)

lemma claimed_poison [simp]: "claimed (poison_claims k reg) j = claimed reg j" "claimed (poison_reads k reg) j = claimed reg j"
  by (auto simp: claimed_def registry_ops update_conv' split: option.splits)

lemma readers_poison [simp]: "reader_count (poison_claims k reg) j = reader_count reg j" "reader_count (poison_reads k reg) j = reader_count reg j"
  by (auto simp: reader_count_def registry_ops update_conv' split: option.splits)

lemma advance_ok:
  assumes "registry_ok reg" "phase_guards ph \<Longrightarrow> claimed reg k" "advance_fill x k admit cur ph reg = (ph', reg')"
  shows "registry_ok reg'"
  using assms
  by (cases ph) (auto simp: registry_ok_def registry_ops claimed_def distinct_update distinct_delete update_conv' delete_conv' length_update_present
      length_update_absent length_delete length_pos_if_assoc Let_def of_nat_diff simp del: map_of_eq_Some_iff Some_eq_map_of_iff
      split: option.splits fill_state.splits if_splits prod.splits)

definition guards_after :: "fill_phase option \<Rightarrow> bool" where
  "guards_after ph \<longleftrightarrow> (\<exists>p. ph = Some p \<and> phase_guards p)"

definition reads_after :: "fill_phase option \<Rightarrow> bool" where
  "reads_after ph \<longleftrightarrow> (\<exists>p. ph = Some p \<and> phase_reads p)"

lemmas advance_splits = option.splits fill_state.splits if_splits prod.splits

text \<open>A fill's step touches its own key only, and claims it exactly when it takes the guard and frees it exactly when it gives the guard up.\<close>

lemma advance_other:
  assumes "advance_fill x k admit cur ph reg = (ph', reg')" "j \<noteq> k"
  shows "map_of (claims reg') j = map_of (claims reg) j \<and> map_of (reads reg') j = map_of (reads reg) j"
  using assms
  by (cases ph) (auto simp: registry_ops update_conv' delete_conv' Let_def simp del: map_of_eq_Some_iff Some_eq_map_of_iff split: advance_splits)

lemma advance_claimed:
  assumes "advance_fill x k admit cur ph reg = (ph', reg')" "phase_guards ph \<Longrightarrow> claimed reg k"
  shows "claimed reg' k \<longleftrightarrow> guards_after ph' \<or> claimed reg k \<and> \<not> phase_guards ph"
    and "guards_after ph' \<Longrightarrow> \<not> phase_guards ph \<Longrightarrow> \<not> claimed reg k"
  using assms
  by (cases ph; auto simp: registry_ops claimed_def guards_after_def after_guard_def update_conv' delete_conv' Let_def
      simp del: map_of_eq_Some_iff Some_eq_map_of_iff split: advance_splits)+

lemma advance_readers:
  assumes "advance_fill x k admit cur ph reg = (ph', reg')" "phase_reads ph \<Longrightarrow> 0 < reader_count reg k"
  shows "reader_count reg' k = (reader_count reg k - of_bool (phase_reads ph)) + of_bool (reads_after ph')"
  using assms
  by (cases ph; auto simp: registry_ops reader_count_def reads_after_def phase_reads_def after_guard_def update_conv' delete_conv' Let_def
      simp del: map_of_eq_Some_iff Some_eq_map_of_iff split: advance_splits)

text \<open>Another fill's poisoned claim stays poisoned, and while another reader of the key is left the epoch stays.\<close>

lemma advance_poisoned:
  assumes "advance_fill x k admit cur ph reg = (ph', reg')" "\<not> phase_guards ph" "map_of (claims reg) j = Some Poisoned"
  shows "map_of (claims reg') j = Some Poisoned"
  using assms
  by (cases "j = k"; cases ph)
    (auto simp: registry_ops update_conv' delete_conv' Let_def simp del: map_of_eq_Some_iff Some_eq_map_of_iff split: advance_splits)

definition lag :: "fill_registry \<Rightarrow> string \<Rightarrow> u64 \<Rightarrow> nat \<Rightarrow> bool" where
  "lag reg k e p \<longleftrightarrow> (\<exists>r. map_of (reads reg) k = Some r \<and> epoch r = e + of_nat p)"

lemma advance_lag:
  assumes "advance_fill x k admit cur ph reg = (ph', reg')" "lag reg j e p" "j = k \<Longrightarrow> phase_reads ph \<Longrightarrow> ph' = None \<Longrightarrow> 1 < reader_count reg k"
  shows "lag reg' j e p"
  using assms
  by (cases "j = k"; cases ph)
    (auto simp: lag_def registry_ops reader_count_def phase_reads_def after_guard_def update_conv' delete_conv' Let_def
      simp del: map_of_eq_Some_iff Some_eq_map_of_iff split: advance_splits)

section \<open>Claims and tickets are held by the fills in flight\<close>

definition holders_ok :: "'t fill_world \<Rightarrow> bool" where
  "holders_ok w \<longleftrightarrow> registry_ok (registry w)
     \<and> (\<forall>k i j. guarding k (tasks w i) \<longrightarrow> guarding k (tasks w j) \<longrightarrow> i = j)
     \<and> (\<forall>k. claimed (registry w) k \<longleftrightarrow> (\<exists>i. guarding k (tasks w i)))
     \<and> (\<forall>k. finite {i. reading k (tasks w i)} \<and> reader_count (registry w) k = card {i. reading k (tasks w i)})"

lemma holders_okD:
  assumes "holders_ok w"
  shows "registry_ok (registry w)" "guarding k (tasks w i) \<Longrightarrow> guarding k (tasks w j) \<Longrightarrow> i = j"
    "claimed (registry w) k \<longleftrightarrow> (\<exists>i. guarding k (tasks w i))" "finite {i. reading k (tasks w i)}"
    "reader_count (registry w) k = card {i. reading k (tasks w i)}"
  using assms unfolding holders_ok_def by blast+

lemma card_update_task:
  assumes "finite {j. P (f j)}"
  shows "finite {j. P ((f(i := t)) j)}" "card {j. P ((f(i := t)) j)} = card {j. P (f j)} - of_bool (P (f i)) + of_bool (P t)"
proof -
  have eq: "{j. P ((f(i := t)) j)} = (if P t then insert i ({j. P (f j)} - {i}) else {j. P (f j)} - {i})" by auto
  then show "finite {j. P ((f(i := t)) j)}" using assms by simp
  show "card {j. P ((f(i := t)) j)} = card {j. P (f j)} - of_bool (P (f i)) + of_bool (P t)"
    unfolding eq using assms by (auto simp: card.insert_remove card_Diff_singleton_if)
qed

lemma holders_update:
  assumes "holders_ok w" "registry_ok (registry w')" "tasks w' = (tasks w)(i := t)"
    and "\<And>k. claimed (registry w') k \<longleftrightarrow> guarding k t \<or> claimed (registry w) k \<and> \<not> guarding k (tasks w i)"
    and "\<And>k. guarding k t \<Longrightarrow> guarding k (tasks w i) \<or> \<not> claimed (registry w) k"
    and "\<And>k. reader_count (registry w') k = reader_count (registry w) k - of_bool (reading k (tasks w i)) + of_bool (reading k t)"
  shows "holders_ok w'"
  unfolding holders_ok_def
proof (intro conjI allI impI)
  fix k
  show "finite {j. reading k (tasks w' j)}" "reader_count (registry w') k = card {j. reading k (tasks w' j)}"
    using card_update_task [of "reading k" "tasks w" i t] holders_okD(4,5) [OF assms(1)] assms(3,6) by simp_all
  show "claimed (registry w') k \<longleftrightarrow> (\<exists>j. guarding k (tasks w' j))"
    using holders_okD(2) [OF assms(1), of k i] by (auto simp: assms(3,4) holders_okD(3) [OF assms(1)])
  fix j l assume "guarding k (tasks w' j)" "guarding k (tasks w' l)"
  then show "j = l"
    using holders_okD(2) [OF assms(1), of k] holders_okD(3) [OF assms(1), of k] assms(5) [of k] by (auto simp: assms(3) split: if_splits)
qed (rule assms(2))

lemma guarding_fill_task: "guarding k (fill_task key tag admit ph) \<longleftrightarrow> key = k \<and> guards_after ph"
  by (auto simp: fill_task_def guards_after_def split: option.splits)

lemma reading_fill_task: "reading k (fill_task key tag admit ph) \<longleftrightarrow> key = k \<and> reads_after ph"
  by (auto simp: fill_task_def reads_after_def split: option.splits)

lemma reading_readers: "holders_ok w \<Longrightarrow> reading k (tasks w i) \<Longrightarrow> 0 < reader_count (registry w) k"
  using holders_okD(4,5) [of w k] by (auto simp: card_gt_0_iff)

lemma holders_advance:
  assumes "holders_ok w" "tasks w i = Filling key tag admit ph" "advance_fill x key admit cur ph (registry w) = (ph', reg)"
    and "registry w' = reg" "tasks w' = (tasks w)(i := fill_task key tag admit ph')"
  shows "holders_ok w'"
proof (rule holders_update [OF assms(1) _ assms(5)])
  have c: "phase_guards ph \<Longrightarrow> claimed (registry w) key"
    using assms(2) holders_okD(3) [OF assms(1), of key] by (metis guarding.simps(1))
  show "registry_ok (registry w')" using advance_ok [OF holders_okD(1) [OF assms(1)] c assms(3)] assms(4) by simp
  fix k
  have other: "key \<noteq> k \<Longrightarrow> claimed reg k = claimed (registry w) k \<and> reader_count reg k = reader_count (registry w) k"
    using advance_other [OF assms(3), of k] by (auto simp: claimed_def reader_count_def)
  show "claimed (registry w') k \<longleftrightarrow> guarding k (fill_task key tag admit ph') \<or> claimed (registry w) k \<and> \<not> guarding k (tasks w i)"
    using advance_claimed(1) [OF assms(3) c] other by (cases "key = k") (auto simp: assms(2,4) guarding_fill_task)
  show "guarding k (tasks w i) \<or> \<not> claimed (registry w) k" if "guarding k (fill_task key tag admit ph')"
    using advance_claimed(2) [OF assms(3) c] that by (auto simp: assms(2) guarding_fill_task)
  have r: "phase_reads ph \<Longrightarrow> 0 < reader_count (registry w) key" using reading_readers [OF assms(1), of key i] assms(2) by simp
  show "reader_count (registry w') k = reader_count (registry w) k - of_bool (reading k (tasks w i)) + of_bool (reading k (fill_task key tag admit ph'))"
    using advance_readers [OF assms(3) r] other by (cases "key = k") (auto simp: assms(2,4) reading_fill_task)
qed

fun tier_phase :: "fill_phase \<Rightarrow> bool" where
  "tier_phase (Putting g b) = True"
| "tier_phase (Undoing g) = True"
| "tier_phase ph = False"

lemma step_task_advance:
  assumes "\<not> tier_phase ph"
  shows "step_task put drp x (Filling key tag admit ph) w =
     (let (ph', reg) = advance_fill x key admit (origin w key) ph (registry w) in (fill_task key tag admit ph', w\<lparr>registry := reg\<rparr>))"
  using assms by (cases ph) simp_all

lemma holders_same:
  assumes "holders_ok w" "registry w' = registry w" "tasks w' = (tasks w)(i := t)"
    and "\<And>k. guarding k t \<longleftrightarrow> guarding k (tasks w i)" "\<And>k. reading k t \<longleftrightarrow> reading k (tasks w i)"
  shows "holders_ok w'"
proof (rule holders_update [OF assms(1) _ assms(3)])
  fix k
  show "claimed (registry w') k \<longleftrightarrow> guarding k t \<or> claimed (registry w) k \<and> \<not> guarding k (tasks w i)"
    using holders_okD(3) [OF assms(1), of k] by (auto simp: assms(2,4))
  show "reader_count (registry w') k = reader_count (registry w) k - of_bool (reading k (tasks w i)) + of_bool (reading k t)"
    using reading_readers [OF assms(1), of k i] by (auto simp: assms(2,5))
qed (use assms holders_okD(1) [OF assms(1)] in auto)

lemma holders_write:
  assumes "holders_ok w" "tasks w i = Writing key ph" "step_task put drp x (tasks w i) w = (t, w1)"
  shows "holders_ok (w1\<lparr>tasks := (tasks w1)(i := t)\<rparr>)"
proof -
  have "tasks w1 = tasks w" "\<And>k. \<not> guarding k t" "\<And>k. \<not> reading k t" "registry_ok (registry w1)"
    "\<And>k. claimed (registry w1) k = claimed (registry w) k" "\<And>k. reader_count (registry w1) k = reader_count (registry w) k"
    using assms(2,3) holders_okD(1) [OF assms(1)] by (cases ph; auto simp: registry_ok_poison)+
  then show ?thesis using assms(2) by (intro holders_update [OF assms(1), where i = i and t = t]) simp_all
qed

lemma cancel_holds:
  "guards_after (cancel_fill ph) = phase_guards ph" "reads_after (cancel_fill ph) = phase_reads ph"
  by (cases ph; simp add: guards_after_def reads_after_def phase_reads_def)+

lemma holders_step:
  assumes "holders_ok w"
  shows "holders_ok (fill_step put drp ev w)"
proof (cases ev)
  case (Step i x)
  obtain t w1 where s: "step_task put drp x (tasks w i) w = (t, w1)" by fastforce
  show ?thesis
  proof (cases "tasks w i")
    case Idle
    then show ?thesis using assms Step by (simp add: fun_upd_idem)
  next
    case (Writing key ph)
    then show ?thesis using holders_write [OF assms Writing s] Step s by simp
  next
    case (Filling key tag admit ph)
    consider g b where "ph = Putting g b" | g where "ph = Undoing g" | "\<not> tier_phase ph" by (cases ph) simp_all
    then show ?thesis
    proof cases
      case 1
      obtain ok t where "put (in_env x) key \<lparr>body = b, e_tag = tag\<rparr> (tier w) = (ok, t)" by fastforce
      then show ?thesis using Step Filling 1 by (auto intro!: holders_same [OF assms, where i = i] simp: phase_reads_def)
    next
      case 2
      then show ?thesis using Step Filling by (auto intro!: holders_same [OF assms, where i = i] simp: phase_reads_def)
    next
      case 3
      obtain ph' reg where a: "advance_fill x key admit (origin w key) ph (registry w) = (ph', reg)" by fastforce
      show ?thesis using Step Filling step_task_advance [OF 3, of put drp x key tag admit w]
        by (auto simp: a intro!: holders_advance [OF assms Filling a])
    qed
  qed
next
  case (Cancel i)
  then show ?thesis
    by (cases "tasks w i") (use assms in \<open>auto intro!: holders_same [OF assms, where i = i] simp: guarding_fill_task reading_fill_task cancel_holds\<close>)
qed (use assms in \<open>auto intro!: holders_same [OF assms] simp: phase_reads_def\<close>)

definition fill_world_new :: "'t \<Rightarrow> (string \<Rightarrow> bytes) \<Rightarrow> 't fill_world" where
  "fill_world_new t org = \<lparr>registry = registry_new, tier = t, origin = org, tasks = (\<lambda>_. Idle)\<rparr>"

interpretation fill_runs: invariant_system "\<lambda>w. \<exists>t org. w = fill_world_new t org" "fill_step put drp" holders_ok for put drp
proof (unfold_locales, goal_cases)
  case (1 w)
  then show ?case by (auto simp: holders_ok_def fill_world_new_def registry_new_def claimed_def reader_count_def registry_ok_def)
qed (rule holders_step)

section \<open>Property\<close>

lemma claims_keys:
  assumes "holders_ok w"
  shows "set (map fst (claims (registry w))) = {k. \<exists>i. guarding k (tasks w i)}"
    and "set (map fst (reads (registry w))) = {k. \<exists>i. reading k (tasks w i)}"
proof -
  show "set (map fst (claims (registry w))) = {k. \<exists>i. guarding k (tasks w i)}"
    using holders_okD(3) [OF assms] by (auto simp: claimed_def map_of_eq_None_iff image_iff)
  have "(\<exists>r. map_of (reads (registry w)) k = Some r) \<longleftrightarrow> 0 < reader_count (registry w) k" for k
    using holders_okD(1) [OF assms] by (auto simp: registry_ok_def reader_count_def split: option.splits)
  then show "set (map fst (reads (registry w))) = {k. \<exists>i. reading k (tasks w i)}"
    using holders_okD(4,5) [OF assms] by (auto simp: card_gt_0_iff map_of_eq_None_iff [symmetric] image_iff dom_map_of_conv_image_fst [symmetric])
qed

text \<open>
  C4 (a claim is held by one fill and always released): let fills, overwrites and cancellations interleave in any order, with any backend read or tier
  write failing. At every moment at most one fill holds the guard of a key, so at most one leader reads it from the backend; the claimed keys are exactly those some fill in
  flight guards and the keys with readers exactly those some fill holds a ticket of, so that nothing stays claimed once the fills are done; and the gauge of
  fills in flight counts the claims.
\<close>

theorem claims_held_by_fills:
  "let w = fold (fill_step put drp) events (fill_world_new t org) in
     (\<forall>k. card {i. guarding k (tasks w i)} \<le> 1)
   \<and> set (map fst (claims (registry w))) = {k. \<exists>i. guarding k (tasks w i)}
   \<and> set (map fst (reads (registry w))) = {k. \<exists>i. reading k (tasks w i)}
   \<and> fill_inflight (registry w) = int (card {k. \<exists>i. guarding k (tasks w i)})"
proof -
  define w where "w = fold (fill_step put drp) events (fill_world_new t org)"
  have h: "holders_ok w" unfolding w_def by (rule fill_runs.reachable_holds) blast
  have "card {i. guarding k (tasks w i)} \<le> 1" for k
  proof (cases "\<exists>i. guarding k (tasks w i)")
    case True
    then obtain i where "{i. guarding k (tasks w i)} = {i}" using holders_okD(2) [OF h, of k] by blast
    then show ?thesis by simp
  qed simp
  moreover have "int (card {k. \<exists>i. guarding k (tasks w i)}) = fill_inflight (registry w)"
    using claims_keys(1) [OF h] holders_okD(1) [OF h] distinct_card [of "map fst (claims (registry w))"] by (simp add: registry_ok_def)
  ultimately show ?thesis using claims_keys [OF h] by (simp add: w_def [symmetric] Let_def)
qed

end
