(* ===== verification/Fill_Fence.thy ===== *)
theory Fill_Fence
  imports Fill_Claims
begin

text \<open>
  The fence between fills and invalidations: a fill that read its bytes before an overwrite never leaves them in the tier
  once the overwrite's invalidation is through, unless it is cancelled while its insert is in flight. Proved for every
  chunk backend with the laws of \<open>fenced_backend\<close>, and so for the tier. The tasks are the fills that insert what they read from the backend and the writes; the
  inserts of a staged upload, of a peer's read-through and of a requester-local admission after a peer's answer are not among them.
\<close>

section \<open>Stale bytes are fenced\<close>

fun phase_body :: "fill_phase \<Rightarrow> bytes option" where
  "phase_body (Published b) = Some b"
| "phase_body (Fetched e b) = Some b"
| "phase_body (Checking g b) = Some b"
| "phase_body (CheckingTicket e b) = Some b"
| "phase_body (Putting g b) = Some b"
| "phase_body ph = None"

fun phase_landed :: "fill_phase \<Rightarrow> bool" where
  "phase_landed (Landed g) = True"
| "phase_landed (Rechecking g) = True"
| "phase_landed (RecheckingTicket e) = True"
| "phase_landed ph = False"

text \<open>The key was poisoned since the claim, or since the ticket, was taken; \<open>n\<close> bounds how often.\<close>

definition fenced :: "nat \<Rightarrow> fill_registry \<Rightarrow> string \<Rightarrow> u64 option \<Rightarrow> bool" where
  "fenced n reg k g = (case g of
      None \<Rightarrow> map_of (claims reg) k = Some Poisoned
    | Some e \<Rightarrow> \<exists>p. 0 < p \<and> p \<le> n \<and> lag reg k e p)"

definition pending :: "(nat \<Rightarrow> task) \<Rightarrow> string \<Rightarrow> u64 option \<Rightarrow> bool" where
  "pending ts k g \<longleftrightarrow> (\<exists>j. ts j = Writing k PoisoningClaims) \<or> g \<noteq> None \<and> (\<exists>j. ts j = Writing k PoisoningReads)"

definition fill_fenced :: "nat \<Rightarrow> 't fill_world \<Rightarrow> string \<Rightarrow> fill_phase \<Rightarrow> bool" where
  "fill_fenced n w k ph \<longleftrightarrow>
     (\<forall>e. phase_ticket ph = Some e \<longrightarrow> (\<exists>p\<le>n. lag (registry w) k e p))
   \<and> (\<forall>b. phase_body ph = Some b \<longrightarrow> b = origin w k \<or> fenced n (registry w) k (phase_ticket ph) \<or> pending (tasks w) k (phase_ticket ph))"

text \<open>A task that will still take a stale chunk of \<open>k\<close> out of the tier.\<close>

definition undoing :: "nat \<Rightarrow> fill_registry \<Rightarrow> string \<Rightarrow> fill_phase \<Rightarrow> bool" where
  "undoing n reg k ph \<longleftrightarrow> (\<exists>g. ph = Undoing g) \<or> phase_landed ph \<and> fenced n reg k (phase_ticket ph)"

fun will_undo :: "nat \<Rightarrow> 't fill_world \<Rightarrow> string \<Rightarrow> task \<Rightarrow> bool" where
  "will_undo n w k (Filling key tag admit ph) \<longleftrightarrow> key = k \<and> undoing n (registry w) k ph"
| "will_undo n w k (Writing key ph) \<longleftrightarrow> key = k \<and> (\<forall>b. ph \<noteq> Committing b)"
| "will_undo n w k Idle = False"

lemma ticketless_guards: "phase_body ph \<noteq> None \<or> phase_landed ph \<Longrightarrow> phase_ticket ph = None \<Longrightarrow> phase_guards ph"
  by (cases ph) simp_all

lemma lag_poison_reads:
  "lag (poison_reads j reg) k e p \<longleftrightarrow> (if j = k then \<exists>r. map_of (reads reg) k = Some r \<and> epoch r + 1 = e + of_nat p else lag reg k e p)"
  by (auto simp: lag_def poison_reads_def update_conv' split: option.splits)

lemma lag_poison_reads_Suc: "lag reg k e p \<Longrightarrow> lag (poison_reads k reg) k e (Suc p)"
  by (auto simp: lag_def poison_reads_def update_conv' algebra_simps)

lemma lag_poison_claims [simp]: "lag (poison_claims j reg) k e p = lag reg k e p"
  by (simp add: lag_def poison_claims_def split: option.split)

lemma fenced_None: "fenced n reg k None \<longleftrightarrow> map_of (claims reg) k = Some Poisoned"
  by (simp add: fenced_def)

lemma fenced_more: "fenced n reg k g \<Longrightarrow> n \<le> m \<Longrightarrow> fenced m reg k g"
  by (auto simp: fenced_def split: option.splits)

lemma fenced_poison_claims: "fenced n reg k g \<Longrightarrow> fenced n (poison_claims j reg) k g"
  by (auto simp: fenced_def poison_claims_def lag_def update_conv' split: option.splits)

lemma fenced_poison_reads: "fenced n reg k g \<Longrightarrow> fenced (Suc n) (poison_reads j reg) k g"
proof (cases g)
  case None
  assume "fenced n reg k g"
  then show ?thesis using None by (simp add: fenced_def poison_reads_def split: option.split)
next
  case (Some e)
  assume "fenced n reg k g"
  then obtain p where "0 < p" "p \<le> n" "lag reg k e p" using Some by (auto simp: fenced_def)
  then have "lag (poison_reads j reg) k e (if j = k then Suc p else p)" using lag_poison_reads_Suc [of reg k e p] by (auto simp: lag_poison_reads)
  then show ?thesis using Some \<open>0 < p\<close> \<open>p \<le> n\<close> unfolding fenced_def by (auto intro: exI [of _ "if j = k then Suc p else p"])
qed

lemma unat_of_nat_64: "p < 2 ^ 64 \<Longrightarrow> unat (of_nat p :: u64) = p"
  by (simp add: unat_of_nat)

lemma fenced_stale: "fenced n reg k (Some e) \<Longrightarrow> n < 2 ^ 64 \<Longrightarrow> is_stale k e reg"
proof -
  assume "fenced n reg k (Some e)" "n < 2 ^ 64"
  then obtain p r where "0 < p" "p < 2 ^ 64" "map_of (reads reg) k = Some r" "epoch r = e + of_nat p" by (auto simp: fenced_def lag_def)
  moreover have "(of_nat p :: u64) \<noteq> 0" using \<open>0 < p\<close> \<open>p < 2 ^ 64\<close> unat_of_nat_64 [of p] by auto
  ultimately show ?thesis by (simp add: is_stale_def)
qed

section \<open>A step of one fill leaves the others fenced\<close>

lemma two_readers:
  assumes "holders_ok w" "i \<noteq> j" "reading k (tasks w i)" "reading k (tasks w j)"
  shows "1 < reader_count (registry w) k"
proof -
  have "card {i, j} \<le> card {i. reading k (tasks w i)}" using assms(3,4) by (intro card_mono holders_okD(4) [OF assms(1)]) auto
  then show ?thesis using assms(2) by (simp add: holders_okD(5) [OF assms(1)])
qed

lemma others_lag:
  assumes "holders_ok w" "tasks w i = Filling key tag admit ph" "advance_fill x key admit cur ph (registry w) = (ph', reg)"
    and "tasks w j = Filling k tag' admit' phj" "i \<noteq> j" "phase_ticket phj = Some e" "lag (registry w) k e p"
  shows "lag reg k e p"
proof (rule advance_lag [OF assms(3,7)])
  assume "k = key" "phase_reads ph"
  then show "1 < reader_count (registry w) key"
    using two_readers [OF assms(1,5), of key] assms(2,4,6) by (simp add: phase_reads_def)
qed

lemma others_fenced:
  assumes "holders_ok w" "tasks w i = Filling key tag admit ph" "advance_fill x key admit cur ph (registry w) = (ph', reg)"
    and "tasks w j = Filling k tag' admit' phj" "i \<noteq> j" "phase_ticket phj = None \<Longrightarrow> phase_guards phj" "fenced n (registry w) k (phase_ticket phj)"
  shows "fenced n reg k (phase_ticket phj)"
proof (cases "phase_ticket phj")
  case None
  then have p: "map_of (claims (registry w)) k = Some Poisoned" using assms(7) by (simp add: fenced_def)
  have "\<not> phase_guards ph" if "key = k" using holders_okD(2) [OF assms(1), of k i j] that None assms(2,4-6) by auto
  then have "map_of (claims reg) k = Some Poisoned"
    using p advance_other [OF assms(3), of k] advance_poisoned [OF assms(3), of k] by (cases "key = k") auto
  then show ?thesis using None by (simp add: fenced_def)
next
  case (Some e)
  then show ?thesis using assms(7) others_lag [OF assms(1-5) Some] by (auto simp: fenced_def)
qed

text \<open>The fill that steps keeps its own fence.\<close>

lemma own_fenced:
  assumes "fill_fenced n w key ph" "advance_fill x key admit (origin w key) ph (registry w) = (Some ph', reg)" "\<not> tier_phase ph"
    and "registry w' = reg" "origin w' = origin w" "\<And>g. pending (tasks w) key g \<Longrightarrow> pending (tasks w') key g"
  shows "fill_fenced n w' key ph'"
  using assms(1-3)
  by (cases ph) (auto simp: fill_fenced_def assms(4,5) fenced_def lag_def registry_ops after_guard_def update_conv' delete_conv' Let_def
      intro: assms(6) split: advance_splits)

lemma own_undoing:
  assumes "undoing n reg key ph" "advance_fill x key admit cur ph reg = (ph', reg')" "\<not> tier_phase ph" "n < 2 ^ 64"
  shows "\<exists>p. ph' = Some p \<and> undoing n reg' key p"
  using assms(1-3) fenced_stale [OF _ assms(4), of reg key]
  by (cases ph) (auto simp: undoing_def registry_is_poisoned_def fenced_None split: option.splits if_splits)

text \<open>A run in which no request is dropped while the insert it awaits is in flight.\<close>

fun cancels_insert :: "'e fill_event \<Rightarrow> 't fill_world \<Rightarrow> bool" where
  "cancels_insert (Cancel i) w = (case tasks w i of Filling key tag admit (Landed g) \<Rightarrow> True | _ \<Rightarrow> False)"
| "cancels_insert _ w = False"

fun inserts_uncancelled :: "('e \<Rightarrow> string \<Rightarrow> cached_chunk \<Rightarrow> 't \<Rightarrow> bool \<times> 't) \<Rightarrow> (string \<Rightarrow> 't \<Rightarrow> 't) \<Rightarrow> 'e fill_event list \<Rightarrow> 't fill_world \<Rightarrow> bool" where
  "inserts_uncancelled put drp [] w = True"
| "inserts_uncancelled put drp (ev # evs) w \<longleftrightarrow> \<not> cancels_insert ev w \<and> inserts_uncancelled put drp evs (fill_step put drp ev w)"

fun start_ok :: "(string \<Rightarrow> cached_chunk \<Rightarrow> bool) \<Rightarrow> 'e fill_event \<Rightarrow> bool" where
  "start_ok good (StartFill i key tag admit coalesce) = good key \<lparr>body = [], e_tag = tag\<rparr>"
| "start_ok good _ = True"

section \<open>The contract of a fenced backend\<close>

locale fenced_backend = chunk_backend sound view get put drp good_args stored
  for sound :: "'s \<Rightarrow> bool" and view :: "'s \<Rightarrow> string \<Rightarrow> cached_chunk option"
    and get :: "'e \<Rightarrow> string \<Rightarrow> 's \<Rightarrow> cached_chunk option option \<times> 's"
    and put :: "'e \<Rightarrow> string \<Rightarrow> cached_chunk \<Rightarrow> 's \<Rightarrow> bool \<times> 's"
    and drp :: "string \<Rightarrow> 's \<Rightarrow> 's"
    and good_args :: "string \<Rightarrow> cached_chunk \<Rightarrow> bool" and stored :: "cached_chunk \<Rightarrow> cached_chunk" +
  assumes stored_body: "body (stored c) = body c"
    and put_failed: "sound s \<Longrightarrow> good_args k c \<Longrightarrow> \<not> fst (put e k c s) \<Longrightarrow> view (snd (put e k c s)) \<subseteq>\<^sub>m view s"
    and good_any_body: "good_args k \<lparr>body = b, e_tag = t\<rparr> \<Longrightarrow> good_args k \<lparr>body = b', e_tag = t\<rparr>"
begin

definition fence_ok :: "nat \<Rightarrow> 's fill_world \<Rightarrow> bool" where
  "fence_ok n w \<longleftrightarrow> holders_ok w \<and> sound (tier w)
     \<and> (\<forall>i k tag admit ph. tasks w i = Filling k tag admit ph \<longrightarrow> good_args k \<lparr>body = [], e_tag = tag\<rparr> \<and> fill_fenced n w k ph)
     \<and> (\<forall>k c. view (tier w) k = Some c \<longrightarrow> body c = origin w k \<or> (\<exists>i. will_undo n w k (tasks w i)))"

lemma fence_okD:
  assumes "fence_ok n w"
  shows "holders_ok w" "sound (tier w)" "tasks w i = Filling k tag admit ph \<Longrightarrow> good_args k \<lparr>body = b, e_tag = tag\<rparr>"
    "tasks w i = Filling k tag admit ph \<Longrightarrow> fill_fenced n w k ph"
    "view (tier w) k = Some c \<Longrightarrow> body c = origin w k \<or> (\<exists>i. will_undo n w k (tasks w i))"
  using assms good_any_body unfolding fence_ok_def by blast+

text \<open>What has to be shown of one step, for the tasks and for the tier apart.\<close>

lemma fence_okI:
  assumes "holders_ok w" "sound (tier w)"
    and "\<And>i k tag admit ph. tasks w i = Filling k tag admit ph \<Longrightarrow> good_args k \<lparr>body = [], e_tag = tag\<rparr>"
    and "\<And>i k tag admit ph. tasks w i = Filling k tag admit ph \<Longrightarrow> fill_fenced n w k ph"
    and "\<And>k c. view (tier w) k = Some c \<Longrightarrow> body c = origin w k \<or> (\<exists>i. will_undo n w k (tasks w i))"
  shows "fence_ok n w"
  using assms unfolding fence_ok_def by blast

lemma pending_update:
  assumes "\<And>k. ts i \<noteq> Writing k PoisoningClaims" "\<And>k. ts i \<noteq> Writing k PoisoningReads" "pending ts k g"
  shows "pending (ts(i := t)) k g"
  using assms unfolding pending_def by (metis fun_upd_apply)

lemma fence_advance:
  assumes "fence_ok n w" "tasks w i = Filling key tag admit ph" "\<not> tier_phase ph" "n < 2 ^ 64"
    and "advance_fill x key admit (origin w key) ph (registry w) = (ph', reg)"
    and "w' = w\<lparr>registry := reg, tasks := (tasks w)(i := fill_task key tag admit ph')\<rparr>"
  shows "fence_ok n w'"
proof (rule fence_okI)
  note h = fence_okD(1) [OF assms(1)]
  have w': "registry w' = reg" "tasks w' = (tasks w)(i := fill_task key tag admit ph')" "tier w' = tier w" "origin w' = origin w" using assms(6) by simp_all
  show "holders_ok w'" by (rule holders_advance [OF h assms(2,5) w'(1,2)])
  show "sound (tier w')" using fence_okD(2) [OF assms(1)] w'(3) by simp
  have pend: "pending (tasks w) k g \<Longrightarrow> pending (tasks w') k g" for k g
    unfolding w'(2) by (rule pending_update) (simp_all add: assms(2))
  fix k
  show "good_args k \<lparr>body = [], e_tag = tg\<rparr>" if "tasks w' j = Filling k tg ad phj" for j tg ad phj
    using that fence_okD(3) [OF assms(1), of j k tg ad phj "[]"] fence_okD(3) [OF assms(1,2), of "[]"]
    by (auto simp: w'(2) fill_task_def split: if_splits option.splits)
  show "fill_fenced n w' k phj" if t: "tasks w' j = Filling k tg ad phj" for j tg ad phj
  proof (cases "i = j")
    case True
    then show ?thesis using t own_fenced [OF fence_okD(4) [OF assms(1,2)] _ assms(3) w'(1,4) pend, of x admit phj] assms(5)
      by (auto simp: w'(2) fill_task_def split: option.splits)
  next
    case False
    then have tj: "tasks w j = Filling k tg ad phj" using t by (simp add: w'(2))
    show ?thesis using fence_okD(4) [OF assms(1) tj] others_lag [OF h assms(2,5) tj False] others_fenced [OF h assms(2,5) tj False] ticketless_guards [of phj] pend
      unfolding fill_fenced_def w'(1,4) by (metis option.distinct(1))
  qed
  show "body c = origin w' k \<or> (\<exists>i. will_undo n w' k (tasks w' i))" if v: "view (tier w') k = Some c" for c
  proof (cases "body c = origin w k")
    case False
    then obtain j where j: "will_undo n w k (tasks w j)" using v fence_okD(5) [OF assms(1), of k c] w'(3) by auto
    have "will_undo n w' k (tasks w' j)"
    proof (cases "i = j")
      case True
      then have "key = k" "undoing n (registry w) key ph" using j assms(2) by auto
      then show ?thesis using own_undoing [OF _ assms(5,3,4)] True by (auto simp: w'(1,2) fill_task_def)
    next
      case False
      then have tj: "tasks w' j = tasks w j" by (simp add: w'(2))
      show ?thesis
      proof (cases "tasks w j")
        case (Filling k' tg ad phj)
        then show ?thesis using j others_fenced [OF h assms(2,5) Filling False] ticketless_guards [of phj] tj
          by (auto simp: undoing_def w'(1))
      qed (use j tj in auto)
    qed
    then show ?thesis by blast
  qed (simp add: w'(4))
qed

lemma fill_fenced_more:
  assumes "fill_fenced n w k ph" "n \<le> m" "registry w' = registry w" "origin w' k = origin w k" "\<And>g. pending (tasks w) k g \<Longrightarrow> pending (tasks w') k g"
  shows "fill_fenced m w' k ph"
  using assms(1) fenced_more [OF _ assms(2)] assms(2-5) unfolding fill_fenced_def by (metis le_trans)

lemma bodyless_fenced:
  assumes "fill_fenced n w k ph" "phase_body ph' = None" "phase_ticket ph' = None \<or> phase_ticket ph' = phase_ticket ph" "registry w' = registry w"
  shows "fill_fenced (Suc n) w' k ph'"
  using assms unfolding fill_fenced_def by (metis le_SucI option.distinct(1))

lemma will_undo_more:
  assumes "will_undo n w k t" "n \<le> m" "registry w' = registry w"
  shows "will_undo m w' k t"
  using assms fenced_more [OF _ assms(2)] by (cases t) (auto simp: undoing_def)

text \<open>A step that leaves the registry alone: only the task that steps and the tier are to be looked at.\<close>

lemma fence_same:
  assumes "fence_ok n w" "registry w' = registry w" "origin w' = origin w" "tasks w' = (tasks w)(i := t)" "holders_ok w'" "sound (tier w')"
    and "\<And>k. tasks w i \<noteq> Writing k PoisoningClaims" "\<And>k. tasks w i \<noteq> Writing k PoisoningReads"
    and "\<And>k tag admit ph. t = Filling k tag admit ph \<Longrightarrow> good_args k \<lparr>body = [], e_tag = tag\<rparr> \<and> fill_fenced (Suc n) w' k ph"
    and "\<And>k c. view (tier w') k = Some c \<Longrightarrow> view (tier w) k = Some c \<and> (will_undo n w k (tasks w i) \<longrightarrow> will_undo (Suc n) w' k t)
      \<or> body c = origin w k \<or> (\<exists>j. will_undo (Suc n) w' k (tasks w' j))"
  shows "fence_ok (Suc n) w'"
proof (rule fence_okI [OF assms(5,6)])
  have pend: "pending (tasks w) k g \<Longrightarrow> pending (tasks w') k g" for k g
    unfolding assms(4) by (rule pending_update) (use assms(7,8) in auto)
  fix k
  show "good_args k \<lparr>body = [], e_tag = tg\<rparr>" "fill_fenced (Suc n) w' k phj" if t: "tasks w' j = Filling k tg ad phj" for j tg ad phj
    using t assms(9) [of k tg ad phj] fence_okD(3) [OF assms(1), of j k tg ad phj "[]"]
      fill_fenced_more [OF fence_okD(4) [OF assms(1), of j k tg ad phj], of "Suc n" w', OF _ _ assms(2) _ pend] assms(3)
    by (auto simp: assms(4) split: if_splits)
  show "body c = origin w' k \<or> (\<exists>i. will_undo (Suc n) w' k (tasks w' i))" if v: "view (tier w') k = Some c" for c
    using assms(10) [OF v]
  proof (elim disjE conjE)
    assume old: "view (tier w) k = Some c" "will_undo n w k (tasks w i) \<longrightarrow> will_undo (Suc n) w' k t"
    show ?thesis
    proof (cases "body c = origin w k")
      case False
      then obtain j where "will_undo n w k (tasks w j)" using old(1) fence_okD(5) [OF assms(1), of k c] by auto
      then have "will_undo (Suc n) w' k (tasks w' j)"
        using old(2) will_undo_more [of n w k "tasks w j" "Suc n" w'] assms(2) by (auto simp: assms(4))
      then show ?thesis by blast
    qed (simp add: assms(3))
  qed (use assms(3) in auto)
qed

text \<open>The steps of an overwrite.\<close>

lemma fence_commit:
  assumes "fence_ok n w" "tasks w i = Writing key (Committing b)"
    and "w' = w\<lparr>origin := (origin w)(key := b), tasks := (tasks w)(i := Writing key PoisoningClaims)\<rparr>"
  shows "fence_ok (Suc n) w'"
proof (rule fence_okI)
  have w': "registry w' = registry w" "tasks w' = (tasks w)(i := Writing key PoisoningClaims)" "tier w' = tier w" "origin w' = (origin w)(key := b)"
    using assms(3) by simp_all
  show "holders_ok w'" by (rule holders_same [OF fence_okD(1) [OF assms(1)] w'(1,2)]) (simp_all add: assms(2))
  show "sound (tier w')" using fence_okD(2) [OF assms(1)] w'(3) by simp
  have key: "pending (tasks w') key g" for g unfolding pending_def w'(2) by (intro disjI1 exI [of _ i]) simp
  have pend: "pending (tasks w) k g \<Longrightarrow> pending (tasks w') k g" for k g
    unfolding w'(2) by (rule pending_update) (simp_all add: assms(2))
  fix k
  show "good_args k \<lparr>body = [], e_tag = tg\<rparr>" "fill_fenced (Suc n) w' k phj" if t: "tasks w' j = Filling k tg ad phj" for j tg ad phj
  proof -
    have tj: "tasks w j = Filling k tg ad phj" using t by (simp add: w'(2) split: if_splits)
    then show "good_args k \<lparr>body = [], e_tag = tg\<rparr>" by (rule fence_okD(3) [OF assms(1)])
    have f: "fill_fenced n w k phj" by (rule fence_okD(4) [OF assms(1) tj])
    show "fill_fenced (Suc n) w' k phj"
    proof (cases "k = key")
      case True
      then show ?thesis using f key unfolding fill_fenced_def w'(1) by (metis le_SucI)
    next
      case False
      then show ?thesis using fill_fenced_more [OF f, of "Suc n" w'] pend w'(1,4) by simp
    qed
  qed
  show "body c = origin w' k \<or> (\<exists>i. will_undo (Suc n) w' k (tasks w' i))" if v: "view (tier w') k = Some c" for c
  proof (cases "k = key \<or> body c = origin w k")
    case True
    have "will_undo (Suc n) w' key (tasks w' i)" by (simp add: w'(2))
    then show ?thesis using True by (cases "k = key") (auto simp: w'(4))
  next
    case False
    then obtain j where j: "will_undo n w k (tasks w j)" using v fence_okD(5) [OF assms(1), of k c] w'(3) by auto
    then have "j \<noteq> i" using False assms(2) by auto
    then show ?thesis using will_undo_more [OF j, of "Suc n" w'] w'(1,2) by (metis fun_upd_other le_SucI order_refl)
  qed
qed


lemma poisoned_after: "claimed reg k \<Longrightarrow> map_of (claims (poison_claims k reg)) k = Some Poisoned"
  by (auto simp: claimed_def poison_claims_def update_conv')

lemma fence_poison_claims:
  assumes "fence_ok n w" "tasks w i = Writing key PoisoningClaims" "holders_ok w'"
    and "w' = w\<lparr>registry := poison_claims key (registry w), tasks := (tasks w)(i := Writing key PoisoningReads)\<rparr>"
  shows "fence_ok (Suc n) w'"
proof (rule fence_okI [OF assms(3)])
  have w': "registry w' = poison_claims key (registry w)" "tasks w' = (tasks w)(i := Writing key PoisoningReads)" "tier w' = tier w" "origin w' = origin w"
    using assms(4) by simp_all
  show "sound (tier w')" using fence_okD(2) [OF assms(1)] w'(3) by simp
  have pend: "pending (tasks w') k g \<or> k = key \<and> g = None" if "pending (tasks w) k g" for k g
    using that [unfolded pending_def]
  proof (elim disjE conjE exE)
    fix j assume "tasks w j = Writing k PoisoningClaims"
    then show ?thesis using assms(2) unfolding pending_def w'(2) by (cases "j = i"; cases g) auto
  next
    fix j assume "g \<noteq> None" "tasks w j = Writing k PoisoningReads"
    then show ?thesis using assms(2) unfolding pending_def w'(2) by (intro disjI1 disjI2 conjI exI [of _ j]) auto
  qed
  fix k
  show "good_args k \<lparr>body = [], e_tag = tg\<rparr>" "fill_fenced (Suc n) w' k phj" if t: "tasks w' j = Filling k tg ad phj" for j tg ad phj
  proof -
    have tj: "tasks w j = Filling k tg ad phj" using t by (simp add: w'(2) split: if_splits)
    then show "good_args k \<lparr>body = [], e_tag = tg\<rparr>" by (rule fence_okD(3) [OF assms(1)])
    have f: "fill_fenced n w k phj" by (rule fence_okD(4) [OF assms(1) tj])
    have "fenced (Suc n) (registry w') k None" if "k = key" "phase_body phj \<noteq> None" "phase_ticket phj = None"
    proof -
      have "guarding k (tasks w j)" using tj ticketless_guards [of phj] that by simp
      then have "claimed (registry w) k" using holders_okD(3) [OF fence_okD(1) [OF assms(1)], of k] by blast
      then show ?thesis using poisoned_after [of "registry w" k] that(1) by (simp add: fenced_None w'(1))
    qed
    moreover have "fenced (Suc n) (registry w') k g" if "fenced n (registry w) k g" for g
      unfolding w'(1) by (rule fenced_more [OF fenced_poison_claims [OF that]]) simp
    ultimately show "fill_fenced (Suc n) w' k phj"
      using f pend [of k] unfolding fill_fenced_def w'(1,4) lag_poison_claims by (metis le_SucI option.distinct(1))
  qed
  show "body c = origin w' k \<or> (\<exists>i. will_undo (Suc n) w' k (tasks w' i))" if v: "view (tier w') k = Some c" for c
  proof (cases "body c = origin w k")
    case False
    then obtain j where j: "will_undo n w k (tasks w j)" using v fence_okD(5) [OF assms(1), of k c] w'(3) by auto
    have "will_undo (Suc n) w' k (tasks w' j)"
    proof (cases "j = i")
      case True
      then show ?thesis using j assms(2) by (simp add: w'(2))
    next
      case False
      then show ?thesis using j fenced_more [OF fenced_poison_claims, of n "registry w" k _ "Suc n" key]
        by (cases "tasks w j") (auto simp: w'(1,2) undoing_def)
    qed
    then show ?thesis by blast
  qed (simp add: w'(4))
qed

lemma fence_poison_reads:
  assumes "fence_ok n w" "tasks w i = Writing key PoisoningReads" "holders_ok w'"
    and "w' = w\<lparr>registry := poison_reads key (registry w), tasks := (tasks w)(i := Writing key Forgetting)\<rparr>"
  shows "fence_ok (Suc n) w'"
proof (rule fence_okI [OF assms(3)])
  have w': "registry w' = poison_reads key (registry w)" "tasks w' = (tasks w)(i := Writing key Forgetting)" "tier w' = tier w" "origin w' = origin w"
    using assms(4) by simp_all
  show "sound (tier w')" using fence_okD(2) [OF assms(1)] w'(3) by simp
  have pend: "pending (tasks w') k g \<or> k = key \<and> g \<noteq> None" if "pending (tasks w) k g" for k g
    using that [unfolded pending_def]
  proof (elim disjE conjE exE)
    fix j assume "tasks w j = Writing k PoisoningClaims"
    then show ?thesis using assms(2) unfolding pending_def w'(2) by (intro disjI1 disjI1 exI [of _ j]) auto
  next
    fix j assume "g \<noteq> None" "tasks w j = Writing k PoisoningReads"
    then show ?thesis using assms(2) unfolding pending_def w'(2) by (cases "j = i") auto
  qed
  fix k
  show "good_args k \<lparr>body = [], e_tag = tg\<rparr>" "fill_fenced (Suc n) w' k phj" if t: "tasks w' j = Filling k tg ad phj" for j tg ad phj
  proof -
    have tj: "tasks w j = Filling k tg ad phj" using t by (simp add: w'(2) split: if_splits)
    then show "good_args k \<lparr>body = [], e_tag = tg\<rparr>" by (rule fence_okD(3) [OF assms(1)])
    have f: "fill_fenced n w k phj" by (rule fence_okD(4) [OF assms(1) tj])
    have l: "(\<exists>p\<le>Suc n. lag (registry w') k e p) \<and> (k = key \<longrightarrow> fenced (Suc n) (registry w') k (Some e))" if e: "phase_ticket phj = Some e" for e
    proof -
      obtain p where p: "p \<le> n" "lag (registry w) k e p" using f e by (auto simp: fill_fenced_def)
      show ?thesis
      proof (cases "k = key")
        case True
        then have "lag (registry w') k e (Suc p)" using lag_poison_reads_Suc [OF p(2)] w'(1) by simp
        then show ?thesis using p(1) unfolding fenced_def by (auto intro!: exI [of _ "Suc p"])
      next
        case False
        then show ?thesis using p lag_poison_reads [of key "registry w" k e p] w'(1) by (auto intro: exI [of _ p])
      qed
    qed
    have "fenced (Suc n) (registry w') k g" if "fenced n (registry w) k g" for g
      unfolding w'(1) by (rule fenced_poison_reads [OF that])
    then show "fill_fenced (Suc n) w' k phj" using f pend [of k] l unfolding fill_fenced_def w'(4) by (metis option.exhaust)
  qed
  show "body c = origin w' k \<or> (\<exists>i. will_undo (Suc n) w' k (tasks w' i))" if v: "view (tier w') k = Some c" for c
  proof (cases "body c = origin w k")
    case False
    then obtain j where j: "will_undo n w k (tasks w j)" using v fence_okD(5) [OF assms(1), of k c] w'(3) by auto
    have "will_undo (Suc n) w' k (tasks w' j)"
    proof (cases "j = i")
      case True
      then show ?thesis using j assms(2) by (simp add: w'(2))
    next
      case False
      then show ?thesis using j fenced_poison_reads [of n "registry w" k _ key]
        by (cases "tasks w j") (auto simp: w'(1,2) undoing_def)
    qed
    then show ?thesis by blast
  qed (simp add: w'(4))
qed


text \<open>The steps that change the tier.\<close>

lemma fence_forget:
  assumes "fence_ok n w" "tasks w i = Writing key Forgetting \<and> t = Idle \<or> tasks w i = Filling key tag admit (Undoing g) \<and> t = Filling key tag admit (Finishing g True)"
    and "w' = w\<lparr>tier := drp key (tier w), tasks := (tasks w)(i := t)\<rparr>" "holders_ok w'"
  shows "fence_ok (Suc n) w'"
proof (rule fence_same [OF assms(1) _ _ _ assms(4), where i = i and t = t])
  show "sound (tier w')" using drp_sound [OF fence_okD(2) [OF assms(1)]] assms(3) by simp
  show "good_args k \<lparr>body = [], e_tag = tg\<rparr> \<and> fill_fenced (Suc n) w' k ph" if "t = Filling k tg ad ph" for k tg ad ph
  proof -
    have u: "tasks w i = Filling key tag admit (Undoing g)" "k = key" "tg = tag" "ph = Finishing g True" using that assms(2) by auto
    then show ?thesis using fence_okD(3) [OF assms(1) u(1)] bodyless_fenced [OF fence_okD(4) [OF assms(1) u(1)], of ph w'] assms(3) by simp
  qed
  show "view (tier w) k = Some c \<and> (will_undo n w k (tasks w i) \<longrightarrow> will_undo (Suc n) w' k t) \<or> body c = origin w k \<or> (\<exists>j. will_undo (Suc n) w' k (tasks w' j))"
    if "view (tier w') k = Some c" for k c
  proof -
    have "((view (tier w))(key := None)) k = Some c"
      using map_le_value [OF drp_view [OF fence_okD(2) [OF assms(1)]], of key k c] that assms(3) by simp
    then have "k \<noteq> key \<and> view (tier w) k = Some c" by (auto split: if_splits)
    then show ?thesis using assms(2) by auto
  qed
qed (use assms(2,3) in auto)

lemma fence_put:
  assumes "fence_ok n w" "tasks w i = Filling key tag admit (Putting g b)" "put e key \<lparr>body = b, e_tag = tag\<rparr> (tier w) = (ok, s)"
    and "w' = w\<lparr>tier := s, tasks := (tasks w)(i := Filling key tag admit (if ok then Landed g else Finishing g True))\<rparr>" "holders_ok w'"
  shows "fence_ok (Suc n) w'"
proof (rule fence_same [OF assms(1) _ _ _ assms(5), where i = i and t = "Filling key tag admit (if ok then Landed g else Finishing g True)"])
  let ?c = "\<lparr>body = b, e_tag = tag\<rparr>"
  have good: "good_args key ?c" by (rule fence_okD(3) [OF assms(1,2)])
  have snd: "sound (tier w)" by (rule fence_okD(2) [OF assms(1)])
  have f: "fill_fenced n w key (Putting g b)" by (rule fence_okD(4) [OF assms(1,2)])
  show "sound (tier w')" using put_sound [OF snd good, of e] assms(3,4) by simp
  show "good_args k \<lparr>body = [], e_tag = tg\<rparr> \<and> fill_fenced (Suc n) w' k ph"
    if "Filling key tag admit (if ok then Landed g else Finishing g True) = Filling k tg ad ph" for k tg ad ph
    using that good_any_body [OF good] bodyless_fenced [OF f, of ph w'] assms(4) by (auto split: if_splits)
  show "view (tier w) k = Some c \<and> (will_undo n w k (tasks w i) \<longrightarrow> will_undo (Suc n) w' k (Filling key tag admit (if ok then Landed g else Finishing g True)))
      \<or> body c = origin w k \<or> (\<exists>j. will_undo (Suc n) w' k (tasks w' j))" if v: "view (tier w') k = Some c" for k c
  proof (cases "view (tier w) k = Some c")
    case True
    then show ?thesis using assms(2) by (simp add: undoing_def)
  next
    case False
    have s: "snd (put e key ?c (tier w)) = tier w'" "fst (put e key ?c (tier w)) = ok" using assms(3,4) by simp_all
    have ok using put_failed [OF snd good, of e] map_le_value [of "view (tier w')" "view (tier w)" k c] v False unfolding s by blast
    have "((view (tier w))(key \<mapsto> stored ?c)) k = Some c"
      using put_view [OF snd good, of e] map_le_value [of "view (tier w')" _ k c] v False unfolding s by blast
    then have k: "k = key" "body c = b" using False stored_body [of ?c] by (auto split: if_splits)
    have "b = origin w key \<or> fenced n (registry w) key g \<or> pending (tasks w) key g" using f by (simp add: fill_fenced_def)
    then show ?thesis
    proof (elim disjE)
      assume "fenced n (registry w) key g"
      then have "will_undo (Suc n) w' k (tasks w' i)" using fenced_more [of n _ key g "Suc n"] assms(4) k(1) \<open>ok\<close> by (simp add: undoing_def)
      then show ?thesis by blast
    next
      assume "pending (tasks w) key g"
      then obtain j ph where "tasks w j = Writing key ph" "\<forall>b. ph \<noteq> Committing b" unfolding pending_def by blast
      moreover from this have "j \<noteq> i" using assms(2) by auto
      ultimately have "will_undo (Suc n) w' k (tasks w' j)" using assms(4) k(1) by simp
      then show ?thesis by blast
    qed (use k in simp)
  qed
qed (use assms(2,4) in auto)


text \<open>Starting a task, dropping a request, and any step.\<close>

lemma fence_suc: "fence_ok n w \<Longrightarrow> fence_ok (Suc n) w"
proof (rule fence_okI)
  assume f: "fence_ok n w"
  show "holders_ok w" "sound (tier w)" by (rule fence_okD [OF f])+
  fix k
  show "good_args k \<lparr>body = [], e_tag = tag\<rparr>" "fill_fenced (Suc n) w k ph" if "tasks w i = Filling k tag admit ph" for i tag admit ph
    using fence_okD(3) [OF f that] fill_fenced_more [OF fence_okD(4) [OF f that], of "Suc n" w] by simp_all
  show "body c = origin w k \<or> (\<exists>i. will_undo (Suc n) w k (tasks w i))" if "view (tier w) k = Some c" for c
    using fence_okD(5) [OF f that] will_undo_more [of n w k _ "Suc n" w] by auto
qed

lemma fence_cancel:
  assumes "fence_ok n w" "tasks w i = Filling key tag admit ph" "\<And>g. ph \<noteq> Landed g"
    and "w' = w\<lparr>tasks := (tasks w)(i := fill_task key tag admit (cancel_fill ph))\<rparr>" "holders_ok w'"
  shows "fence_ok (Suc n) w'"
proof (rule fence_same [OF assms(1) _ _ _ assms(5), where i = i and t = "fill_task key tag admit (cancel_fill ph)"])
  have f: "fill_fenced n w key ph" by (rule fence_okD(4) [OF assms(1,2)])
  have pend: "pending (tasks w) k g \<Longrightarrow> pending (tasks w') k g" for k g
    using pending_update [of "tasks w" i k g] assms(2,4) by simp
  have "fill_fenced (Suc n) w' key p" if "cancel_fill ph = Some p" for p
  proof (cases "p = ph")
    case True
    then show ?thesis using fill_fenced_more [OF f, of "Suc n" w'] pend assms(4) by simp
  next
    case False
    then show ?thesis using that assms(3) by (cases ph) (auto intro: bodyless_fenced [OF f] simp: assms(4))
  qed
  then show "good_args k \<lparr>body = [], e_tag = tg\<rparr> \<and> fill_fenced (Suc n) w' k p" if "fill_task key tag admit (cancel_fill ph) = Filling k tg ad p" for k tg ad p
    using that fence_okD(3) [OF assms(1,2)] by (auto simp: fill_task_def split: option.splits)
  have "undoing (Suc n) (registry w) k p" if "undoing n (registry w) k ph" "cancel_fill ph = Some p" for k p
    using that assms(3) fenced_more [of n "registry w" k _ "Suc n"] by (cases ph) (auto simp: undoing_def)
  moreover have "cancel_fill ph \<noteq> None" if "undoing n (registry w) k ph" for k using that by (cases ph) (auto simp: undoing_def)
  ultimately show "view (tier w) k = Some c \<and> (will_undo n w k (tasks w i) \<longrightarrow> will_undo (Suc n) w' k (fill_task key tag admit (cancel_fill ph)))
      \<or> body c = origin w k \<or> (\<exists>j. will_undo (Suc n) w' k (tasks w' j))" if "view (tier w') k = Some c" for k c
    using that assms(2,4) by (auto simp: fill_task_def split: option.splits)
qed (use assms fence_okD(2) [OF assms(1)] in auto)

lemma fence_start:
  assumes "fence_ok n w" "tasks w i = Idle" "holders_ok w'" "w' = w\<lparr>tasks := (tasks w)(i := t)\<rparr>"
    and "\<And>k tag admit ph. t = Filling k tag admit ph \<Longrightarrow> good_args k \<lparr>body = [], e_tag = tag\<rparr> \<and> phase_body ph = None \<and> phase_ticket ph = None"
  shows "fence_ok (Suc n) w'"
  by (rule fence_same [OF assms(1) _ _ _ assms(3), where i = i and t = t])
    (use assms(2,4,5) fence_okD(2) [OF assms(1)] in \<open>auto simp: fill_fenced_def\<close>)

lemma fence_step:
  assumes "fence_ok n w" "start_ok good_args ev" "\<not> cancels_insert ev w" "n < 2 ^ 64"
  shows "fence_ok (Suc n) (fill_step put drp ev w)"
proof -
  have h: "holders_ok (fill_step put drp ev w)" by (rule holders_step [OF fence_okD(1) [OF assms(1)]])
  show ?thesis
  proof (cases ev)
    case (Step i x)
    show ?thesis
    proof (cases "tasks w i")
      case Idle
      then show ?thesis using fence_suc [OF assms(1)] Step by (simp add: fun_upd_idem)
    next
      case (Writing key ph)
      then show ?thesis using Step h fence_commit [OF assms(1), of i key] fence_poison_claims [OF assms(1), of i key]
          fence_poison_reads [OF assms(1), of i key] fence_forget [OF assms(1), of i key Idle]
        by (cases ph) simp_all
    next
      case (Filling key tag admit ph)
      consider g b where "ph = Putting g b" | g where "ph = Undoing g" | "\<not> tier_phase ph" by (cases ph) simp_all
      then show ?thesis
      proof cases
        case 1
        obtain ok s where "put (in_env x) key \<lparr>body = b, e_tag = tag\<rparr> (tier w) = (ok, s)" by fastforce
        then show ?thesis using fence_put [OF assms(1) Filling [unfolded 1], of "in_env x" ok s] Step Filling 1 h by simp
      next
        case 2
        then show ?thesis using fence_forget [OF assms(1), of i key "Filling key tag admit (Finishing g True)" tag admit g] Step Filling h by simp
      next
        case 3
        obtain ph' reg where a: "advance_fill x key admit (origin w key) ph (registry w) = (ph', reg)" by fastforce
        show ?thesis using fence_suc [OF fence_advance [OF assms(1) Filling 3 assms(4) a refl]] Step Filling step_task_advance [OF 3, of put drp x key tag admit w]
          by (simp add: a)
      qed
    qed
  next
    case (Cancel i)
    show ?thesis
    proof (cases "tasks w i")
      case (Filling key tag admit ph)
      then have "\<And>g. ph \<noteq> Landed g" using assms(3) Cancel by auto
      then show ?thesis using fence_cancel [OF assms(1) Filling _ refl] h Cancel Filling by simp
    qed (use fence_suc [OF assms(1)] Cancel in simp_all)
  next
    case (StartFill i key tag admit coalesce)
    then show ?thesis
    proof (cases "tasks w i = Idle")
      case True
      have "fence_ok (Suc n) (w\<lparr>tasks := (tasks w)(i := Filling key tag admit (if coalesce then Claiming else FetchBackend))\<rparr>)"
        by (rule fence_start [OF assms(1) True _ refl]) (use h StartFill True assms(2) in \<open>auto split: if_splits\<close>)
      then show ?thesis using StartFill True by simp
    qed (use fence_suc [OF assms(1)] in simp)
  next
    case (StartWrite i key b)
    then show ?thesis using fence_suc [OF assms(1)] fence_start [OF assms(1) _ _ refl] h by (cases "tasks w i = Idle") auto
  qed
qed

lemma fence_run:
  assumes "fence_ok n w" "list_all (start_ok good_args) evs" "inserts_uncancelled put drp evs w" "n + length evs \<le> 2 ^ 64"
  shows "fence_ok (n + length evs) (fold (fill_step put drp) evs w)"
  using assms
proof (induction evs arbitrary: n w)
  case (Cons ev evs)
  then have "fence_ok (Suc n) (fill_step put drp ev w)" by (intro fence_step) simp_all
  with Cons.IH [OF this] Cons.prems show ?case by simp
qed simp

text \<open>Once no task on a key is left, the tier holds nothing of it but the current bytes.\<close>

lemma tier_current:
  assumes "sound t" "\<And>k. view t k = None" "list_all (start_ok good_args) evs" "inserts_uncancelled put drp evs (fill_world_new t org)" "length evs \<le> 2 ^ 64"
    and "w = fold (fill_step put drp) evs (fill_world_new t org)"
    and "\<And>i. case tasks w i of Idle \<Rightarrow> True | Filling key _ _ _ \<Rightarrow> key \<noteq> k | Writing key _ \<Rightarrow> key \<noteq> k"
    and "fst (get e k (tier w)) = Some (Some c)"
  shows "body c = origin w k"
proof -
  have "fence_ok 0 (fill_world_new t org)"
    using fill_runs.reachable_holds [of "fill_world_new t org" put drp "[]"] assms(1,2) by (auto simp: fence_ok_def fill_world_new_def)
  then have f: "fence_ok (length evs) w" using fence_run [of 0] assms(3-6) by simp
  have "\<not> will_undo n w k (tasks w i)" for n i using assms(7) [of i] by (cases "tasks w i") auto
  then show ?thesis using fence_okD(5) [OF f] get_answer [OF fence_okD(2) [OF f] assms(8)] by blast
qed

end

section \<open>The tier is a fenced backend\<close>

lemma tier_put_failed:
  assumes "tier_sound crc32 F held m t" "put_args_ok k c" "\<not> fst (tier_put crc32 F e k c t)"
  shows "tier_view held (snd (tier_put crc32 F e k c t)) \<subseteq>\<^sub>m tier_view held t"
proof (cases "tier_store t")
  case None
  then show ?thesis using assms(3) by (simp add: tier_put_def put_chunk_def)
next
  case (Some st)
  then have st: "store_ok crc32 st" "st_chunk_size (scfg st) < 2 ^ 32" using assms(1) by (simp_all add: tier_sound_def store_sound_def)
  have r: "fst (store_put crc32 e k c st) \<noteq> None" using assms(3) Some by (auto simp: tier_put_def put_chunk_def split: prod.splits)
  have "contents (snd (store_put crc32 e k c st)) \<subseteq>\<^sub>m contents st"
  proof (cases "st_chunk_size (scfg st) < length (body c)")
    case True
    then show ?thesis using put_correct(2) [OF st(1) assms(2) st(2), of e] by simp
  next
    case False
    then show ?thesis using put_correct(3,4) [OF st(1) assms(2) st(2), of e] r
      by (cases "contents st k") (auto simp: Let_def map_le_def restrict_map_def)
  qed
  then show ?thesis using Some by (simp add: tier_with_store tier_view_simps)
qed

interpretation tier_fence: fenced_backend "tier_sound crc32 F held m" "tier_view held" "tier_get crc32 F" "tier_put crc32 F"
    "tier_forget F" put_args_ok "tier_stored m" for crc32 F held m
  by unfold_locales (auto simp: tier_stored_def read_back_def put_args_ok_def tier_put_failed)

section \<open>Properties\<close>

definition key_quiet :: "string \<Rightarrow> (nat \<Rightarrow> task) \<Rightarrow> bool" where
  "key_quiet k ts \<longleftrightarrow> (\<forall>i. case ts i of Idle \<Rightarrow> True | Filling key _ _ _ \<Rightarrow> key \<noteq> k | Writing key _ \<Rightarrow> key \<noteq> k)"

abbreviation tier_fills :: "(bytes \<Rightarrow> u32) \<Rightarrow> ('f, 'e) foyer_ops \<Rightarrow> io_env fill_event list \<Rightarrow> 'f chunk_tier fill_world \<Rightarrow> 'f chunk_tier fill_world" where
  "tier_fills crc32 F \<equiv> fold (fill_step (tier_put crc32 F) (tier_forget F))"

text \<open>
  C3 (a fill never leaves pre-write bytes behind): start with an empty tier and let fills of any kind and overwrites of any keys interleave in any
  order, step by step, with any backend read, tier write or system call failing and requests dropped at any await but that of an insert. Once no task on a
  key is left, whatever the tier answers for it has the bytes the backend holds now: the invalidation that raced a fill was not lost, whichever of the two locks,
  checks and writes it fell between. The 64-bit epoch that tells a stale ticket does not wrap in fewer than \<open>2 ^ 64\<close> steps.
\<close>

theorem fence_keeps_tier_current:
  assumes "foyer_ok F held" "fresh_tier cfg held t" "list_all (start_ok put_args_ok) events" "length events \<le> 2 ^ 64"
    and "inserts_uncancelled (tier_put crc32 F) (tier_forget F) events (fill_world_new t org)"
    and "w = tier_fills crc32 F events (fill_world_new t org)" "key_quiet k (tasks w)"
    and "fst (get_chunk crc32 F env k (tier w)) = Some (Inr (Some c))"
  shows "body c = origin w k"
  by (rule tier_fence.tier_current [OF fresh_tier_sound(1) [OF assms(2,1)] fresh_tier_sound(2) [OF assms(2,1)] assms(3,5,4,6), of k env c])
    (use assms(7,8) in \<open>simp_all add: key_quiet_def tier_get_def tier_answer_def\<close>)

abbreviation good_step :: "nat \<Rightarrow> io_env fill_event" where
  "good_step i \<equiv> Step i \<lparr>in_read_ok = True, in_env = io_good, in_received = None\<rparr>"

lemmas fill_eval = fill_world_new_def registry_new_def claim_fill_def guard_new_def publish_fill_def registry_is_poisoned_def guard_drop_def
  release_claim_def after_guard_def fill_task_def begin_read_def for_fill_def claim_exclusive_def is_stale_def ticket_drop_def poison_claims_def poison_reads_def

theorem fence_keeps_tier_current_witness:
  "let w = tier_fills (\<lambda>_. 0) map_foyer (StartFill 0 ''k'' None True True # replicate 8 (good_step 0)) (fill_world_new (foyer Map.empty Never) (\<lambda>_. ''abc'')) in
     fst (get_chunk (\<lambda>_. 0) map_foyer io_good ''k'' (tier w)) = Some (Inr (Some \<lparr>body = ''abc'', e_tag = None\<rparr>)) \<and> ''abc'' = origin w ''k''"
proof -
  let ?c = "\<lparr>body = ''abc'', e_tag = None\<rparr> :: cached_chunk" and ?evs = "StartFill 0 ''k'' None True True # replicate 8 (good_step 0)"
  let ?start = "fill_world_new (foyer Map.empty Never :: (string \<Rightarrow> cache_value option) chunk_tier) (\<lambda>_. ''abc'')"
  let ?w = "tier_fills (\<lambda>_. 0) map_foyer ?evs ?start"
  have r: "replicate 8 (good_step 0) = [good_step 0, good_step 0, good_step 0, good_step 0, good_step 0, good_step 0, good_step 0, good_step 0]"
    by (simp add: numeral_eq_Suc)
  have w: "key_quiet ''k'' (tasks ?w)" "fst (get_chunk (\<lambda>_. 0) map_foyer io_good ''k'' (tier ?w)) = Some (Inr (Some ?c))"
    "inserts_uncancelled (tier_put (\<lambda>_. 0) map_foyer) (tier_forget map_foyer) ?evs ?start"
    unfolding r by (simp_all add: fill_eval key_quiet_def tier_put_def put_chunk_def get_chunk_def foyer_def map_foyer_def read_chunk_entry_def)
  have "list_all (start_ok put_args_ok) ?evs" unfolding r by (simp add: put_args_ok_def byte_in_def)
  moreover have "fresh_tier cfg id (foyer Map.empty Never)" for cfg by (simp add: fresh_tier_def foyer_def)
  ultimately have "body ?c = origin ?w ''k''"
    using fence_keeps_tier_current [OF map_foyer_ok _ _ _ w(3) refl w(1,2)] by simp
  then show ?thesis using w(2) by (simp add: Let_def)
qed

text \<open>
  C36 (a request dropped during its insert defeats the fence): when the overwrite falls between a fill's last look at its claim and its insert, and the request is dropped
  while that insert is awaited, the check after the insert never runs: with every task done, the tier still answers the bytes from before the overwrite.
\<close>

theorem cancelled_insert_leaves_stale:
  assumes "has_store t" "fst (tier_put crc32 F e k \<lparr>body = old, e_tag = tag\<rparr> (tier_forget F k t))"
    and "fst (get_chunk crc32 F e' k (snd (tier_put crc32 F e k \<lparr>body = old, e_tag = tag\<rparr> (tier_forget F k t)))) = Some (Inr (Some c))"
  shows "\<exists>events. let w = tier_fills crc32 F events (fill_world_new t (\<lambda>_. old)) in
    key_quiet k (tasks w) \<and> origin w k = new \<and> fst (get_chunk crc32 F e' k (tier w)) = Some (Inr (Some c))"
proof -
  let ?s = "Step 0 \<lparr>in_read_ok = True, in_env = e, in_received = None\<rparr>" and ?v = "Step 1 \<lparr>in_read_ok = True, in_env = e, in_received = None\<rparr>"
  let ?evs = "[StartFill 0 k tag True True, StartWrite 1 k new, ?s, ?s, ?s, ?s, ?v, ?v, ?v, ?v, ?s, Cancel 0, ?s]"
  obtain t' where t': "tier_put crc32 F e k \<lparr>body = old, e_tag = tag\<rparr> (tier_forget F k t) = (True, t')" using assms(2) by (metis prod.collapse)
  show ?thesis
    by (rule exI [of _ ?evs]) (use assms(3) t' in \<open>simp add: Let_def fill_eval key_quiet_def\<close>)
qed

theorem cancelled_insert_leaves_stale_witness:
  "\<exists>(t :: (string \<Rightarrow> cache_value option) chunk_tier) events. let w = tier_fills (\<lambda>_. 0) map_foyer events (fill_world_new t (\<lambda>_. ''abc'')) in
    key_quiet ''k'' (tasks w) \<and> origin w ''k'' = ''new'' \<and> fst (get_chunk (\<lambda>_. 0) map_foyer io_good ''k'' (tier w)) = Some (Inr (Some tiny_chunk))"
proof -
  obtain st0 st where st: "store_open tiny_store (\<lambda>_. True) blank_disk = Inr st0" "st = snd (store_put (\<lambda>_. 0) io_good ''k'' tiny_chunk st0)"
    "fst (store_get (\<lambda>_. 0) io_good ''k'' st) = Some (Inr (Some tiny_chunk))" by (rule tiny_filled [of "\<lambda>_. 0"], rule that) simp_all
  let ?t = "with_store Map.empty st0 Never :: (string \<Rightarrow> cache_value option) chunk_tier"
  note b = open_blank [OF tiny_ok(1) st(1) TrueI]
  have "fst (store_put (\<lambda>_. 0) io_good ''k'' tiny_chunk st0) = None"
    by (rule put_works [OF b(1) _ tiny_fits]) (simp_all add: io_good_def b(4) tiny_store_def tiny_chunk_def)
  moreover have "map_of (imap (sindex st0)) ''k'' = None" using b(3) [of "''k''"] contents_held [OF b(1)] by blast
  then have "tier_forget map_foyer ''k'' ?t = ?t"
    by (simp add: tier_forget_def with_store_def store_remove_def index_remove_def map_foyer_def fun_upd_idem)
  ultimately have "fst (tier_put (\<lambda>_. 0) map_foyer io_good ''k'' tiny_chunk (tier_forget map_foyer ''k'' ?t))"
    "fst (get_chunk (\<lambda>_. 0) map_foyer io_good ''k'' (snd (tier_put (\<lambda>_. 0) map_foyer io_good ''k'' tiny_chunk (tier_forget map_foyer ''k'' ?t)))) = Some (Inr (Some tiny_chunk))"
    using st(2,3) by (auto simp: tier_put_def put_chunk_def get_chunk_def with_store_def split: prod.splits)
  from cancelled_insert_leaves_stale [OF _ this [unfolded tiny_chunk_def], where new = "''new''"] show ?thesis
    by (simp add: tiny_chunk_def has_store_def with_store_def) blast
qed

end
