(* ===== verification/Sources.thy ===== *)
theory Sources
  imports Ring Directory
begin

text \<open>
  Who homes a chunk, who may hold it, and in which order they are asked (\<^verbatim>\<open>pacer-daemon/src/proxy/cluster.rs\<close>).
  The per-requester offset comes from the standard library's keyed hasher, a parameter here as in the admission sketch.
\<close>

section \<open>The cluster's view of a key\<close>

record cluster =
  cl_ring :: ring
  local_node :: string
  replication_r :: nat

definition is_home :: "hash_fn \<Rightarrow> cluster \<Rightarrow> string \<Rightarrow> bool" where
  "is_home xxh3 cl key =
     (let hs = homes xxh3 (cl_ring cl) key (replication_r cl) in hs = [] \<or> list_ex (\<lambda>n. node_name n = local_node cl) hs)"

definition home_offset :: "(string \<Rightarrow> string \<Rightarrow> u64) \<Rightarrow> string \<Rightarrow> string \<Rightarrow> nat \<Rightarrow> nat" where
  "home_offset hasher node key len = unat (hasher node key mod of_nat len)"

definition tier_rank :: "tier \<Rightarrow> nat" where
  "tier_rank t = (case t of Dram \<Rightarrow> 0 | Nvme \<Rightarrow> 1)"

definition sorted_by_tier :: "holder list \<Rightarrow> holder list" where
  "sorted_by_tier hs = sort_key (\<lambda>h. tier_rank (holder_tier h)) hs"

definition append_holder :: "cluster \<Rightarrow> holder \<Rightarrow> node_id list \<Rightarrow> node_id list" where
  "append_holder cl h nodes =
     (if holder_node h = local_node cl \<or> list_ex (\<lambda>n. node_name n = holder_node h) nodes then nodes
      else case member_named (cl_ring cl) (holder_node h) of Some n \<Rightarrow> nodes @ [n] | None \<Rightarrow> nodes)"

definition append_holders :: "cluster \<Rightarrow> holder list \<Rightarrow> node_id list \<Rightarrow> node_id list" where
  "append_holders cl hs nodes = fold (append_holder cl) (sorted_by_tier hs) nodes"

definition chunk_sources :: "hash_fn \<Rightarrow> (string \<Rightarrow> string \<Rightarrow> u64) \<Rightarrow> cluster \<Rightarrow> string \<Rightarrow> node_id list" where
  "chunk_sources xxh3 hasher cl key =
     (let sources = homes xxh3 (cl_ring cl) key (replication_r cl)
      in if sources \<noteq> [] then rotate (home_offset hasher (local_node cl) key (length sources)) sources else sources)"

text \<open>
  The nodes an invalidation goes to: the homes, and the holders the first home's directory lists. \<open>sharers_at\<close> is
  the answer of that lookup, which may fail. The ring is read again after it, as \<open>later\<close>.
\<close>

definition invalidation_targets :: "hash_fn \<Rightarrow> (node_id \<Rightarrow> string \<Rightarrow> sharer_set option) \<Rightarrow> cluster \<Rightarrow> ring \<Rightarrow> string \<Rightarrow> node_id list" where
  "invalidation_targets xxh3 sharers_at cl later key =
     (let targets = homes xxh3 (cl_ring cl) key (replication_r cl)
      in case targets of
           [] \<Rightarrow> targets
         | home # _ \<Rightarrow> (case sharers_at home key of
               Some s \<Rightarrow> append_holders (cl\<lparr>cl_ring := later\<rparr>) (sharers s) targets
             | None \<Rightarrow> targets))"

section \<open>Lemmas\<close>

lemma home_offset_less: "0 < len \<Longrightarrow> len < 2 ^ 64 \<Longrightarrow> home_offset hasher node key len < len"
proof -
  assume len: "0 < len" "len < 2 ^ 64"
  then have "unat (of_nat len :: u64) = len" by (simp add: unat_of_nat)
  then show ?thesis using len(1) by (simp add: home_offset_def unat_mod)
qed

lemma set_chunk_sources: "set (chunk_sources xxh3 hasher cl key) = set (homes xxh3 (cl_ring cl) key (replication_r cl))"
  by (simp add: chunk_sources_def Let_def)

lemma not_home_not_source: "\<not> is_home xxh3 cl key \<Longrightarrow> n \<in> set (chunk_sources xxh3 hasher cl key) \<Longrightarrow> node_name n \<noteq> local_node cl"
  by (auto simp: is_home_def set_chunk_sources list_ex_iff Let_def)

lemma append_holder_keeps: "set nodes \<subseteq> set (append_holder cl h nodes)"
  by (auto simp: append_holder_def split: option.split)

lemma append_holders_mono: "set nodes \<subseteq> set (fold (append_holder cl) hs nodes)"
  by (induction hs arbitrary: nodes) (auto dest: subsetD [OF append_holder_keeps])

lemma member_named_name: "member_named r nm = Some n \<Longrightarrow> node_name n = nm \<and> n \<in> set (members r)"
  by (auto simp: member_named_def find_Some_iff)

lemma append_holder_distinct:
  "distinct (map node_name nodes) \<Longrightarrow> distinct (map node_name (append_holder cl h nodes))"
proof (cases "member_named (cl_ring cl) (holder_node h)")
  case (Some n)
  assume "distinct (map node_name nodes)"
  then show ?thesis using member_named_name [OF Some] Some by (auto simp: append_holder_def list_ex_iff)
qed (simp add: append_holder_def)

lemma append_holders_distinct:
  "distinct (map node_name nodes) \<Longrightarrow> distinct (map node_name (fold (append_holder cl) hs nodes))"
  by (induction hs arbitrary: nodes) (simp_all add: append_holder_distinct)

lemma append_holders_reaches:
  assumes "h \<in> set hs" "holder_node h \<noteq> local_node cl" "member_named (cl_ring cl) (holder_node h) \<noteq> None"
  shows "\<exists>n \<in> set (fold (append_holder cl) hs nodes). node_name n = holder_node h"
  using assms(1)
proof (induction hs arbitrary: nodes)
  case (Cons x hs)
  show ?case
  proof (cases "x = h")
    case True
    obtain n where n: "member_named (cl_ring cl) (holder_node h) = Some n" using assms(3) by blast
    then have "\<exists>m \<in> set (append_holder cl h nodes). node_name m = holder_node h"
      using assms(2) member_named_name [OF n] by (auto simp: append_holder_def list_ex_iff)
    then show ?thesis using append_holders_mono [of "append_holder cl x nodes" cl hs] True by auto
  qed (use Cons in auto)
qed simp


lemma append_holders_only:
  assumes "n \<in> set (fold (append_holder cl) hs nodes)"
  shows "n \<in> set nodes \<or> n \<in> set (members (cl_ring cl)) \<and> node_name n \<noteq> local_node cl \<and> node_name n \<in> holder_node ` set hs"
  using assms
proof (induction hs arbitrary: nodes)
  case (Cons h hs)
  show ?case
  proof (cases "n \<in> set (append_holder cl h nodes)")
    case True
    then show ?thesis by (auto simp: append_holder_def dest: member_named_name split: if_splits option.splits)
  qed (use Cons in auto)
qed simp

lemma homes_distinct:
  assumes "distinct (map node_name (members r))"
  shows "distinct (map node_name (homes xxh3 r key k))"
proof -
  have "distinct (map node_name (ranked xxh3 r key))"
    using assms by (metis (no_types) ranked_def distinct_map distinct_sort set_sort)
  then show ?thesis unfolding homes_def by (metis distinct_take take_map)
qed

section \<open>Property\<close>

text \<open>
  C20 (an invalidation reaches every node that can hold the key): whether the directory lookup works or not, the nodes it goes to contain each of the key's homes, and only these when it
  fails. When it works they also contain every holder it lists that is a member and not this node, and nobody else; each name is there once if
  the ring lists it once.
\<close>

theorem invalidation_reaches_holders:
  assumes "hs = homes xxh3 (cl_ring cl) key (replication_r cl)" and "ts = invalidation_targets xxh3 sharers_at cl later key"
    and "listed = (case hs of [] \<Rightarrow> [] | home # _ \<Rightarrow> (case sharers_at home key of Some s \<Rightarrow> map holder_node (sharers s) | None \<Rightarrow> []))"
  shows "set hs \<subseteq> set ts \<and> (listed = [] \<longrightarrow> ts = hs)
    \<and> node_name ` set ts = node_name ` set hs \<union> {nm \<in> set listed. nm \<noteq> local_node cl \<and> member_named later nm \<noteq> None}
    \<and> (distinct (map node_name (members (cl_ring cl))) \<longrightarrow> distinct (map node_name ts))"
proof (cases "\<exists>home rest s. hs = home # rest \<and> sharers_at home key = Some s")
  case False
  then have "ts = hs" "listed = []"
    unfolding assms(2,3) by (auto simp: invalidation_targets_def Let_def assms(1) [symmetric] split: list.splits option.splits)
  then show ?thesis using homes_distinct [of "cl_ring cl" xxh3 key "replication_r cl"] by (simp add: assms(1))
next
  case True
  then obtain home rest s where h: "hs = home # rest" "sharers_at home key = Some s" by blast
  let ?cl = "cl\<lparr>cl_ring := later\<rparr>" and ?ss = "sorted_by_tier (sharers s)"
  have ts: "ts = fold (append_holder ?cl) ?ss hs" unfolding assms(2) using h by (simp add: invalidation_targets_def append_holders_def assms(1) [symmetric])
  have l: "listed = map holder_node (sharers s)" using h by (simp add: assms(3))
  have ss: "set ?ss = set (sharers s)" by (simp add: sorted_by_tier_def)
  have "node_name ` set ts \<subseteq> node_name ` set hs \<union> {nm \<in> set listed. nm \<noteq> local_node cl \<and> member_named later nm \<noteq> None}"
  proof
    fix nm assume "nm \<in> node_name ` set ts"
    then obtain n where n: "n \<in> set ts" "nm = node_name n" by blast
    then show "nm \<in> node_name ` set hs \<union> {nm \<in> set listed. nm \<noteq> local_node cl \<and> member_named later nm \<noteq> None}"
      using append_holders_only [of n ?cl ?ss hs] ts l ss by (auto simp: member_named_def find_None_iff)
  qed
  moreover have "nm \<in> node_name ` set ts" if nm: "nm \<in> set listed" "nm \<noteq> local_node cl" "member_named later nm \<noteq> None" for nm
  proof -
    obtain x where x: "x \<in> set ?ss" "holder_node x = nm" using nm(1) l ss by auto
    then have "\<exists>n \<in> set ts. node_name n = nm" using append_holders_reaches [OF x(1), of ?cl hs] nm(2,3) ts by simp
    then show ?thesis by (metis image_eqI)
  qed
  moreover have "set hs \<subseteq> set ts" unfolding ts by (rule append_holders_mono)
  moreover have "listed = [] \<longrightarrow> ts = hs" using l ts by (simp add: sorted_by_tier_def)
  moreover have "distinct (map node_name (members (cl_ring cl))) \<longrightarrow> distinct (map node_name ts)"
    unfolding ts assms(1) using homes_distinct append_holders_distinct by blast
  ultimately show ?thesis by blast
qed

theorem invalidation_reaches_holders_witness:
  "let r = ring_new [node_id_new ''a'' '''', node_id_new ''b'' '''']; cl = \<lparr>cl_ring = r, local_node = ''c'', replication_r = 1\<rparr>;
       s = \<lparr>sharers = [\<lparr>holder_node = ''b'', holder_tier = Dram, holder_generation = 1\<rparr>], sharers_widely_held = False\<rparr>
   in node_name ` set (invalidation_targets (\<lambda>_ _. 0) (\<lambda>_ _. Some s) cl r ''k'') = {''a'', ''b''}
    \<and> invalidation_targets (\<lambda>_ _. 0) (\<lambda>_ _. None) cl r ''k'' = [node_id_new ''a'' '''']"
proof -
  let ?r = "ring_new [node_id_new ''a'' '''', node_id_new ''b'' '''']" and ?h = "\<lparr>holder_node = ''b'', holder_tier = Dram, holder_generation = 1\<rparr>"
  let ?cl = "\<lparr>cl_ring = ?r, local_node = ''c'', replication_r = 1\<rparr>" and ?s = "\<lparr>sharers = [?h], sharers_widely_held = False\<rparr>"
  have hs: "homes (\<lambda>_ _. 0) (cl_ring ?cl) ''k'' (replication_r ?cl) = [node_id_new ''a'' '''']"
    by (simp add: homes_def ranked_def score_def ring_new_def)
  have m: "member_named ?r ''b'' \<noteq> None" by (simp add: member_named_def ring_new_def node_id_new_def)
  have "node_name ` set (invalidation_targets (\<lambda>_ _. 0) (\<lambda>_ _. Some ?s) ?cl ?r ''k'') = {''a'', ''b''}"
    using invalidation_reaches_holders [of _ "\<lambda>_ _. 0" ?cl "''k''" _ "\<lambda>_ _. Some ?s" ?r, OF refl refl refl] m
    unfolding hs by (auto simp: node_id_new_def)
  moreover have "invalidation_targets (\<lambda>_ _. 0) (\<lambda>_ _. None) ?cl ?r ''k'' = [node_id_new ''a'' '''']"
    using invalidation_reaches_holders [of _ "\<lambda>_ _. 0" ?cl "''k''" _ "\<lambda>_ _. None" ?r, OF refl refl refl]
    unfolding hs by simp
  ultimately show ?thesis by (simp add: Let_def)
qed

end
