(* ===== verification/Resolve.thy ===== *)
theory Resolve
  imports Fill_Fence Sources Backend Admission Read_Path
begin

text \<open>
  How one chunk of a read is found (\<^verbatim>\<open>pacer-daemon/src/proxy/fill.rs\<close>): in this node's tier, at a peer that homes it, or at the
  backend, with the fill, the admission and the announcements that follow. A node's state is passed explicitly; what the outside does during one
  resolution (peers, backend, system calls, clock) is the record \<open>surroundings\<close>. Peers, backend and directory answer as functions of the call:
  what a call changes at a peer is not part of the node's state. A task the code spawns and forgets is kept as a message in the order spawned.
  Log lines are left out; counters are kept.
\<close>

section \<open>The state of a node and what surrounds it\<close>

datatype transport_error = NotCached | RangeNotSatisfiable | PeerUnavailable string | OtherTransport string

record blob_stream =
  blob_len :: u64
  blob_object_len :: u64
  blob_body_start :: u64
  blob_e_tag :: "string option"
  blob_content_type :: "string option"
  blob_last_modified :: "int option"
  blob_chunks :: "(transport_error + bytes) list"

datatype s3_error = NoSuchKey | InternalError string | InvalidRequest string

record read_metrics =
  cache_hits :: u64
  bytes_from_cache :: u64
  stale_chunks :: u64
  peer_fetches :: u64
  bytes_from_peers :: u64
  peer_fallbacks :: u64
  local_admits :: u64
  fills_completed :: u64
  bytes_filled :: u64
  coalesced_served :: u64
  coalesced_bytes :: u64
  coalesce_fallbacks :: u64
  backend_retries :: u64
  failures_exhausted :: u64
  failures_permanent :: u64
  slab_stores :: u64
  slab_heap_fallbacks :: u64

record store_offer =
  so_chunk_key :: string
  so_upload_id :: string
  so_bucket :: string
  so_key :: string
  so_part_number :: int
  so_body :: bytes
  so_checksum_crc32 :: string
  so_populate_only :: bool

text \<open>\<open>PopulateAt home offer tag\<close>: offer a window to a home and, if it stages it, commit it under the entity tag.\<close>

datatype spawned =
    ForgetAt node_id string
  | AnnounceAdmit node_id string string u64
  | PopulateAt node_id store_offer string

record 'f node =
  nd_tier :: "'f chunk_tier"
  nd_fills :: fill_registry
  nd_directory :: directory
  nd_gate :: gate
  nd_gen_file :: gen_file
  nd_metrics :: read_metrics
  nd_populate_sequence :: u64
  nd_spawned :: "spawned list"

text \<open>\<open>received\<close> is what a waiter gets from its leader's channel; \<open>slab_takes\<close> whether a frame can be claimed, on a node with a slab.\<close>

record ('f, 'e) surroundings =
  body_crc :: "bytes \<Rightarrow> u32"
  foyer_api :: "('f, 'e) foyer_ops"
  get_env :: io_env
  put_env :: io_env
  ring_hash :: hash_fn
  offset_hash :: "string \<Rightarrow> string \<Rightarrow> u64"
  sketch_hash :: "u64 \<Rightarrow> string \<Rightarrow> u64"
  now :: nat
  gen_works :: bool
  peer_fetch :: "node_id \<Rightarrow> string \<Rightarrow> bool \<Rightarrow> transport_error + blob_stream"
  sends :: "nat \<Rightarrow> string \<Rightarrow> string \<Rightarrow> string \<Rightarrow> sdk_error + get_response"
  received :: "bytes option"
  slab_takes :: "(bytes \<Rightarrow> bool) option"

record requester_read =
  rq_forward :: "string \<Rightarrow> nat \<Rightarrow> attempt_error + bytes"
  rq_e_tag :: "string option"

record fill_ctx =
  fx_chunk :: chunk_config
  fx_cluster :: "cluster option"
  fx_coalesce :: bool
  fx_read_retry :: retry_policy
  fx_object_key :: string
  fx_bucket :: string
  fx_key :: string
  fx_object_len :: u64
  fx_e_tag :: "string option"
  fx_admit :: bool
  fx_no_fill :: bool
  fx_requester :: "requester_read option"
  fx_warm :: bool

definition fill_ctx_new :: "chunk_config \<Rightarrow> cluster option \<Rightarrow> bool \<Rightarrow> retry_policy \<Rightarrow> string \<Rightarrow> string \<Rightarrow> string \<Rightarrow> object_header
    \<Rightarrow> read_decision_t \<Rightarrow> requester_read option \<Rightarrow> fill_ctx" where
  "fill_ctx_new chunk cl coalesce retry okey bucket key header decision requester =
     \<lparr>fx_chunk = chunk, fx_cluster = cl, fx_coalesce = coalesce, fx_read_retry = retry, fx_object_key = okey, fx_bucket = bucket,
      fx_key = key, fx_object_len = object_len header, fx_e_tag = oh_e_tag header, fx_admit = (decision = CacheAndFill),
      fx_no_fill = (decision = CacheNoFill), fx_requester = requester, fx_warm = False\<rparr>"

definition count :: "(read_metrics \<Rightarrow> read_metrics) \<Rightarrow> 'f node \<Rightarrow> 'f node" where
  "count f nd = nd\<lparr>nd_metrics := f (nd_metrics nd)\<rparr>"

definition spawn :: "spawned \<Rightarrow> 'f node \<Rightarrow> 'f node" where
  "spawn x nd = nd\<lparr>nd_spawned := nd_spawned nd @ [x]\<rparr>"

definition with_fills :: "(fill_registry \<Rightarrow> fill_registry) \<Rightarrow> 'f node \<Rightarrow> 'f node" where
  "with_fills f nd = nd\<lparr>nd_fills := f (nd_fills nd)\<rparr>"

abbreviation len64 :: "bytes \<Rightarrow> u64" where
  "len64 b \<equiv> of_nat (length b)"

section \<open>The local copy\<close>

definition witness_matches :: "fill_ctx \<Rightarrow> string option \<Rightarrow> bool" where
  "witness_matches ctx tag = same_version (fx_e_tag ctx) tag"

definition cached_current :: "('f, 'e) surroundings \<Rightarrow> fill_ctx \<Rightarrow> string \<Rightarrow> 'f node \<Rightarrow> cached_chunk option \<times> 'f node" where
  "cached_current S ctx key nd =
     (let (r, t) = get_chunk (body_crc S) (foyer_api S) (get_env S) key (nd_tier nd);
          nd = nd\<lparr>nd_tier := t\<rparr>
      in case r of
           Some (Inr (Some c)) \<Rightarrow>
             if witness_matches ctx (e_tag c) then (Some c, nd)
             else (None, count (\<lambda>m. m\<lparr>stale_chunks := stale_chunks m + 1\<rparr>) (nd\<lparr>nd_tier := tier_forget (foyer_api S) key (nd_tier nd)\<rparr>))
         | _ \<Rightarrow> (None, nd))"

text \<open>A frame and the heap hold the same bytes; only the counters tell them apart.\<close>

definition cached_bytes :: "('f, 'e) surroundings \<Rightarrow> bytes \<Rightarrow> 'f node \<Rightarrow> bytes \<times> 'f node" where
  "cached_bytes S data nd = (case slab_takes S of
      None \<Rightarrow> (data, nd)
    | Some takes \<Rightarrow>
        if takes data then (data, count (\<lambda>m. m\<lparr>slab_stores := slab_stores m + 1\<rparr>) nd)
        else (data, count (\<lambda>m. m\<lparr>slab_heap_fallbacks := slab_heap_fallbacks m + 1\<rparr>) nd))"

definition to_cached :: "('f, 'e) surroundings \<Rightarrow> fill_ctx \<Rightarrow> bytes \<Rightarrow> 'f node \<Rightarrow> cached_chunk \<times> 'f node" where
  "to_cached S ctx data nd =
     (let (b, nd) = cached_bytes S data nd
      in (case fx_e_tag ctx of Some t \<Rightarrow> cached_chunk_versioned b t | None \<Rightarrow> cached_chunk_new b, nd))"

section \<open>Fills\<close>

definition insert_fenced :: "('f, 'e) surroundings \<Rightarrow> string \<Rightarrow> cached_chunk \<Rightarrow> u64 option \<Rightarrow> 'f node \<Rightarrow> bool \<times> 'f node" where
  "insert_fenced S key c read nd =
     (if guard_is_poisoned key read (nd_fills nd) then (False, nd)
      else let (err, t) = put_chunk (body_crc S) (foyer_api S) (put_env S) key c (nd_tier nd);
               nd = nd\<lparr>nd_tier := t\<rparr>
        in if err \<noteq> None then (False, nd)
           else if guard_is_poisoned key read (nd_fills nd) then (False, nd\<lparr>nd_tier := tier_forget (foyer_api S) key (nd_tier nd)\<rparr>)
           else (True, nd))"

definition forget_fenced :: "('f, 'e) surroundings \<Rightarrow> string \<Rightarrow> 'f node \<Rightarrow> 'f node" where
  "forget_fenced S key nd = (let nd = with_fills (poison key) nd in nd\<lparr>nd_tier := tier_forget (foyer_api S) key (nd_tier nd)\<rparr>)"

definition announce_local_admit :: "fill_ctx \<Rightarrow> string \<Rightarrow> 'f node \<Rightarrow> 'f node" where
  "announce_local_admit ctx key nd = (case fx_cluster ctx of
      None \<Rightarrow> nd
    | Some cl \<Rightarrow> nd\<lparr>nd_directory := fst (admit_next key (local_node cl) Dram (nd_directory nd))\<rparr>)"

definition insert_filled :: "('f, 'e) surroundings \<Rightarrow> fill_ctx \<Rightarrow> string \<Rightarrow> bytes \<Rightarrow> u64 option \<Rightarrow> 'f node \<Rightarrow> 'f node" where
  "insert_filled S ctx key data read nd =
     (let (c, nd) = to_cached S ctx data nd;
          (inserted, nd) = insert_fenced S key c read nd
      in if \<not> inserted then nd
         else announce_local_admit ctx key
           (count (\<lambda>m. m\<lparr>fills_completed := fills_completed m + 1, bytes_filled := bytes_filled m + len64 data\<rparr>) nd))"

definition maybe_fill :: "('f, 'e) surroundings \<Rightarrow> fill_ctx \<Rightarrow> string \<Rightarrow> bytes \<Rightarrow> u64 \<Rightarrow> 'f node \<Rightarrow> 'f node" where
  "maybe_fill S ctx key data read nd =
     (let (won, reg) = for_fill key (nd_fills nd);
          nd = nd\<lparr>nd_fills := reg\<rparr>
      in if \<not> won then with_fills (ticket_drop key) nd
         else with_fills (ticket_drop key) (with_fills (guard_drop key True) (insert_filled S ctx key data (Some read) nd)))"

section \<open>The backend\<close>

definition note_read_retries :: "u32 \<Rightarrow> 'f node \<Rightarrow> 'f node" where
  "note_read_retries attempts nd = count (\<lambda>m. m\<lparr>backend_retries := backend_retries m + of_nat (unat attempts - 1)\<rparr>) nd"

definition note_read_failure :: "backend_read_error \<Rightarrow> 'f node \<Rightarrow> s3_error \<times> 'f node" where
  "note_read_failure err nd0 =
     (let nd = note_read_retries (bre_attempts err) nd0 in
      case bre_kind err of
        ReadMissing \<Rightarrow> (NoSuchKey, nd)
      | ReadExhausted _ \<Rightarrow> (InternalError ''backend chunk read failed'', count (\<lambda>m. m\<lparr>failures_exhausted := failures_exhausted m + 1\<rparr>) nd)
      | ReadPermanent _ \<Rightarrow> (InternalError ''backend chunk read failed'', count (\<lambda>m. m\<lparr>failures_permanent := failures_permanent m + 1\<rparr>) nd))"

definition chunk_read_of :: "fill_ctx \<Rightarrow> u64 \<Rightarrow> u64 \<Rightarrow> u64 \<Rightarrow> chunk_read" where
  "chunk_read_of ctx a b i = \<lparr>rd_bucket = fx_bucket ctx, rd_key = fx_key ctx, rd_start = a, rd_end = b, rd_jitter = i\<rparr>"

definition backend_answer :: "('f, 'e) surroundings \<Rightarrow> fill_ctx \<Rightarrow> u64 \<Rightarrow> u64 \<Rightarrow> u64 \<Rightarrow> backend_read_error + chunk_body" where
  "backend_answer S ctx a b i = fst (case fx_requester ctx of
      None \<Rightarrow> read_range (sends S) (chunk_read_of ctx a b i) (fx_read_retry ctx)
    | Some r \<Rightarrow> read_range_with (chunk_read_of ctx a b i) (fx_read_retry ctx) (rq_forward r (range_header a b)))"

definition read_backend_chunk :: "('f, 'e) surroundings \<Rightarrow> fill_ctx \<Rightarrow> u64 \<Rightarrow> 'f node \<Rightarrow> (s3_error + bytes) \<times> 'f node" where
  "read_backend_chunk S ctx i nd = (case chunk_bounds (fx_chunk ctx) i (fx_object_len ctx) of
      None \<Rightarrow> (Inl (InternalError ''chunk index past object end''), nd)
    | Some (a, b) \<Rightarrow> (case backend_answer S ctx a b i of
          Inl err \<Rightarrow> (let (e, nd) = note_read_failure err nd in (Inl e, nd))
        | Inr got \<Rightarrow> (Inr (cb_body got), note_read_retries (cb_attempts got) nd)))"

definition fetch_from_backend :: "('f, 'e) surroundings \<Rightarrow> fill_ctx \<Rightarrow> u64 \<Rightarrow> string \<Rightarrow> bool \<Rightarrow> 'f node \<Rightarrow> (s3_error + bytes) \<times> 'f node" where
  "fetch_from_backend S ctx i key fill nd =
     (if \<not> fill then read_backend_chunk S ctx i nd
      else let (read, reg) = begin_read key (nd_fills nd);
               (r, nd) = read_backend_chunk S ctx i (nd\<lparr>nd_fills := reg\<rparr>)
        in case r of
             Inl e \<Rightarrow> (Inl e, with_fills (ticket_drop key) nd)
           | Inr b \<Rightarrow> (Inr b, maybe_fill S ctx key b read nd))"

text \<open>The claim is held when a leader starts.\<close>

definition fetch_leading :: "('f, 'e) surroundings \<Rightarrow> fill_ctx \<Rightarrow> u64 \<Rightarrow> string \<Rightarrow> 'f node \<Rightarrow> (s3_error + bytes) \<times> 'f node" where
  "fetch_leading S ctx i key nd =
     (let (r, nd) = read_backend_chunk S ctx i nd in
      case r of
        Inl e \<Rightarrow> (Inl e, with_fills (guard_drop key False) nd)
      | Inr b \<Rightarrow>
          (let nd = with_fills (publish_fill key b) nd;
               nd = (if fx_admit ctx then insert_filled S ctx key b None nd else nd)
           in (Inr b, with_fills (guard_drop key True) nd)))"

definition note_coalesced :: "bytes \<Rightarrow> 'f node \<Rightarrow> 'f node" where
  "note_coalesced b nd = count (\<lambda>m. m\<lparr>coalesced_served := coalesced_served m + 1, coalesced_bytes := coalesced_bytes m + len64 b\<rparr>) nd"

definition fetch_owned :: "('f, 'e) surroundings \<Rightarrow> fill_ctx \<Rightarrow> u64 \<Rightarrow> string \<Rightarrow> 'f node \<Rightarrow> (s3_error + bytes) \<times> 'f node" where
  "fetch_owned S ctx i key nd =
     (if \<not> fx_coalesce ctx then fetch_from_backend S ctx i key (fx_admit ctx) nd
      else let (c, reg) = claim_fill key (nd_fills nd); nd = nd\<lparr>nd_fills := reg\<rparr> in
        case c of
          Lead \<Rightarrow> fetch_leading S ctx i key nd
        | Ready b \<Rightarrow> (Inr b, note_coalesced b nd)
        | Follow _ \<Rightarrow> (case received S of
              Some b \<Rightarrow> (Inr b, note_coalesced b nd)
            | None \<Rightarrow> fetch_from_backend S ctx i key (fx_admit ctx) (count (\<lambda>m. m\<lparr>coalesce_fallbacks := coalesce_fallbacks m + 1\<rparr>) nd))
        | Busy \<Rightarrow> fetch_from_backend S ctx i key (fx_admit ctx) nd)"

section \<open>Peers\<close>

definition owns_chunk :: "('f, 'e) surroundings \<Rightarrow> fill_ctx \<Rightarrow> string \<Rightarrow> bool" where
  "owns_chunk S ctx key = (case fx_cluster ctx of None \<Rightarrow> True | Some cl \<Rightarrow> is_home (ring_hash S) cl key)"

fun collect_rest :: "(transport_error + bytes) list \<Rightarrow> bytes \<Rightarrow> transport_error + bytes" where
  "collect_rest [] buf = Inr buf"
| "collect_rest (Inl e # xs) buf = Inl e"
| "collect_rest (Inr b # xs) buf = collect_rest xs (buf @ b)"

definition collect_blob :: "blob_stream \<Rightarrow> transport_error + bytes" where
  "collect_blob blob = (case blob_chunks blob of
      [] \<Rightarrow> Inr []
    | first # rest \<Rightarrow> (case first of
          Inl e \<Rightarrow> Inl e
        | Inr a \<Rightarrow> (case rest of [] \<Rightarrow> Inr a | _ \<Rightarrow> collect_rest rest a)))"

definition spawn_forget_at :: "fill_ctx \<Rightarrow> node_id \<Rightarrow> string \<Rightarrow> 'f node \<Rightarrow> 'f node" where
  "spawn_forget_at ctx holder key nd = (case fx_cluster ctx of None \<Rightarrow> nd | Some _ \<Rightarrow> spawn (ForgetAt holder key) nd)"

fun try_sources :: "('f, 'e) surroundings \<Rightarrow> fill_ctx \<Rightarrow> string \<Rightarrow> node_id list \<Rightarrow> 'f node \<Rightarrow> bytes option \<times> 'f node" where
  "try_sources S ctx key [] nd = (None, nd)"
| "try_sources S ctx key (source # rest) nd = (case peer_fetch S source key (fx_no_fill ctx) of
      Inr blob \<Rightarrow>
        if \<not> witness_matches ctx (blob_e_tag blob) then try_sources S ctx key rest (spawn_forget_at ctx source key nd)
        else (case collect_blob blob of
            Inr b \<Rightarrow> (Some b, count (\<lambda>m. m\<lparr>peer_fetches := peer_fetches m + 1, bytes_from_peers := bytes_from_peers m + len64 b\<rparr>) nd)
          | Inl _ \<Rightarrow> try_sources S ctx key rest (count (\<lambda>m. m\<lparr>peer_fallbacks := peer_fallbacks m + 1\<rparr>) nd))
    | Inl NotCached \<Rightarrow> try_sources S ctx key rest nd
    | Inl _ \<Rightarrow> try_sources S ctx key rest (count (\<lambda>m. m\<lparr>peer_fallbacks := peer_fallbacks m + 1\<rparr>) nd))"

definition fetch_from_peer :: "('f, 'e) surroundings \<Rightarrow> fill_ctx \<Rightarrow> string \<Rightarrow> 'f node \<Rightarrow> bytes option \<times> 'f node" where
  "fetch_from_peer S ctx key nd = (case fx_cluster ctx of
      None \<Rightarrow> (None, nd)
    | Some cl \<Rightarrow> try_sources S ctx key (chunk_sources (ring_hash S) (offset_hash S) cl key) nd)"

definition spawn_admit_announce :: "('f, 'e) surroundings \<Rightarrow> cluster \<Rightarrow> string \<Rightarrow> u64 \<Rightarrow> 'f node \<Rightarrow> 'f node" where
  "spawn_admit_announce S cl key generation nd = (case homes (ring_hash S) (cl_ring cl) key (replication_r cl) of
      [] \<Rightarrow> nd
    | home # _ \<Rightarrow> spawn (AnnounceAdmit home key (local_node cl) generation) nd)"

definition maybe_admit_local :: "('f, 'e) surroundings \<Rightarrow> fill_ctx \<Rightarrow> string \<Rightarrow> bytes \<Rightarrow> u64 \<Rightarrow> 'f node \<Rightarrow> 'f node" where
  "maybe_admit_local S ctx key data read nd =
     (if fx_no_fill ctx then with_fills (ticket_drop key) nd
      else case fx_cluster ctx of
        None \<Rightarrow> with_fills (ticket_drop key) nd
      | Some cl \<Rightarrow>
          (let (generation, g, gf) = admit_at (sketch_hash S) (gen_works S) key (len64 data) (now S) (nd_gate nd) (nd_gen_file nd);
               nd = nd\<lparr>nd_gate := g, nd_gen_file := gf\<rparr>
           in case generation of
                None \<Rightarrow> with_fills (ticket_drop key) nd
              | Some gen \<Rightarrow>
                  (let (won, reg) = for_fill key (nd_fills nd);
                       nd = nd\<lparr>nd_fills := reg\<rparr>
                   in if \<not> won then with_fills (ticket_drop key) nd
                      else let (c, nd) = to_cached S ctx data nd;
                               (inserted, nd) = insert_fenced S key c (Some read) nd;
                               nd = (if \<not> inserted then nd
                                 else spawn_admit_announce S cl key gen
                                   (count (\<lambda>m. m\<lparr>local_admits := local_admits m + 1, bytes_filled := bytes_filled m + len64 data\<rparr>) nd))
                        in with_fills (ticket_drop key) (with_fills (guard_drop key True) nd))))"

definition spawn_requester_populate :: "('f, 'e) surroundings \<Rightarrow> fill_ctx \<Rightarrow> u64 \<Rightarrow> string \<Rightarrow> bytes \<Rightarrow> 'f node \<Rightarrow> 'f node" where
  "spawn_requester_populate S ctx i key data nd = (case (fx_requester ctx, fx_cluster ctx) of
      (Some r, Some cl) \<Rightarrow>
        (case rq_e_tag r of
           Some tag \<Rightarrow>
             if \<not> fx_admit ctx then nd
             else (case find (\<lambda>n. node_name n \<noteq> local_node cl) (homes (ring_hash S) (cl_ring cl) key (replication_r cl)) of
                 None \<Rightarrow> nd
               | Some home \<Rightarrow>
                   (let sequence = nd_populate_sequence nd;
                        offer = \<lparr>so_chunk_key = key,
                          so_upload_id = ''read:'' @ local_node cl @ '':'' @ key @ '':'' @ decimal (unat sequence),
                          so_bucket = fx_bucket ctx, so_key = fx_key ctx, so_part_number = min (int (unat (i + 1))) (2 ^ 31 - 1),
                          so_body = data, so_checksum_crc32 = '''', so_populate_only = True\<rparr>
                    in spawn (PopulateAt home offer tag) (nd\<lparr>nd_populate_sequence := sequence + 1\<rparr>)))
         | None \<Rightarrow> nd)
    | _ \<Rightarrow> nd)"

section \<open>Resolving a chunk\<close>

definition resolve_chunk :: "('f, 'e) surroundings \<Rightarrow> fill_ctx \<Rightarrow> u64 \<Rightarrow> 'f node \<Rightarrow> (s3_error + bytes) \<times> 'f node" where
  "resolve_chunk S ctx i nd =
     (let key = chunk_key (fx_chunk ctx) (fx_object_key ctx) i;
          (local, nd) = cached_current S ctx key nd
      in case local of
           Some c \<Rightarrow> (Inr (body c), count (\<lambda>m. m\<lparr>cache_hits := cache_hits m + 1, bytes_from_cache := bytes_from_cache m + len64 (body c)\<rparr>) nd)
         | None \<Rightarrow>
             if owns_chunk S ctx key then fetch_owned S ctx i key nd
             else let (read, reg) = begin_read key (nd_fills nd);
                      (fetched, nd) = fetch_from_peer S ctx key (nd\<lparr>nd_fills := reg\<rparr>)
               in case fetched of
                    Some b \<Rightarrow> (Inr b, if fx_warm ctx then with_fills (ticket_drop key) nd else maybe_admit_local S ctx key b read nd)
                  | None \<Rightarrow>
                      (let (r, nd) = fetch_from_backend S ctx i key False (with_fills (ticket_drop key) nd)
                       in case r of
                            Inl e \<Rightarrow> (Inl e, nd)
                          | Inr b \<Rightarrow> (Inr b, spawn_requester_populate S ctx i key b nd)))"

end
