(* ===== verification/Resolve_Correct.thy ===== *)
theory Resolve_Correct
  imports Resolve
begin

text \<open>
  What resolving a chunk answers and leaves behind: bytes of the version the read serves or the backend's own failure, whatever tier and
  peers do; and with it the whole body of a GET.
\<close>

section \<open>Where the answer comes from\<close>

text \<open>The outcome of the backend read, apart from what it counts.\<close>

definition backend_result :: "('f, 'e) surroundings \<Rightarrow> fill_ctx \<Rightarrow> u64 \<Rightarrow> s3_error + bytes" where
  "backend_result S ctx i = (case chunk_bounds (fx_chunk ctx) i (fx_object_len ctx) of
      None \<Rightarrow> Inl (InternalError ''chunk index past object end'')
    | Some (a, b) \<Rightarrow> (case backend_answer S ctx a b i of
          Inl err \<Rightarrow> Inl (if bre_kind err = ReadMissing then NoSuchKey else InternalError ''backend chunk read failed'')
        | Inr got \<Rightarrow> Inr (cb_body got)))"

lemma fst_note_read_failure:
  "fst (note_read_failure err nd) = (if bre_kind err = ReadMissing then NoSuchKey else InternalError ''backend chunk read failed'')"
  by (simp add: note_read_failure_def Let_def split: read_error_kind.split)

lemma fst_read_backend_chunk: "fst (read_backend_chunk S ctx i nd) = backend_result S ctx i"
  by (auto simp: read_backend_chunk_def backend_result_def case_prod_beta fst_note_read_failure split: option.split sum.split)

lemma fst_fetch_from_backend: "fst (fetch_from_backend S ctx i key fill nd) = backend_result S ctx i"
  by (simp add: fetch_from_backend_def fst_read_backend_chunk Let_def case_prod_beta split: sum.split)

lemma fst_fetch_leading: "fst (fetch_leading S ctx i key nd) = backend_result S ctx i"
  by (simp add: fetch_leading_def fst_read_backend_chunk Let_def case_prod_beta split: sum.split)

lemma fst_fetch_owned:
  "fst (fetch_owned S ctx i key nd) = backend_result S ctx i
   \<or> (\<exists>b. fst (fetch_owned S ctx i key nd) = Inr b \<and> fx_coalesce ctx \<and> (map_of (claims (nd_fills nd)) key = Some (Filled b) \<or> received S = Some b))"
proof (cases "fx_coalesce ctx")
  case True
  then show ?thesis
    by (cases "map_of (claims (nd_fills nd)) key"; cases "the (map_of (claims (nd_fills nd)) key)"; cases "received S")
      (simp_all add: fetch_owned_def claim_fill_def Let_def fst_fetch_leading fst_fetch_from_backend)
qed (simp add: fetch_owned_def fst_fetch_from_backend)

lemma try_sources_answer:
  "fst (try_sources S ctx key ns nd) = Some b \<Longrightarrow>
     \<exists>n \<in> set ns. \<exists>blob. peer_fetch S n key (fx_no_fill ctx) = Inr blob \<and> witness_matches ctx (blob_e_tag blob) \<and> collect_blob blob = Inr b"
proof (induction ns arbitrary: nd)
  case (Cons n ns)
  show ?case
  proof (cases "peer_fetch S n key (fx_no_fill ctx)")
    case (Inl e)
    then show ?thesis using Cons by (cases e) auto
  next
    case (Inr blob)
    then show ?thesis using Cons by (cases "collect_blob blob") (auto split: if_splits)
  qed
qed simp

lemma fetch_from_peer_answer:
  assumes "fst (fetch_from_peer S ctx key nd) = Some b"
  shows "\<exists>n blob. peer_fetch S n key (fx_no_fill ctx) = Inr blob \<and> witness_matches ctx (blob_e_tag blob) \<and> collect_blob blob = Inr b"
  using assms try_sources_answer by (fastforce simp: fetch_from_peer_def split: option.splits)

lemma cached_current_answer:
  assumes "fst (cached_current S ctx key nd) = Some c"
  shows "fst (get_chunk (body_crc S) (foyer_api S) (get_env S) key (nd_tier nd)) = Some (Inr (Some c))" "witness_matches ctx (e_tag c)"
  using assms by (auto simp: cached_current_def Let_def split: prod.splits option.splits sum.splits if_splits)

lemma fills_cached_current [simp]: "nd_fills (snd (cached_current S ctx key nd)) = nd_fills nd"
  by (auto simp: cached_current_def Let_def count_def split: prod.splits option.splits sum.splits)

text \<open>The four ways to an answer.\<close>

lemma resolve_cases:
  fixes S ctx i nd
  defines "key \<equiv> chunk_key (fx_chunk ctx) (fx_object_key ctx) i" and "r \<equiv> fst (resolve_chunk S ctx i nd)"
  obtains (local) c where "r = Inr (body c)" "fst (get_chunk (body_crc S) (foyer_api S) (get_env S) key (nd_tier nd)) = Some (Inr (Some c))" "witness_matches ctx (e_tag c)"
  | (peer) n blob b where "r = Inr b" "peer_fetch S n key (fx_no_fill ctx) = Inr blob" "witness_matches ctx (blob_e_tag blob)" "collect_blob blob = Inr b"
  | (shared) b where "r = Inr b" "fx_coalesce ctx" "map_of (claims (nd_fills nd)) key = Some (Filled b) \<or> received S = Some b"
  | (backend) "r = backend_result S ctx i"
proof (cases "fst (cached_current S ctx key nd)")
  case (Some c)
  then have "r = Inr (body c)" unfolding r_def key_def by (auto simp: resolve_chunk_def Let_def split: prod.split)
  with cached_current_answer [OF Some] show ?thesis by (intro local)
next
  case None
  obtain nd1 where n1: "cached_current S ctx key nd = (None, nd1)" "nd_fills nd1 = nd_fills nd"
    using None fills_cached_current [of S ctx key nd] by (metis prod.collapse snd_conv)
  show ?thesis
  proof (cases "owns_chunk S ctx key")
    case True
    then have "r = fst (fetch_owned S ctx i key nd1)" using n1(1) unfolding r_def key_def by (simp add: resolve_chunk_def Let_def)
    then show ?thesis using fst_fetch_owned [of S ctx i key nd1] n1(2) shared backend by auto
  next
    case False
    obtain read reg where b: "begin_read key (nd_fills nd1) = (read, reg)" by fastforce
    obtain f nd2 where f: "fetch_from_peer S ctx key (nd1\<lparr>nd_fills := reg\<rparr>) = (f, nd2)" by fastforce
    show ?thesis
    proof (cases f)
      case (Some x)
      then have "r = Inr x" using n1(1) False b f unfolding r_def key_def by (simp add: resolve_chunk_def Let_def)
      then show ?thesis using fetch_from_peer_answer [of S ctx key "nd1\<lparr>nd_fills := reg\<rparr>" x] f Some peer by auto
    next
      case None
      then have "r = fst (fetch_from_backend S ctx i key False (with_fills (ticket_drop key) nd2))"
        using n1(1) False b f unfolding r_def key_def by (auto simp: resolve_chunk_def Let_def split: prod.split sum.split)
      then show ?thesis using backend by (simp add: fst_fetch_from_backend)
    qed
  qed
qed

section \<open>The version a read serves\<close>

text \<open>
  What is assumed of the copies: one that carries the read's witness has its bytes, and so has a fill in flight that the read may join, which carries none. \<open>honest_backend\<close> is what S3 documents of a
  ranged GET: the promised length is that of the range, and a body that is cut short is a prefix.
\<close>

definition honest_tier :: "fill_ctx \<Rightarrow> ('f \<Rightarrow> string \<Rightarrow> cache_value option) \<Rightarrow> 'f chunk_tier \<Rightarrow> string \<Rightarrow> bytes \<Rightarrow> bool" where
  "honest_tier ctx held t key want \<longleftrightarrow> (\<forall>c. tier_view held t key = Some c \<longrightarrow> witness_matches ctx (e_tag c) \<longrightarrow> body c = want)"

definition honest_peers :: "('f, 'e) surroundings \<Rightarrow> fill_ctx \<Rightarrow> string \<Rightarrow> bytes \<Rightarrow> bool" where
  "honest_peers S ctx key want \<longleftrightarrow> (\<forall>n blob b. peer_fetch S n key (fx_no_fill ctx) = Inr blob \<longrightarrow> witness_matches ctx (blob_e_tag blob)
     \<longrightarrow> collect_blob blob = Inr b \<longrightarrow> b = want)"

definition honest_flight :: "('f, 'e) surroundings \<Rightarrow> fill_registry \<Rightarrow> string \<Rightarrow> bytes \<Rightarrow> bool" where
  "honest_flight S reg key want \<longleftrightarrow> (\<forall>b. map_of (claims reg) key = Some (Filled b) \<or> received S = Some b \<longrightarrow> b = want)"

definition honest_backend :: "('f, 'e) surroundings \<Rightarrow> fill_ctx \<Rightarrow> bytes \<Rightarrow> u64 \<Rightarrow> bool" where
  "honest_backend S ctx obj i \<longleftrightarrow> (case chunk_bounds (fx_chunk ctx) i (fx_object_len ctx) of
      None \<Rightarrow> True
    | Some (a, b) \<Rightarrow> (case fx_requester ctx of
          None \<Rightarrow> \<forall>j r. sends S j (fx_bucket ctx) (fx_key ctx) (range_header a b) = Inr r \<longrightarrow>
            content_length r = Some (int (length (seg (unat a) (unat b) obj)))
            \<and> (\<forall>x. resp_body r = Inr x \<longrightarrow> (\<exists>rest. seg (unat a) (unat b) obj = x @ rest))
        | Some rq \<Rightarrow> \<forall>j x. rq_forward rq (range_header a b) j = Inr x \<longrightarrow> x = seg (unat a) (unat b) obj))"

definition node_honest :: "('f, 'e) surroundings \<Rightarrow> fill_ctx \<Rightarrow> ('f \<Rightarrow> string \<Rightarrow> cache_value option) \<Rightarrow> 'f node \<Rightarrow> string \<Rightarrow> bytes \<Rightarrow> bool" where
  "node_honest S ctx held nd key want \<longleftrightarrow> honest_tier ctx held (nd_tier nd) key want \<and> honest_peers S ctx key want
     \<and> (fx_coalesce ctx \<longrightarrow> honest_flight S (nd_fills nd) key want)"

lemma backend_result_exact:
  assumes "honest_backend S ctx obj i" "fx_object_len ctx = of_nat (length obj)" "backend_result S ctx i = Inr x"
  shows "x = chunk_bytes (fx_chunk ctx) obj i"
proof -
  obtain a b where b: "chunk_bounds (fx_chunk ctx) i (of_nat (length obj)) = Some (a, b)"
    using assms(2,3) by (auto simp: backend_result_def split: option.splits)
  obtain got where g: "backend_answer S ctx a b i = Inr got" "x = cb_body got"
    using assms(2,3) b by (auto simp: backend_result_def split: sum.splits)
  let ?rd = "chunk_read_of ctx a b i" and ?want = "seg (unat a) (unat b) obj"
  have "cb_body got = ?want"
  proof (cases "a < b")
    case False
    then have "?want = []" by (simp add: seg_def word_less_nat_alt not_less)
    moreover have "cb_body got = []" using False g(1)
      by (auto simp: backend_answer_def read_range_def read_range_with_def chunk_read_of_def not_less split: option.splits)
    ultimately show ?thesis by simp
  next
    case True
    then have lt: "rd_start ?rd < rd_end ?rd" by (simp add: chunk_read_of_def)
    show ?thesis
    proof (cases "fx_requester ctx")
      case None
      then have "fst (read_range (sends S) ?rd (fx_read_retry ctx)) = Inr got" using g(1) by (simp add: backend_answer_def)
      then show ?thesis using assms(1,2) b None by (intro read_range_whole [OF _ lt]) (auto simp: honest_backend_def chunk_read_of_def)
    next
      case (Some rq)
      then show ?thesis using g(1) read_range_with_attempt [OF lt] assms(1,2) b by (fastforce simp: backend_answer_def honest_backend_def)
    qed
  qed
  then show ?thesis using b g(2) by (simp add: chunk_bytes_def)
qed

lemma resolve_answer:
  assumes "tier_sound (body_crc S) (foyer_api S) held m (nd_tier nd)" "fx_object_len ctx = of_nat (length obj)"
    and "node_honest S ctx held nd (chunk_key (fx_chunk ctx) (fx_object_key ctx) i) (chunk_bytes (fx_chunk ctx) obj i)" "honest_backend S ctx obj i"
  shows "fst (resolve_chunk S ctx i nd) = Inr (chunk_bytes (fx_chunk ctx) obj i)
    \<or> (\<exists>e. fst (resolve_chunk S ctx i nd) = Inl e \<and> backend_result S ctx i = Inl e)"
proof (cases rule: resolve_cases [of S ctx i nd])
  case (local c)
  then have "tier_view held (nd_tier nd) (chunk_key (fx_chunk ctx) (fx_object_key ctx) i) = Some c"
    by (intro tier_get_answer [OF assms(1), of "get_env S"]) (simp add: tier_get_def tier_answer_def)
  then show ?thesis using local assms(3) by (simp add: node_honest_def honest_tier_def)
next
  case (peer n blob b)
  then show ?thesis using assms(3) by (simp add: node_honest_def honest_peers_def)
next
  case (shared b)
  then show ?thesis using assms(3) by (auto simp: node_honest_def honest_flight_def)
next
  case backend
  then show ?thesis using backend_result_exact [OF assms(4,2)] by (cases "backend_result S ctx i") simp_all
qed

section \<open>The body of a GET\<close>

text \<open>
  Chunks of one response are resolved concurrently, so each meets the node in a state of its own: \<open>nds i\<close> and \<open>Ss i\<close> are what chunk \<open>i\<close> meets.
\<close>

definition get_body :: "(u64 \<Rightarrow> ('f, 'e) surroundings) \<Rightarrow> fill_ctx \<Rightarrow> (u64 \<Rightarrow> 'f node) \<Rightarrow> u64 \<Rightarrow> u64 \<Rightarrow> (s3_error + bytes) list option" where
  "get_body Ss ctx nds start stop = chunked_body (fx_chunk ctx) (fx_object_len ctx) (\<lambda>i. fst (resolve_chunk (Ss i) ctx i (nds i))) start stop"

definition serves_version :: "(u64 \<Rightarrow> ('f, 'e) surroundings) \<Rightarrow> fill_ctx \<Rightarrow> ('f \<Rightarrow> string \<Rightarrow> cache_value option) \<Rightarrow> (u64 \<Rightarrow> 'f node) \<Rightarrow> bytes \<Rightarrow> u64 \<Rightarrow> bool" where
  "serves_version Ss ctx held nds obj i \<longleftrightarrow> tier_sound (body_crc (Ss i)) (foyer_api (Ss i)) held (has_store (nd_tier (nds i))) (nd_tier (nds i))
     \<and> node_honest (Ss i) ctx held (nds i) (chunk_key (fx_chunk ctx) (fx_object_key ctx) i) (chunk_bytes (fx_chunk ctx) obj i)
     \<and> honest_backend (Ss i) ctx obj i"

text \<open>
  C1 (a GET returns the requested range of one version): let each covering chunk meet a node whose tier is sound, where every copy in the tier or at a peer that carries the
  witness of the version being read has that version's bytes, where the backend serves that version and, with coalescing on, a fill in flight that the read joins is of that version too: such a fill carries no
  witness, and the next section shows what is served when it is not. Then the
  response body is exactly the requested range; or, when the backend read of some chunk \<open>k\<close> fails for good, it is the range up to the start of chunk \<open>k\<close>
  followed by that read's error. Failures of peers and of the local tier, and copies with another version's witness, never reach the client.
\<close>

theorem get_body_exact:
  assumes "readable (fx_chunk ctx) obj start stop" "fx_object_len ctx = of_nat (length obj)"
    and "\<forall>i \<in> set (range_list (covering (fx_chunk ctx) start stop)). serves_version Ss ctx held nds obj i"
  shows "\<exists>parts. get_body Ss ctx nds start stop = Some (map Inr parts) \<and> concat parts = seg (unat start) (unat stop) obj
    \<or> (\<exists>k e. k \<in> set (range_list (covering (fx_chunk ctx) start stop)) \<and> fst (read_backend_chunk (Ss k) ctx k (nds k)) = Inl e
        \<and> get_body Ss ctx nds start stop = Some (map Inr parts @ [Inl e])
        \<and> concat parts = seg (unat start) (max (unat start) (unat k * unat (chunk_size (fx_chunk ctx)))) obj)"
proof -
  let ?is = "range_list (covering (fx_chunk ctx) start stop)" and ?r = "\<lambda>i. fst (resolve_chunk (Ss i) ctx i (nds i))"
  let ?good = "\<lambda>i. ?r i = Inr (chunk_bytes (fx_chunk ctx) obj i)"
  have body: "get_body Ss ctx nds start stop = chunked_body (fx_chunk ctx) (of_nat (length obj)) ?r start stop"
    by (simp add: get_body_def assms(2))
  have answer: "?good i \<or> (\<exists>e. ?r i = Inl e \<and> backend_result (Ss i) ctx i = Inl e)" if i: "i \<in> set ?is" for i
    using assms(2,3) i by (intro resolve_answer) (auto simp: serves_version_def)
  show ?thesis
  proof (cases "\<forall>i \<in> set ?is. ?good i")
    case True
    then show ?thesis using chunked_body_exact [OF assms(1) True] unfolding body by blast
  next
    case False
    then obtain before k after where s: "?is = before @ k # after" "\<not> ?good k" "\<forall>i \<in> set before. ?good i"
      using split_list_first_prop [of ?is "\<lambda>i. \<not> ?good i"] by blast
    then obtain e where e: "?r k = Inl e" "backend_result (Ss k) ctx k = Inl e" using answer [of k] by auto
    have "k \<in> set ?is" by (simp add: s(1))
    then show ?thesis using chunked_body_truncates [OF assms(1) s(1) s(3) e(1)] e(2) unfolding body fst_read_backend_chunk by blast
  qed
qed

text \<open>A node without peers that holds chunk 0 of the version \<open>v1\<close> and a chunk 1 of another version, and a backend that serves \<open>v1\<close>.\<close>

definition sample_backend :: "string \<Rightarrow> sdk_error + get_response" where
  "sample_backend r = (if r = ''bytes=0-3'' then Inr \<lparr>content_length = Some 4, resp_body = Inr ''0123''\<rparr>
     else if r = ''bytes=4-7'' then Inr \<lparr>content_length = Some 4, resp_body = Inr ''4567''\<rparr>
     else Inr \<lparr>content_length = Some 2, resp_body = Inr ''89''\<rparr>)"

definition sample_surroundings :: "(string \<Rightarrow> cache_value option, unit) surroundings" where
  "sample_surroundings = \<lparr>body_crc = \<lambda>_. 0, foyer_api = map_foyer, get_env = io_good, put_env = io_good, ring_hash = \<lambda>_ _. 0, offset_hash = \<lambda>_ _. 0,
     sketch_hash = \<lambda>_ _. 0, now = 0, gen_works = True, peer_fetch = \<lambda>_ _ _. Inl NotCached, sends = \<lambda>_ _ _. sample_backend,
     received = None, slab_takes = None\<rparr>"

definition sample_ctx :: fill_ctx where
  "sample_ctx = \<lparr>fx_chunk = \<lparr>chunk_size = 4\<rparr>, fx_cluster = None, fx_coalesce = True, fx_read_retry = retry_policy_default, fx_object_key = ''b/k'',
     fx_bucket = ''b'', fx_key = ''k'', fx_object_len = 10, fx_e_tag = Some ''v1'', fx_admit = True, fx_no_fill = False, fx_requester = None, fx_warm = False\<rparr>"

definition sample_node :: "(string \<Rightarrow> cache_value option) node" where
  "sample_node = \<lparr>nd_tier = foyer [chunk_key \<lparr>chunk_size = 4\<rparr> ''b/k'' 0 \<mapsto> Chunk \<lparr>body = ''0123'', e_tag = Some ''v1''\<rparr>,
       chunk_key \<lparr>chunk_size = 4\<rparr> ''b/k'' 1 \<mapsto> Chunk \<lparr>body = ''abcd'', e_tag = Some ''v0''\<rparr>] Never,
     nd_fills = registry_new, nd_directory = directory_new 0, nd_gate = gate_new id 0 0 0 0 0, nd_gen_file = None,
     nd_metrics = \<lparr>cache_hits = 0, bytes_from_cache = 0, stale_chunks = 0, peer_fetches = 0, bytes_from_peers = 0, peer_fallbacks = 0, local_admits = 0,
       fills_completed = 0, bytes_filled = 0, coalesced_served = 0, coalesced_bytes = 0, coalesce_fallbacks = 0, backend_retries = 0,
       failures_exhausted = 0, failures_permanent = 0, slab_stores = 0, slab_heap_fallbacks = 0\<rparr>,
     nd_populate_sequence = 0, nd_spawned = []\<rparr>"

lemmas sample_defs = sample_surroundings_def sample_ctx_def sample_node_def

lemma sample_cover: "range_list (covering \<lparr>chunk_size = 4\<rparr> 3 9) = [0, 1, 2]"
  by (simp add: range_list_def covering_def upt_rec)

lemma sample_digits: "decimal 0 = ''0''" "decimal (Suc 0) = ''1''" "decimal 2 = ''2''" "decimal 3 = ''3''" "decimal 4 = ''4''"
    "decimal 7 = ''7''" "decimal 8 = ''8''" "decimal 9 = ''9''"
  by (simp_all add: decimal.simps digit_def char_of_def bit_0)

lemma sample_key:
  "chunk_key \<lparr>chunk_size = 4\<rparr> ''b/k'' 0 = ''b/k#4:0''"
  "chunk_key \<lparr>chunk_size = 4\<rparr> ''b/k'' 1 = ''b/k#4:1''"
  "chunk_key \<lparr>chunk_size = 4\<rparr> ''b/k'' 2 = ''b/k#4:2''"
  by (simp_all add: chunk_key_def sample_digits)

lemma sample_bounds:
  "chunk_bounds \<lparr>chunk_size = 4\<rparr> 0 10 = Some (0, 4)"
  "chunk_bounds \<lparr>chunk_size = 4\<rparr> 1 10 = Some (4, 8)"
  "chunk_bounds \<lparr>chunk_size = 4\<rparr> 2 10 = Some (8, 10)"
  by (simp_all add: chunk_bounds_def)

lemma sample_range: "range_header 0 4 = ''bytes=0-3''" "range_header 4 8 = ''bytes=4-7''" "range_header 8 10 = ''bytes=8-9''"
  by (simp_all add: range_header_def sample_digits)

lemmas sample_eval = sample_defs sample_key sample_bounds sample_range

lemma sample_backend_result:
  assumes "i \<in> {0, 1, 2}"
  shows "\<exists>b. backend_result sample_surroundings sample_ctx i = Inr b"
  using assms by (auto simp: sample_eval backend_result_def backend_answer_def chunk_read_of_def read_range_def read_range_with_def retrying_def
      retry_loop.simps read_once_def sample_backend_def promised_def)

lemma sample_bytes:
  "chunk_bytes \<lparr>chunk_size = 4\<rparr> ''0123456789'' 0 = ''0123''"
  "chunk_bytes \<lparr>chunk_size = 4\<rparr> ''0123456789'' 1 = ''4567''"
  "chunk_bytes \<lparr>chunk_size = 4\<rparr> ''0123456789'' 2 = ''89''"
  using sample_bounds by (simp_all add: chunk_bytes_def seg_def)

lemma sample_versions: "\<not> same_version (Some ''v1'') (Some ''v0'')"
  by code_simp

lemma sample_serves:
  assumes "i \<in> {0, 1, 2}"
  shows "serves_version (\<lambda>_. sample_surroundings) sample_ctx id (\<lambda>_. sample_node) ''0123456789'' i"
proof -
  have "tier_sound (\<lambda>_. 0) map_foyer id False (nd_tier sample_node)"
    by (simp add: tier_sound_simps map_foyer_ok sample_node_def foyer_def)
  moreover have "honest_backend sample_surroundings sample_ctx ''0123456789'' i"
    using assms by (auto simp: honest_backend_def sample_eval sample_backend_def seg_def)
  moreover have "node_honest sample_surroundings sample_ctx id sample_node (chunk_key \<lparr>chunk_size = 4\<rparr> ''b/k'' i) (chunk_bytes \<lparr>chunk_size = 4\<rparr> ''0123456789'' i)"
    using assms by (auto simp: node_honest_def honest_tier_def honest_peers_def honest_flight_def sample_eval sample_bytes tier_view_def foyer_def
        registry_new_def witness_matches_def sample_versions split: if_splits)
  ultimately show ?thesis by (simp add: serves_version_def sample_surroundings_def sample_ctx_def sample_node_def has_store_def foyer_def)
qed

theorem get_body_exact_witness:
  "\<exists>parts. get_body (\<lambda>_. sample_surroundings) sample_ctx (\<lambda>_. sample_node) 3 9 = Some (map Inr parts) \<and> concat parts = ''345678''"
proof -
  have cov: "range_list (covering (fx_chunk sample_ctx) 3 9) = [0, 1, 2]" by (simp add: sample_ctx_def sample_cover)
  have r: "readable (fx_chunk sample_ctx) ''0123456789'' 3 9" by (simp add: readable_def addressable_def chunk_config_ok_def sample_ctx_def)
  have no_error: "fst (read_backend_chunk sample_surroundings sample_ctx k sample_node) \<noteq> Inl e" if k: "k \<in> set [0, 1, 2]" for k e
    using sample_backend_result [of k] k by (auto simp: fst_read_backend_chunk)
  have "\<forall>i \<in> set (range_list (covering (fx_chunk sample_ctx) 3 9)). serves_version (\<lambda>_. sample_surroundings) sample_ctx id (\<lambda>_. sample_node) ''0123456789'' i"
    unfolding cov using sample_serves by simp
  from get_body_exact [OF r _ this] show ?thesis unfolding cov using no_error by (auto simp: sample_ctx_def seg_def)
qed

section \<open>Fills in flight carry no version\<close>

text \<open>
  C37 (a read that joins a fill in flight does not check its version): on a home that has no current copy of the chunk, with coalescing on, the bytes another read has
  published for the key are served whatever version \<open>tag\<close> this read serves. A GET can so return chunks of two versions of an object
  that was replaced in place, and one under \<open>If-Match\<close> too.
\<close>

theorem coalesced_read_ignores_version:
  assumes "fst (get_chunk (body_crc S) (foyer_api S) (get_env S) key (nd_tier nd)) = Some (Inr None)"
    and "key = chunk_key (fx_chunk ctx) (fx_object_key ctx) i" "owns_chunk S ctx key" "fx_coalesce ctx"
    and "map_of (claims (nd_fills nd)) key = Some (Filled b)"
  shows "fst (resolve_chunk S (ctx\<lparr>fx_e_tag := tag\<rparr>) i nd) = Inr b"
proof -
  obtain t where t: "get_chunk (body_crc S) (foyer_api S) (get_env S) key (nd_tier nd) = (Some (Inr None), t)"
    using assms(1) by (metis prod.collapse)
  show ?thesis using t assms(2-5)
    by (simp add: resolve_chunk_def cached_current_def Let_def owns_chunk_def fetch_owned_def claim_fill_def)
qed

lemma sample_resolve:
  assumes "i \<in> {0, 1, 2}"
  shows "fst (resolve_chunk sample_surroundings sample_ctx i sample_node) = Inr (chunk_bytes \<lparr>chunk_size = 4\<rparr> ''0123456789'' i)"
proof -
  note s = sample_serves [OF assms, unfolded serves_version_def]
  then have "fst (resolve_chunk sample_surroundings sample_ctx i sample_node) = Inr (chunk_bytes (fx_chunk sample_ctx) ''0123456789'' i)
      \<or> (\<exists>e. fst (resolve_chunk sample_surroundings sample_ctx i sample_node) = Inl e \<and> backend_result sample_surroundings sample_ctx i = Inl e)"
    by (intro resolve_answer) (auto simp: sample_ctx_def)
  then show ?thesis using sample_backend_result [OF assms] by (auto simp: sample_ctx_def)
qed

theorem coalesced_read_ignores_version_witness:
  "get_body (\<lambda>_. sample_surroundings) sample_ctx
     (\<lambda>i. if i = 2 then sample_node\<lparr>nd_fills := registry_new\<lparr>claims := [(''b/k#4:2'', Filled ''zz'')]\<rparr>\<rparr> else sample_node) 3 9
   = Some [Inr ''3'', Inr ''4567'', Inr ''z'']"
proof -
  let ?n = "sample_node\<lparr>nd_fills := registry_new\<lparr>claims := [(''b/k#4:2'', Filled ''zz'')]\<rparr>\<rparr>"
  have "fst (resolve_chunk sample_surroundings (sample_ctx\<lparr>fx_e_tag := Some ''v1''\<rparr>) 2 ?n) = Inr ''zz''"
    by (rule coalesced_read_ignores_version [where key = "''b/k#4:2''"])
      (simp_all add: sample_eval get_chunk_def foyer_def map_foyer_def read_chunk_entry_def owns_chunk_def)
  then have "fst (resolve_chunk sample_surroundings sample_ctx 2 ?n) = Inr ''zz''" by (simp add: sample_ctx_def)
  moreover have "fst (resolve_chunk sample_surroundings sample_ctx 0 sample_node) = Inr ''0123''"
      "fst (resolve_chunk sample_surroundings sample_ctx 1 sample_node) = Inr ''4567''"
    using sample_resolve [of 0] sample_resolve [of 1] by (simp_all add: sample_bytes)
  moreover have "fx_chunk sample_ctx = \<lparr>chunk_size = 4\<rparr>" "fx_object_len sample_ctx = 10" by (simp_all add: sample_ctx_def)
  ultimately show ?thesis by (simp add: get_body_def chunked_body_def sample_cover sample_bounds slice_for_def bytes_slice_def cached_chunk_new_def Let_def)
qed

section \<open>A read that may not fill\<close>

text \<open>What a read leaves behind on its node that concerns others: the tier's chunks, the directory, the admission gate, and the calls it starts.\<close>

definition leaves_nothing :: "('f \<Rightarrow> string \<Rightarrow> cache_value option) \<Rightarrow> 'f node \<Rightarrow> 'f node \<Rightarrow> bool" where
  "leaves_nothing held nd nd' \<longleftrightarrow> tier_view held (nd_tier nd') \<subseteq>\<^sub>m tier_view held (nd_tier nd) \<and> nd_directory nd' = nd_directory nd
     \<and> nd_gate nd' = nd_gate nd \<and> nd_gen_file nd' = nd_gen_file nd
     \<and> (\<exists>new. nd_spawned nd' = nd_spawned nd @ new \<and> (\<forall>x \<in> set new. \<exists>n k. x = ForgetAt n k))"

lemma leaves_nothing_refl: "leaves_nothing held nd nd"
  by (simp add: leaves_nothing_def)

lemma leaves_nothing_trans: "leaves_nothing held nd nd1 \<Longrightarrow> leaves_nothing held nd1 nd2 \<Longrightarrow> leaves_nothing held nd nd2"
  unfolding leaves_nothing_def by (auto intro: map_le_trans)

lemma leaves_nothing_count: "leaves_nothing held nd (count f nd')  = leaves_nothing held nd nd'"
  "leaves_nothing held nd (with_fills g nd') = leaves_nothing held nd nd'" "leaves_nothing held nd (nd'\<lparr>nd_fills := reg\<rparr>) = leaves_nothing held nd nd'"
  "leaves_nothing held (nd\<lparr>nd_fills := reg\<rparr>) nd' = leaves_nothing held nd nd'"
  "leaves_nothing held (with_fills g nd) nd' = leaves_nothing held nd nd'" "leaves_nothing held (count f nd) nd' = leaves_nothing held nd nd'"
  by (simp_all add: leaves_nothing_def count_def with_fills_def)

lemmas leaves_nothing_simps [simp] = leaves_nothing_refl leaves_nothing_count

lemma read_backend_leaves: "leaves_nothing held nd (snd (read_backend_chunk S ctx i nd))"
  by (auto simp: read_backend_chunk_def note_read_failure_def note_read_retries_def Let_def split: option.split sum.split read_error_kind.split)

lemma fetch_from_backend_leaves: "leaves_nothing held nd (snd (fetch_from_backend S ctx i key False nd))"
  by (simp add: fetch_from_backend_def read_backend_leaves)

lemma fetch_leading_leaves:
  assumes "\<not> fx_admit ctx"
  shows "leaves_nothing held nd (snd (fetch_leading S ctx i key nd))"
  using read_backend_leaves [of held nd S ctx i] assms
  by (auto simp: fetch_leading_def Let_def split: prod.split sum.split)

lemma fetch_owned_leaves:
  assumes "\<not> fx_admit ctx"
  shows "leaves_nothing held nd (snd (fetch_owned S ctx i key nd))"
proof -
  let ?nd = "nd\<lparr>nd_fills := snd (claim_fill key (nd_fills nd))\<rparr>"
  have "leaves_nothing held nd (snd (fetch_leading S ctx i key ?nd))" "leaves_nothing held nd (snd (fetch_from_backend S ctx i key False ?nd))"
      "leaves_nothing held nd (snd (fetch_from_backend S ctx i key False (count f ?nd)))" for f
    using fetch_leading_leaves [OF assms, of held ?nd] fetch_from_backend_leaves [of held ?nd] fetch_from_backend_leaves [of held "count f ?nd"] by simp_all
  then show ?thesis using assms
    by (auto simp: fetch_owned_def note_coalesced_def fetch_from_backend_leaves Let_def split: prod.split fill_claim.split option.split)
qed

lemma try_sources_leaves: "leaves_nothing held nd (snd (try_sources S ctx key ns nd))"
proof (induction ns arbitrary: nd)
  case (Cons n ns)
  have forget: "leaves_nothing held nd (spawn_forget_at ctx n key nd)"
    by (simp add: leaves_nothing_def spawn_forget_at_def spawn_def split: option.split)
  have step: "leaves_nothing held nd (snd (try_sources S ctx key ns (count f nd)))" "leaves_nothing held nd (snd (try_sources S ctx key ns nd))"
      "leaves_nothing held nd (snd (try_sources S ctx key ns (spawn_forget_at ctx n key nd)))" for f
    using Cons.IH [of "count f nd"] Cons.IH [of nd] leaves_nothing_trans [OF forget Cons.IH] by simp_all
  show ?case by (auto simp: step split: sum.split transport_error.split)
qed simp

lemma fetch_from_peer_leaves: "leaves_nothing held nd (snd (fetch_from_peer S ctx key nd))"
  by (simp add: fetch_from_peer_def try_sources_leaves split: option.split)

lemma cached_current_leaves:
  assumes "tier_sound (body_crc S) (foyer_api S) held m (nd_tier nd)"
  shows "leaves_nothing held nd (snd (cached_current S ctx key nd))"
proof -
  let ?t = "snd (tier_get (body_crc S) (foyer_api S) (get_env S) key (nd_tier nd))"
  have s: "tier_sound (body_crc S) (foyer_api S) held m ?t" using assms by (rule tier_backend.get_sound)
  have v: "tier_view held ?t \<subseteq>\<^sub>m tier_view held (nd_tier nd)" using assms by (rule tier_backend.get_view)
  have d: "tier_view held (tier_forget (foyer_api S) key ?t) \<subseteq>\<^sub>m (tier_view held ?t)(key := None)" using s by (rule tier_backend.drp_view)
  have f: "tier_view held (tier_forget (foyer_api S) key ?t) \<subseteq>\<^sub>m tier_view held (nd_tier nd)"
    by (rule map_le_trans [OF map_le_trans [OF d upd_None_map_le] v])
  obtain r t where g: "get_chunk (body_crc S) (foyer_api S) (get_env S) key (nd_tier nd) = (r, t)" by fastforce
  have "leaves_nothing held nd (nd\<lparr>nd_tier := t\<rparr>)" "leaves_nothing held nd (nd\<lparr>nd_tier := tier_forget (foyer_api S) key t\<rparr>)"
    using v f g by (simp_all add: leaves_nothing_def tier_get_def)
  then show ?thesis using g by (simp add: cached_current_def Let_def split: option.split sum.split)
qed

text \<open>Only \<open>fetch_from_peer\<close> asks peers, and it hands its mark on.\<close>

lemma peer_fetch_sel:
  "body_crc (S\<lparr>peer_fetch := p\<rparr>) = body_crc S" "foyer_api (S\<lparr>peer_fetch := p\<rparr>) = foyer_api S" "get_env (S\<lparr>peer_fetch := p\<rparr>) = get_env S"
  "put_env (S\<lparr>peer_fetch := p\<rparr>) = put_env S" "ring_hash (S\<lparr>peer_fetch := p\<rparr>) = ring_hash S" "offset_hash (S\<lparr>peer_fetch := p\<rparr>) = offset_hash S"
  "sketch_hash (S\<lparr>peer_fetch := p\<rparr>) = sketch_hash S" "now (S\<lparr>peer_fetch := p\<rparr>) = now S" "gen_works (S\<lparr>peer_fetch := p\<rparr>) = gen_works S"
  "sends (S\<lparr>peer_fetch := p\<rparr>) = sends S" "received (S\<lparr>peer_fetch := p\<rparr>) = received S" "slab_takes (S\<lparr>peer_fetch := p\<rparr>) = slab_takes S"
  by simp_all

lemma peer_fetch_unused_inside:
  "cached_bytes (S\<lparr>peer_fetch := p\<rparr>) = cached_bytes S" "to_cached (S\<lparr>peer_fetch := p\<rparr>) = to_cached S" "insert_fenced (S\<lparr>peer_fetch := p\<rparr>) = insert_fenced S"
  "insert_filled (S\<lparr>peer_fetch := p\<rparr>) = insert_filled S" "maybe_fill (S\<lparr>peer_fetch := p\<rparr>) = maybe_fill S" "backend_answer (S\<lparr>peer_fetch := p\<rparr>) = backend_answer S"
  "read_backend_chunk (S\<lparr>peer_fetch := p\<rparr>) = read_backend_chunk S" "spawn_admit_announce (S\<lparr>peer_fetch := p\<rparr>) = spawn_admit_announce S"
  "fetch_from_backend (S\<lparr>peer_fetch := p\<rparr>) = fetch_from_backend S" "fetch_leading (S\<lparr>peer_fetch := p\<rparr>) = fetch_leading S"
  by (unfold cached_bytes_def to_cached_def insert_fenced_def insert_filled_def maybe_fill_def backend_answer_def read_backend_chunk_def
      spawn_admit_announce_def fetch_from_backend_def fetch_leading_def peer_fetch_sel) (rule refl)+

lemma peer_fetch_unused:
  "cached_current (S\<lparr>peer_fetch := p\<rparr>) = cached_current S" "owns_chunk (S\<lparr>peer_fetch := p\<rparr>) = owns_chunk S" "fetch_owned (S\<lparr>peer_fetch := p\<rparr>) = fetch_owned S"
  "maybe_admit_local (S\<lparr>peer_fetch := p\<rparr>) = maybe_admit_local S" "spawn_requester_populate (S\<lparr>peer_fetch := p\<rparr>) = spawn_requester_populate S"
  by (unfold cached_current_def owns_chunk_def fetch_owned_def maybe_admit_local_def spawn_requester_populate_def peer_fetch_unused_inside peer_fetch_sel) (rule refl)+

lemma fetch_from_peer_marked:
  assumes "fx_no_fill ctx"
  shows "fetch_from_peer (S\<lparr>peer_fetch := \<lambda>n k no_fill. if no_fill then peer_fetch S n k no_fill else unmarked n k\<rparr>) ctx key nd = fetch_from_peer S ctx key nd"
proof -
  have "try_sources (S\<lparr>peer_fetch := \<lambda>n k no_fill. if no_fill then peer_fetch S n k no_fill else unmarked n k\<rparr>) ctx key ns nd = try_sources S ctx key ns nd" for ns nd
    by (induction ns arbitrary: nd) (simp_all add: assms split: sum.split transport_error.split)
  then show ?thesis by (simp add: fetch_from_peer_def split: option.split)
qed

text \<open>
  C22 (a read that may not fill leaves nothing behind): a read marked as one that neither admits nor fills leaves no chunk in the node's tier, no directory entry, no admission and no generation, and starts no call but
  invalidations of stale copies at their holders, whatever peers, backend and system calls do. And every fetch it sends to a peer says that the peer may not fill either: what a peer would answer to
  a fetch without that mark has no influence on its answer or on the node.
\<close>

theorem no_store_fills_nothing:
  assumes "tier_sound (body_crc S) (foyer_api S) held m (nd_tier nd)" "\<not> fx_admit ctx" "fx_no_fill ctx"
  shows "leaves_nothing held nd (snd (resolve_chunk S ctx i nd))
    \<and> resolve_chunk (S\<lparr>peer_fetch := \<lambda>n k no_fill. if no_fill then peer_fetch S n k no_fill else unmarked n k\<rparr>) ctx i nd = resolve_chunk S ctx i nd"
proof
  let ?key = "chunk_key (fx_chunk ctx) (fx_object_key ctx) i"
  obtain c nd1 where c: "cached_current S ctx ?key nd = (c, nd1)" by fastforce
  obtain read reg where b: "begin_read ?key (nd_fills nd1) = (read, reg)" by fastforce
  obtain f nd2 where f: "fetch_from_peer S ctx ?key (nd1\<lparr>nd_fills := reg\<rparr>) = (f, nd2)" by fastforce
  obtain r nd3 where r: "fetch_from_backend S ctx i ?key False (with_fills (ticket_drop ?key) nd2) = (r, nd3)" by fastforce
  have l1: "leaves_nothing held nd nd1" using cached_current_leaves [OF assms(1), of ctx ?key] c by simp
  have "leaves_nothing held nd1 nd2" using fetch_from_peer_leaves [of held "nd1\<lparr>nd_fills := reg\<rparr>" S ctx ?key] f by simp
  then have l2: "leaves_nothing held nd nd2" using l1 leaves_nothing_trans by blast
  have "leaves_nothing held nd2 nd3" using fetch_from_backend_leaves [of held "with_fills (ticket_drop ?key) nd2" S ctx i ?key] r by simp
  then have l3: "leaves_nothing held nd nd3" using l2 leaves_nothing_trans by blast
  have lo: "leaves_nothing held nd (snd (fetch_owned S ctx i ?key nd1))" using fetch_owned_leaves [OF assms(2)] l1 leaves_nothing_trans by blast
  have populate: "spawn_requester_populate S ctx i ?key x nd3 = nd3" and admit: "maybe_admit_local S ctx ?key x read nd2 = with_fills (ticket_drop ?key) nd2" for x
    using assms(2,3) by (auto simp: maybe_admit_local_def spawn_requester_populate_def split: option.split)
  show "leaves_nothing held nd (snd (resolve_chunk S ctx i nd))"
  proof (cases c)
    case None
    then show ?thesis using c b f r l2 l3 lo populate admit by (cases f; cases r) (simp_all add: resolve_chunk_def Let_def)
  next
    case (Some x)
    then show ?thesis using c l1 by (simp add: resolve_chunk_def Let_def)
  qed
  show "resolve_chunk (S\<lparr>peer_fetch := \<lambda>n k no_fill. if no_fill then peer_fetch S n k no_fill else unmarked n k\<rparr>) ctx i nd = resolve_chunk S ctx i nd"
    unfolding resolve_chunk_def peer_fetch_unused peer_fetch_unused_inside fetch_from_peer_marked [OF assms(3)] ..
qed

lemma sample_sound: "tier_sound (body_crc sample_surroundings) (foyer_api sample_surroundings) id False (nd_tier sample_node)"
  by (simp add: tier_sound_simps map_foyer_ok sample_surroundings_def sample_node_def foyer_def)

theorem no_store_fills_nothing_witness:
  "let ctx = sample_ctx\<lparr>fx_admit := False, fx_no_fill := True, fx_cluster := Some \<lparr>cl_ring = ring_new [node_id_new ''n'' ''1''], local_node = ''x'', replication_r = 1\<rparr>\<rparr>
   in leaves_nothing id sample_node (snd (resolve_chunk sample_surroundings ctx 1 sample_node))
    \<and> resolve_chunk (sample_surroundings\<lparr>peer_fetch := \<lambda>n k no_fill. if no_fill then peer_fetch sample_surroundings n k no_fill else Inl NotCached\<rparr>) ctx 1 sample_node
      = resolve_chunk sample_surroundings ctx 1 sample_node"
  using no_store_fills_nothing [OF sample_sound, of "sample_ctx\<lparr>fx_admit := False, fx_no_fill := True,
      fx_cluster := Some \<lparr>cl_ring = ring_new [node_id_new ''n'' ''1''], local_node = ''x'', replication_r = 1\<rparr>\<rparr>" 1 "\<lambda>_ _. Inl NotCached"]
  by (simp add: Let_def)

end
