(* ===== verification/Quota.thy ===== *)
theory Quota
  imports Numbers
begin

text \<open>
  The node-wide account of pinned client memory (\<^verbatim>\<open>pacer-daemon/src/delivery.rs\<close>, \<open>DeliveryQuota\<close> and
  \<open>QuotaPermit\<close>). A reservation is a compare-and-swap loop without a lock: each load, each exchange (a weak one, which
  may fail for no reason) and each drop of a permit is one step, and the steps of all requests interleave in any order.
\<close>

section \<open>State and operations\<close>

record delivery_quota =
  q_in_use :: u64
  q_max :: u64
  q_max_per_target :: u64

definition quota_new :: "u64 \<Rightarrow> u64 \<Rightarrow> delivery_quota" where
  "quota_new pinned_bytes_max max_target_bytes = \<lparr>q_in_use = 0, q_max = pinned_bytes_max, q_max_per_target = max_target_bytes\<rparr>"

text \<open>\<open>OverQuota\<close>: the bytes requested, those in use, and the ceiling that was hit.\<close>

record over_quota =
  oq_requested :: u64
  oq_in_use :: u64
  oq_max :: u64

text \<open>A request: in the loop with the value it last saw, holding its permit, refused, or done with it.\<close>

datatype quota_task =
    Loading u64
  | Swapping u64 u64
  | Permit u64
  | Refused over_quota
  | Dropped

definition quota_reserve :: "u64 \<Rightarrow> delivery_quota \<Rightarrow> quota_task" where
  "quota_reserve bytes q =
     (if q_max_per_target q < bytes then Refused \<lparr>oq_requested = bytes, oq_in_use = q_in_use q, oq_max = q_max_per_target q\<rparr>
      else Loading bytes)"

fun reserve_step :: "bool \<Rightarrow> quota_task \<Rightarrow> delivery_quota \<Rightarrow> quota_task \<times> delivery_quota" where
  "reserve_step spurious (Loading bytes) q = (Swapping bytes (q_in_use q), q)"
| "reserve_step spurious (Swapping bytes current) q =
     (case checked_add current bytes of
        Some next \<Rightarrow>
          if next \<le> q_max q then
            if q_in_use q = current \<and> \<not> spurious then (Permit bytes, q\<lparr>q_in_use := next\<rparr>)
            else (Swapping bytes (q_in_use q), q)
          else (Refused \<lparr>oq_requested = bytes, oq_in_use = current, oq_max = q_max q\<rparr>, q)
      | None \<Rightarrow> (Refused \<lparr>oq_requested = bytes, oq_in_use = current, oq_max = q_max q\<rparr>, q))"
| "reserve_step spurious t q = (t, q)"

fun permit_drop :: "quota_task \<Rightarrow> delivery_quota \<Rightarrow> quota_task \<times> delivery_quota" where
  "permit_drop (Permit bytes) q = (Dropped, q\<lparr>q_in_use := q_in_use q - bytes\<rparr>)"
| "permit_drop t q = (t, q)"

text \<open>A reservation nothing interferes with.\<close>

definition reserve :: "u64 \<Rightarrow> delivery_quota \<Rightarrow> (over_quota + u64) \<times> delivery_quota" where
  "reserve bytes q =
     (let refused = \<lambda>m. Inl \<lparr>oq_requested = bytes, oq_in_use = q_in_use q, oq_max = m\<rparr> in
      if q_max_per_target q < bytes then (refused (q_max_per_target q), q)
      else case checked_add (q_in_use q) bytes of
        Some next \<Rightarrow> if next \<le> q_max q then (Inr bytes, q\<lparr>q_in_use := next\<rparr>) else (refused (q_max q), q)
      | None \<Rightarrow> (refused (q_max q), q))"

section \<open>Requests at the same time\<close>

record quota_world =
  quota :: delivery_quota
  requests :: "quota_task list"

datatype quota_event = Reserve u64 | ReserveStep nat bool | DropPermit nat

definition with_request :: "nat \<Rightarrow> (quota_task \<Rightarrow> delivery_quota \<Rightarrow> quota_task \<times> delivery_quota) \<Rightarrow> quota_world \<Rightarrow> quota_world" where
  "with_request i f w =
     (if i < length (requests w) then let (t, q) = f (requests w ! i) (quota w) in \<lparr>quota = q, requests = (requests w)[i := t]\<rparr> else w)"

fun quota_apply :: "quota_event \<Rightarrow> quota_world \<Rightarrow> quota_world" where
  "quota_apply (Reserve bytes) w = w\<lparr>requests := requests w @ [quota_reserve bytes (quota w)]\<rparr>"
| "quota_apply (ReserveStep i spurious) w = with_request i (reserve_step spurious) w"
| "quota_apply (DropPermit i) w = with_request i permit_drop w"

section \<open>Invariant\<close>

fun permit_bytes :: "quota_task \<Rightarrow> nat" where
  "permit_bytes (Permit bytes) = unat bytes"
| "permit_bytes _ = 0"

text \<open>What a request's state says: a reservation is within the ceiling for one, and a refusal has its reason.\<close>

fun task_ok :: "u64 \<Rightarrow> u64 \<Rightarrow> quota_task \<Rightarrow> bool" where
  "task_ok limit per_target (Loading bytes) = (bytes \<le> per_target)"
| "task_ok limit per_target (Swapping bytes _) = (bytes \<le> per_target)"
| "task_ok limit per_target (Permit bytes) = (bytes \<le> per_target)"
| "task_ok limit per_target (Refused o') = (oq_max o' = per_target \<and> per_target < oq_requested o'
     \<or> oq_max o' = limit \<and> unat limit < unat (oq_in_use o') + unat (oq_requested o'))"
| "task_ok limit per_target Dropped = True"

definition quota_ok :: "u64 \<Rightarrow> u64 \<Rightarrow> quota_world \<Rightarrow> bool" where
  "quota_ok limit per_target w \<longleftrightarrow> q_max (quota w) = limit \<and> q_max_per_target (quota w) = per_target
     \<and> unat (q_in_use (quota w)) = sum_list (map permit_bytes (requests w)) \<and> q_in_use (quota w) \<le> limit
     \<and> list_all (task_ok limit per_target) (requests w)"

lemma permit_bytes_replace:
  assumes "i < length ts"
  shows "sum_list (map permit_bytes (ts[i := t])) + permit_bytes (ts ! i) = sum_list (map permit_bytes ts) + permit_bytes t"
proof -
  have "permit_bytes (ts ! i) \<le> sum_list (map permit_bytes ts)" using assms by (metis elem_le_sum_list length_map nth_map)
  then show ?thesis using assms sum_list_update [of i "map permit_bytes ts" "permit_bytes t"] by (simp add: map_update)
qed

text \<open>What one step of a request keeps of the account.\<close>

definition step_ok :: "quota_task \<Rightarrow> delivery_quota \<Rightarrow> quota_task \<times> delivery_quota \<Rightarrow> bool" where
  "step_ok t q r \<longleftrightarrow> (let (t', q') = r in
     task_ok (q_max q) (q_max_per_target q) t' \<and> q_max q' = q_max q \<and> q_max_per_target q' = q_max_per_target q
     \<and> unat (q_in_use q') + permit_bytes t = unat (q_in_use q) + permit_bytes t' \<and> q_in_use q' \<le> q_max q)"

lemma reserve_step_ok:
  assumes "task_ok (q_max q) (q_max_per_target q) t" "q_in_use q \<le> q_max q"
  shows "step_ok t q (reserve_step sp t q)"
proof (cases t)
  case (Swapping bytes current)
  show ?thesis
  proof (cases "checked_add current bytes")
    case None
    then have "2 ^ 64 \<le> unat current + unat bytes" by (simp add: checked_add_def split: if_splits)
    then have "unat (q_max q) < unat current + unat bytes" using unat_bound [of "q_max q"] by simp
    then show ?thesis using Swapping None assms by (simp add: step_ok_def)
  next
    case (Some sum)
    then show ?thesis using Swapping assms checked_add_Some [of current bytes sum] by (auto simp: step_ok_def word_le_nat_alt)
  qed
qed (use assms in \<open>simp_all add: step_ok_def\<close>)

lemma permit_drop_ok:
  assumes "task_ok (q_max q) (q_max_per_target q) t" "q_in_use q \<le> q_max q" "permit_bytes t \<le> unat (q_in_use q)"
  shows "step_ok t q (permit_drop t q)"
proof (cases t)
  case (Permit bytes)
  then have "unat (q_in_use q - bytes) = unat (q_in_use q) - unat bytes" using assms(3) by (simp add: unat_sub word_le_nat_alt)
  then show ?thesis using Permit assms by (simp add: step_ok_def word_le_nat_alt)
qed (use assms in \<open>simp_all add: step_ok_def\<close>)

lemma with_request_ok:
  assumes "quota_ok limit per w"
    and "\<And>t q. task_ok (q_max q) (q_max_per_target q) t \<Longrightarrow> q_in_use q \<le> q_max q \<Longrightarrow> permit_bytes t \<le> unat (q_in_use q) \<Longrightarrow> step_ok t q (f t q)"
  shows "quota_ok limit per (with_request i f w)"
proof (cases "i < length (requests w)")
  case True
  let ?t = "requests w ! i" and ?q = "quota w"
  obtain t' q' where f: "f ?t ?q = (t', q')" by fastforce
  note w = assms(1) [unfolded quota_ok_def]
  have "task_ok (q_max ?q) (q_max_per_target ?q) ?t" using w True by (simp add: list_all_length)
  moreover have "permit_bytes ?t \<le> unat (q_in_use ?q)" using w permit_bytes_replace [OF True, of Dropped] by simp
  ultimately have s: "step_ok ?t ?q (t', q')" using assms(2) [of ?q ?t] w f by simp
  have "unat (q_in_use q') = sum_list (map permit_bytes ((requests w)[i := t']))" using s permit_bytes_replace [OF True, of t'] w by (simp add: step_ok_def)
  moreover have "list_all (task_ok limit per) ((requests w)[i := t'])" using w s True by (simp add: step_ok_def list_all_length nth_list_update)
  ultimately show ?thesis using True f s w by (simp add: with_request_def quota_ok_def step_ok_def)
qed (use assms(1) in \<open>simp add: with_request_def\<close>)

lemma quota_apply_ok:
  assumes "quota_ok limit per w"
  shows "quota_ok limit per (quota_apply x w)"
proof (cases x)
  case (Reserve bytes)
  then show ?thesis using assms by (simp add: quota_ok_def quota_reserve_def not_less)
next
  case (ReserveStep i sp)
  then show ?thesis using with_request_ok [OF assms reserve_step_ok] by simp
next
  case (DropPermit i)
  then show ?thesis using with_request_ok [OF assms permit_drop_ok] by simp
qed

interpretation quota_runs: invariant_system "\<lambda>w. w = \<lparr>quota = quota_new limit per, requests = []\<rparr>" quota_apply "quota_ok limit per" for limit per
  by unfold_locales (simp add: quota_ok_def quota_new_def, rule quota_apply_ok)

section \<open>Properties\<close>

text \<open>
  C6 (pinned client memory stays within its ceilings): let requests reserve and drop in any interleaving of their loads, exchanges and drops, with any weak exchange
  failing. The bytes in use are exactly those of the permits alive, at most the node's ceiling, and no permit exceeds the ceiling of one target; so everything
  is given back once every permit is dropped. A refusal is for one of its two reasons: the target alone is too large, or with the bytes then seen in use it does not fit.
\<close>

theorem pinned_memory_bounded:
  "let w = fold quota_apply events \<lparr>quota = quota_new limit per_target, requests = []\<rparr> in
     unat (q_in_use (quota w)) = sum_list (map permit_bytes (requests w)) \<and> q_in_use (quota w) \<le> limit
   \<and> list_all (task_ok limit per_target) (requests w)"
proof -
  define w where "w = fold quota_apply events \<lparr>quota = quota_new limit per_target, requests = []\<rparr>"
  have "quota_ok limit per_target w" unfolding w_def by (rule quota_runs.reachable_holds) simp
  then show ?thesis unfolding w_def [symmetric] Let_def by (simp add: quota_ok_def)
qed

text \<open>A reservation nothing interferes with runs its loop once.\<close>

lemma reserve_uninterrupted:
  "reserve bytes q = (case quota_reserve bytes q of
      Refused o' \<Rightarrow> (Inl o', q)
    | t \<Rightarrow> (case reserve_step False (fst (reserve_step False t q)) q of
          (Permit b, q') \<Rightarrow> (Inr b, q') | (Refused o', q') \<Rightarrow> (Inl o', q') | (_, q') \<Rightarrow> (Inr bytes, q')))"
  by (auto simp: reserve_def quota_reserve_def Let_def split: option.split)

end
