(* ===== verification/Delivery.thy ===== *)
theory Delivery
  imports Resolve_Correct Target Quota
begin

text \<open>
  Delivery of an object's bytes into memory the client named (\<^verbatim>\<open>pacer-daemon/src/delivery.rs\<close>, \<^verbatim>\<open>proxy/target.rs\<close>,
  \<^verbatim>\<open>proxy/place.rs\<close>, \<^verbatim>\<open>proxy/deliver.rs\<close>): opening the memory, placing one window from wherever its chunk is found, and the fan-out over
  all windows with the answer it gives. The windows of a request are placed concurrently: each window's work is a list of reads and writes of the client's
  memory, and the lists of all windows are interleaved in any order. \<open>usize\<close> is 64 bits; log lines, timers and gauges of time are left out.
\<close>

section \<open>Configuration and refusals\<close>

definition DEFAULT_SHM_DIR :: string where "DEFAULT_SHM_DIR = ''/dev/shm''"
definition DEFAULT_MAX_TARGET_BYTES :: u64 where "DEFAULT_MAX_TARGET_BYTES = 2 ^ 30"
definition DEFAULT_DELIVERY_PARALLELISM :: nat where "DEFAULT_DELIVERY_PARALLELISM = 64"
definition DEFAULT_PINNED_BYTES_MAX :: u64 where "DEFAULT_PINNED_BYTES_MAX = 8 * 2 ^ 30"
definition DELIVERY_DECLINE_ATTEMPTS :: nat where "DELIVERY_DECLINE_ATTEMPTS = 3"

record delivery_config =
  dc_enabled :: bool
  dc_shm_dir :: string
  dc_max_target_bytes :: u64
  dc_pinned_bytes_max :: u64
  dc_parallelism :: nat
  dc_remote_write :: bool

definition delivery_config_default :: delivery_config where
  "delivery_config_default = \<lparr>dc_enabled = False, dc_shm_dir = DEFAULT_SHM_DIR, dc_max_target_bytes = DEFAULT_MAX_TARGET_BYTES,
     dc_pinned_bytes_max = DEFAULT_PINNED_BYTES_MAX, dc_parallelism = DEFAULT_DELIVERY_PARALLELISM, dc_remote_write = False\<rparr>"

text \<open>The messages of a refusal, as constructors.\<close>

datatype malformed_target = BadDescriptor malformed | OffsetLenOverflow | BadWindow token_window_error
datatype unusable_target = NotHostMemory | CannotOpen string | EmptySegment string | CannotMap string | SegmentTooSmall u64 | WindowTooSmall u64

datatype target_rejection =
    Malformed malformed_target
  | Unusable unusable_target
  | Unsupported string
  | OverQuota over_quota

definition is_degradable :: "target_rejection \<Rightarrow> bool" where
  "is_degradable r = (case r of OverQuota _ \<Rightarrow> True | Unsupported _ \<Rightarrow> True | _ \<Rightarrow> False)"

definition rejection_reason :: "target_rejection \<Rightarrow> string" where
  "rejection_reason r = (case r of Malformed _ \<Rightarrow> ''malformed'' | Unusable _ \<Rightarrow> ''unusable'' | Unsupported _ \<Rightarrow> ''unsupported'' | OverQuota _ \<Rightarrow> ''quota'')"

definition target_label :: "target_memory \<Rightarrow> string" where
  "target_label m = (case m of Shm _ \<Rightarrow> ''shm'' | Nic _ _ \<Rightarrow> ''nic'')"

definition shm_name :: "target_spec \<Rightarrow> string option" where
  "shm_name spec = (case ts_memory spec of Shm name \<Rightarrow> Some name | Nic _ _ \<Rightarrow> None)"

definition window_end :: "target_spec \<Rightarrow> u64 option" where
  "window_end spec = checked_add (ts_offset spec) (ts_len spec)"

section \<open>The client's memory\<close>

text \<open>The segments as files by path; \<open>mmaps\<close> says whether the call that maps one works.\<close>

type_synonym segments = "string \<Rightarrow> bytes option"

definition path_join :: "string \<Rightarrow> string \<Rightarrow> string" where
  "path_join dir name = (if dir = [] then name else if last dir = CHR ''/'' then dir @ name else dir @ ''/'' @ name)"

definition map_shared :: "segments \<Rightarrow> (string \<Rightarrow> bool) \<Rightarrow> string \<Rightarrow> unusable_target + u64" where
  "map_shared segs mmaps path = (case segs path of
      None \<Rightarrow> Inl (CannotOpen path)
    | Some file \<Rightarrow> if length file = 0 then Inl (EmptySegment path) else if \<not> mmaps path then Inl (CannotMap path) else Inr (of_nat (length file)))"

record mapped_target =
  mt_path :: string
  mt_offset :: nat
  mt_len :: nat
  mt_permit :: u64

text \<open>Dropping a permit, on a path that fails after the reservation or at the end of the request.\<close>

definition release_permit :: "u64 \<Rightarrow> delivery_quota \<Rightarrow> delivery_quota" where
  "release_permit bytes q = snd (permit_drop (Permit bytes) q)"

definition target_open :: "delivery_config \<Rightarrow> segments \<Rightarrow> (string \<Rightarrow> bool) \<Rightarrow> target_spec \<Rightarrow> delivery_quota \<Rightarrow> (target_rejection + mapped_target) \<times> delivery_quota" where
  "target_open cfg segs mmaps spec q = (case window_end spec of
      None \<Rightarrow> (Inl (Malformed OffsetLenOverflow), q)
    | Some end_pos \<Rightarrow> (case reserve (ts_len spec) q of
        (Inl over, q) \<Rightarrow> (Inl (OverQuota over), q)
      | (Inr permit, q) \<Rightarrow> (case shm_name spec of
          None \<Rightarrow> (Inl (Unusable NotHostMemory), release_permit permit q)
        | Some name \<Rightarrow> (let path = path_join (dc_shm_dir cfg) name in case map_shared segs mmaps path of
            Inl e \<Rightarrow> (Inl (Unusable e), release_permit permit q)
          | Inr segment_len \<Rightarrow>
              if segment_len < end_pos then (Inl (Unusable (SegmentTooSmall segment_len)), release_permit permit q)
              else (Inr \<lparr>mt_path = path, mt_offset = unat (ts_offset spec), mt_len = unat (ts_len spec), mt_permit = permit\<rparr>, q)))))"

datatype client_memory = Mapped mapped_target | TokenMemory token_window bool

definition window_len :: "client_memory \<Rightarrow> nat" where
  "window_len cm = (case cm of Mapped t \<Rightarrow> mt_len t | TokenMemory w _ \<Rightarrow> unat (tw_len w))"

text \<open>\<open>efa\<close>: the daemon was built with the RDMA plane.\<close>

definition open_client_memory :: "bool \<Rightarrow> delivery_config \<Rightarrow> segments \<Rightarrow> (string \<Rightarrow> bool) \<Rightarrow> target_spec \<Rightarrow> delivery_quota
    \<Rightarrow> (target_rejection + client_memory) \<times> delivery_quota" where
  "open_client_memory efa cfg segs mmaps spec q = (case ts_memory spec of
      Shm _ \<Rightarrow> (case target_open cfg segs mmaps spec q of (Inl e, q) \<Rightarrow> (Inl e, q) | (Inr t, q) \<Rightarrow> (Inr (Mapped t), q))
    | Nic base_addr rails \<Rightarrow>
        if \<not> efa then (Inl (Unsupported ''client-registered memory (this daemon was built without the RDMA plane)''), q)
        else (case token_window_new base_addr (ts_offset spec) (ts_len spec) rails of
            Inl e \<Rightarrow> (Inl (Malformed (BadWindow e)), q)
          | Inr w \<Rightarrow> (Inr (TokenMemory w (ts_checksum spec)), q)))"

text \<open>
  The mapping and its reservation go with the last handle on them. The request holds one, and so does a copy still running on the blocking pool when the request is cut off:
  the state here is the one after such copies have ended.
\<close>

definition close_client_memory :: "client_memory \<Rightarrow> delivery_quota \<Rightarrow> delivery_quota" where
  "close_client_memory cm q = (case cm of Mapped t \<Rightarrow> release_permit (mt_permit t) q | TokenMemory _ _ \<Rightarrow> q)"

text \<open>Serve the body instead, or tell the client; the counter's label is the first component.\<close>

definition target_rejected :: "target_rejection \<Rightarrow> string \<times> (s3_error + 'r option)" where
  "target_rejected r = (rejection_reason r, if is_degradable r then Inr None else Inl (InvalidRequest (rejection_reason r)))"

end
