(* ===== verification/Place.thy ===== *)
theory Place
  imports Delivery
begin

text \<open>
  Placing a request's windows (\<^verbatim>\<open>pacer-daemon/src/proxy/place.rs\<close>, \<^verbatim>\<open>proxy/deliver.rs\<close>). What a peer's or this node's RDMA write does is
  a parameter: an outcome (of a failed write, its class), and the bytes that reached the memory offered to it, whatever the outcome. The digest is that of the crc32fast crate, a parameter too.
\<close>

section \<open>Outcomes\<close>

datatype delivery_source = SourceLocal | SourcePeerRdma | SourcePeerStream | SourceBackend

datatype token_decline = NoHealthyRail | NotAddressable | BodyExceedsStaging | NotAnnounceable | WriterNotInstalled

definition decline_is_transient :: "token_decline \<Rightarrow> bool" where
  "decline_is_transient d = (d = NotAnnounceable \<or> d = WriterNotInstalled)"

definition decline_label :: "token_decline \<Rightarrow> string" where
  "decline_label d = (case d of NoHealthyRail \<Rightarrow> ''no_healthy_rail'' | NotAddressable \<Rightarrow> ''not_addressable''
     | BodyExceedsStaging \<Rightarrow> ''body_exceeds_staging'' | NotAnnounceable \<Rightarrow> ''not_announceable'' | WriterNotInstalled \<Rightarrow> ''writer_not_installed'')"

datatype token_write = Wrote | WriteDeclined token_decline
datatype chunk_delivery = Landed u64 "u32 option" "string option" | Streamed blob_stream

record 'h placed =
  pl_bytes :: u64
  pl_digest :: "'h option"
  pl_source :: delivery_source

record decline =
  dl_transient :: bool
  dl_reason :: string

datatype 'h placement = Placed "'h placed" | Declined decline

record 'h digests =
  dg_empty :: 'h
  dg_of :: "bytes \<Rightarrow> 'h"
  dg_combine :: "'h \<Rightarrow> 'h \<Rightarrow> 'h"
  dg_reported :: "u32 \<Rightarrow> u64 \<Rightarrow> 'h"
  dg_value :: "'h \<Rightarrow> u32"

section \<open>State\<close>

record delivery_metrics =
  dm_chunks :: "delivery_source \<Rightarrow> u64"
  dm_chunk_bytes :: "delivery_source \<Rightarrow> u64"
  dm_declines :: "token_decline \<Rightarrow> u64"
  dm_write_failures :: "string \<Rightarrow> u64"
  dm_registrations :: u64

text \<open>Reads and writes of the client's window, by offset.\<close>

datatype mem_act = WriteAt nat bytes | ReadAt nat nat

record 'f place_state =
  ps_node :: "'f node"
  ps_registration :: "bool option"
  ps_metrics :: delivery_metrics
  ps_acts :: "mem_act list"

record ('f, 'e) place_env =
  pe_around :: "('f, 'e) surroundings"
  pe_efa :: bool
  pe_registers :: bool
  pe_remote_write :: bool
  pe_write_token :: "token_window \<Rightarrow> nat \<Rightarrow> bytes \<Rightarrow> (string + token_write) \<times> bytes"
  pe_fetch_into :: "node_id \<Rightarrow> string \<Rightarrow> nat \<Rightarrow> nat \<Rightarrow> bool \<Rightarrow> (transport_error + chunk_delivery) \<times> bytes"
  pe_fetch_into_token :: "node_id \<Rightarrow> string \<Rightarrow> token_window \<Rightarrow> nat \<Rightarrow> nat \<Rightarrow> bool \<Rightarrow> bool \<Rightarrow> (transport_error + chunk_delivery) \<times> bytes"

definition act :: "mem_act \<Rightarrow> 'f place_state \<Rightarrow> 'f place_state" where
  "act x ps = ps\<lparr>ps_acts := ps_acts ps @ [x]\<rparr>"

definition measure_with :: "(delivery_metrics \<Rightarrow> delivery_metrics) \<Rightarrow> 'f place_state \<Rightarrow> 'f place_state" where
  "measure_with f ps = ps\<lparr>ps_metrics := f (ps_metrics ps)\<rparr>"

definition at_node :: "('f node \<Rightarrow> 'r \<times> 'f node) \<Rightarrow> 'f place_state \<Rightarrow> 'r \<times> 'f place_state" where
  "at_node f ps = (let (r, nd) = f (ps_node ps) in (r, ps\<lparr>ps_node := nd\<rparr>))"

definition node_counts :: "(read_metrics \<Rightarrow> read_metrics) \<Rightarrow> 'f place_state \<Rightarrow> 'f place_state" where
  "node_counts f ps = ps\<lparr>ps_node := count f (ps_node ps)\<rparr>"

definition note_chunk :: "delivery_source \<Rightarrow> u64 \<Rightarrow> 'f place_state \<Rightarrow> 'f place_state" where
  "note_chunk source bytes = measure_with (\<lambda>m. m\<lparr>dm_chunks := (dm_chunks m)(source := dm_chunks m source + 1),
     dm_chunk_bytes := (dm_chunk_bytes m)(source := dm_chunk_bytes m source + bytes)\<rparr>)"

section \<open>One window\<close>

definition window_slice :: "chunk_window \<Rightarrow> bytes \<Rightarrow> bytes" where
  "window_slice w b = seg (min (src_at w) (length b)) (min (src_at w + wlen w) (length b)) b"

text \<open>A copy past the window panics on its thread, which the caller sees as a failed copy.\<close>

definition copy_window :: "mapped_target \<Rightarrow> chunk_window \<Rightarrow> bytes \<Rightarrow> delivery_source \<Rightarrow> 'f place_state \<Rightarrow> (s3_error + u64) \<times> 'f place_state" where
  "copy_window t w b source ps =
     (let src = window_slice w b; len = len64 src in
      if mt_len t < dst_at w + length src then (Inl (InternalError ''delivery copy failed''), ps)
      else (Inr len, note_chunk source len (act (WriteAt (dst_at w) src) ps)))"

definition digest_sent :: "'h digests \<Rightarrow> bool \<Rightarrow> bytes \<Rightarrow> 'h option" where
  "digest_sent D asked src = (if \<not> asked then None else Some (dg_of D src))"

definition write_window :: "'h digests \<Rightarrow> ('f, 'e) place_env \<Rightarrow> token_window \<Rightarrow> bool \<Rightarrow> chunk_window \<Rightarrow> bytes \<Rightarrow> delivery_source \<Rightarrow> 'f place_state
    \<Rightarrow> (s3_error + 'h placement) \<times> 'f place_state" where
  "write_window D E token checksum w src source ps =
     (if \<not> pe_efa E then (Inr (Declined \<lparr>dl_transient = False, dl_reason = ''no_rdma_plane''\<rparr>), ps)
      else let (outcome, written) = pe_write_token E token (dst_at w) src; ps = act (WriteAt (dst_at w) written) ps in
        case outcome of
          Inl reason \<Rightarrow> (Inl (InternalError ''delivery write failed''), measure_with (\<lambda>m. m\<lparr>dm_write_failures := (dm_write_failures m)(reason := dm_write_failures m reason + 1)\<rparr>) ps)
        | Inr (WriteDeclined d) \<Rightarrow> (Inr (Declined \<lparr>dl_transient = decline_is_transient d, dl_reason = decline_label d\<rparr>),
            measure_with (\<lambda>m. m\<lparr>dm_declines := (dm_declines m)(d := dm_declines m d + 1)\<rparr>) ps)
        | Inr Wrote \<Rightarrow> (Inr (Placed \<lparr>pl_bytes = len64 src, pl_digest = digest_sent D checksum src, pl_source = source\<rparr>),
            note_chunk source (len64 src) ps))"

definition place_window :: "'h digests \<Rightarrow> ('f, 'e) place_env \<Rightarrow> client_memory \<Rightarrow> chunk_window \<Rightarrow> bytes \<Rightarrow> delivery_source \<Rightarrow> 'f place_state
    \<Rightarrow> (s3_error + 'h placement) \<times> 'f place_state" where
  "place_window D E cm w b source ps = (case cm of
      Mapped t \<Rightarrow> (case copy_window t w b source ps of
          (Inl e, ps) \<Rightarrow> (Inl e, ps)
        | (Inr bytes, ps) \<Rightarrow> (Inr (Placed \<lparr>pl_bytes = bytes, pl_digest = None, pl_source = source\<rparr>), ps))
    | TokenMemory token checksum \<Rightarrow> write_window D E token checksum w (window_slice w b) source ps)"

text \<open>\<open>.ok().and_then(Placement::placed)\<close>.\<close>

definition placed_ok :: "(s3_error + 'h placement) \<times> 'f place_state \<Rightarrow> 'h placed option \<times> 'f place_state" where
  "placed_ok r = (case r of (Inr (Placed p), ps) \<Rightarrow> (Some p, ps) | (_, ps) \<Rightarrow> (None, ps))"

definition note_peer :: "u64 \<Rightarrow> 'f place_state \<Rightarrow> 'f place_state" where
  "note_peer bytes = node_counts (\<lambda>m. m\<lparr>peer_fetches := peer_fetches m + 1, bytes_from_peers := bytes_from_peers m + bytes\<rparr>)"

definition note_fallback :: "'f place_state \<Rightarrow> 'f place_state" where
  "note_fallback = node_counts (\<lambda>m. m\<lparr>peer_fallbacks := peer_fallbacks m + 1\<rparr>)"

text \<open>What a holder that was offered the window did: it wrote it, or streamed the body, or neither.\<close>

definition settle_remote :: "'h digests \<Rightarrow> ('f, 'e) place_env \<Rightarrow> fill_ctx \<Rightarrow> client_memory \<Rightarrow> chunk_window \<Rightarrow> (u32 option \<Rightarrow> u64 \<Rightarrow> 'h option)
    \<Rightarrow> transport_error + chunk_delivery \<Rightarrow> 'f place_state \<Rightarrow> 'h placed option \<times> 'f place_state" where
  "settle_remote D E ctx cm w digest r ps = (case r of
      Inr (Landed bytes crc tag) \<Rightarrow>
        if \<not> witness_matches ctx tag then (None, ps)
        else (Some \<lparr>pl_bytes = bytes, pl_digest = digest crc bytes, pl_source = SourcePeerRdma\<rparr>, note_chunk SourcePeerRdma bytes (note_peer bytes ps))
    | Inr (Streamed blob) \<Rightarrow>
        if \<not> witness_matches ctx (blob_e_tag blob) then (None, ps)
        else (case collect_blob blob of
            Inr b \<Rightarrow> placed_ok (place_window D E cm w b SourcePeerStream (note_peer (len64 b) ps))
          | Inl _ \<Rightarrow> (None, note_fallback ps))
    | Inl NotCached \<Rightarrow> (None, ps)
    | Inl _ \<Rightarrow> (None, note_fallback ps))"

definition registration_for :: "('f, 'e) place_env \<Rightarrow> 'f place_state \<Rightarrow> bool \<times> 'f place_state" where
  "registration_for E ps = (case ps_registration ps of
      Some r \<Rightarrow> (r, ps)
    | None \<Rightarrow>
        if \<not> pe_efa E then (False, ps\<lparr>ps_registration := Some False\<rparr>)
        else (pe_registers E, measure_with (\<lambda>m. m\<lparr>dm_registrations := dm_registrations m + 1\<rparr>) (ps\<lparr>ps_registration := Some (pe_registers E)\<rparr>)))"

definition rdma_into_client :: "'h digests \<Rightarrow> ('f, 'e) place_env \<Rightarrow> fill_ctx \<Rightarrow> node_id \<Rightarrow> string \<Rightarrow> client_memory \<Rightarrow> chunk_window \<Rightarrow> bool \<Rightarrow> 'f place_state
    \<Rightarrow> 'h placed option \<times> 'f place_state" where
  "rdma_into_client D E ctx source key cm w registered ps =
     (if \<not> registered \<or> \<not> pe_efa E then (None, ps)
      else let (r, written) = pe_fetch_into E source key (dst_at w) (wlen w) (fx_no_fill ctx)
        in settle_remote D E ctx cm w (\<lambda>_ _. None) r (act (WriteAt (dst_at w) written) ps))"

definition rdma_into_client_token :: "'h digests \<Rightarrow> ('f, 'e) place_env \<Rightarrow> fill_ctx \<Rightarrow> node_id \<Rightarrow> string \<Rightarrow> client_memory \<Rightarrow> token_window \<Rightarrow> bool \<Rightarrow> chunk_window
    \<Rightarrow> 'f place_state \<Rightarrow> 'h placed option \<times> 'f place_state" where
  "rdma_into_client_token D E ctx source key cm token checksum w ps =
     (if \<not> pe_efa E then (None, ps)
      else let (r, written) = pe_fetch_into_token E source key token (dst_at w) (wlen w) checksum (fx_no_fill ctx)
        in settle_remote D E ctx cm w (\<lambda>crc bytes. map_option (\<lambda>c. dg_reported D c bytes) crc) r (act (WriteAt (dst_at w) written) ps))"

definition holder_writes_client :: "'h digests \<Rightarrow> ('f, 'e) place_env \<Rightarrow> fill_ctx \<Rightarrow> node_id \<Rightarrow> string \<Rightarrow> client_memory \<Rightarrow> chunk_window \<Rightarrow> 'f place_state
    \<Rightarrow> 'h placed option \<times> 'f place_state" where
  "holder_writes_client D E ctx source key cm w ps = (case cm of
      Mapped _ \<Rightarrow> (let (registered, ps) = registration_for E ps in rdma_into_client D E ctx source key cm w registered ps)
    | TokenMemory token checksum \<Rightarrow> if pe_remote_write E then rdma_into_client_token D E ctx source key cm token checksum w ps else (None, ps))"

text \<open>The sources in the order the read would ask them; a window that is not its whole chunk is never offered to a holder.\<close>

fun peer_sources :: "'h digests \<Rightarrow> ('f, 'e) place_env \<Rightarrow> fill_ctx \<Rightarrow> string \<Rightarrow> chunk_window \<Rightarrow> client_memory \<Rightarrow> node_id list \<Rightarrow> 'f place_state
    \<Rightarrow> 'h placed option \<times> 'f place_state" where
  "peer_sources D E ctx key w cm [] ps = (None, ps)"
| "peer_sources D E ctx key w cm (source # rest) ps =
     (case (if whole w then holder_writes_client D E ctx source key cm w ps else (None, ps)) of
        (Some p, ps) \<Rightarrow> (Some p, ps)
      | (None, ps) \<Rightarrow> (case peer_fetch (pe_around E) source key (fx_no_fill ctx) of
          Inr blob \<Rightarrow>
            if \<not> witness_matches ctx (blob_e_tag blob)
            then peer_sources D E ctx key w cm rest (ps\<lparr>ps_node := spawn_forget_at ctx source key (ps_node ps)\<rparr>)
            else (case collect_blob blob of
                Inr b \<Rightarrow> placed_ok (place_window D E cm w b SourcePeerStream (note_peer (len64 b) ps))
              | Inl _ \<Rightarrow> peer_sources D E ctx key w cm rest (note_fallback ps))
        | Inl NotCached \<Rightarrow> peer_sources D E ctx key w cm rest ps
        | Inl _ \<Rightarrow> peer_sources D E ctx key w cm rest (note_fallback ps)))"

definition deliver_from_peer :: "'h digests \<Rightarrow> ('f, 'e) place_env \<Rightarrow> fill_ctx \<Rightarrow> string \<Rightarrow> chunk_window \<Rightarrow> client_memory \<Rightarrow> 'f place_state
    \<Rightarrow> 'h placed option \<times> 'f place_state" where
  "deliver_from_peer D E ctx key w cm ps = (case fx_cluster ctx of
      None \<Rightarrow> (None, ps)
    | Some cl \<Rightarrow> peer_sources D E ctx key w cm (chunk_sources (ring_hash (pe_around E)) (offset_hash (pe_around E)) cl key) ps)"

definition deliver_window :: "'h digests \<Rightarrow> ('f, 'e) place_env \<Rightarrow> fill_ctx \<Rightarrow> chunk_window \<Rightarrow> client_memory \<Rightarrow> 'f place_state
    \<Rightarrow> (s3_error + 'h placement) \<times> 'f place_state" where
  "deliver_window D E ctx w cm ps =
     (let S = pe_around E; key = chunk_key (fx_chunk ctx) (fx_object_key ctx) (idx w);
          (entry, ps) = at_node (cached_current S ctx key) ps
      in case entry of
           Some c \<Rightarrow> place_window D E cm w (body c) SourceLocal
             (node_counts (\<lambda>m. m\<lparr>cache_hits := cache_hits m + 1, bytes_from_cache := bytes_from_cache m + of_nat (wlen w)\<rparr>) ps)
         | None \<Rightarrow>
             if owns_chunk S ctx key then
               (case at_node (fetch_owned S ctx (idx w) key) ps of
                  (Inl e, ps) \<Rightarrow> (Inl e, ps)
                | (Inr b, ps) \<Rightarrow> place_window D E cm w b SourceBackend ps)
             else (case deliver_from_peer D E ctx key w cm ps of
                 (Some p, ps) \<Rightarrow> (Inr (Placed p), ps)
               | (None, ps) \<Rightarrow> (case at_node (fetch_from_backend S ctx (idx w) key False) ps of
                     (Inl e, ps) \<Rightarrow> (Inl e, ps)
                   | (Inr b, ps) \<Rightarrow> place_window D E cm w b SourceBackend ps)))"

text \<open>An attempt meets the node in a state of its own, since other requests run during the wait before it: \<open>nds\<close>, like \<open>Es\<close>, by attempt.\<close>

fun place_attempts :: "'h digests \<Rightarrow> (nat \<Rightarrow> ('f, 'e) place_env) \<Rightarrow> (nat \<Rightarrow> 'f node) \<Rightarrow> fill_ctx \<Rightarrow> chunk_window \<Rightarrow> client_memory \<Rightarrow> nat \<Rightarrow> nat \<Rightarrow> 'f place_state
    \<Rightarrow> (s3_error + 'h placement) \<times> 'f place_state" where
  "place_attempts D Es nds ctx w cm attempt rest ps =
     (case deliver_window D (Es attempt) ctx w cm (ps\<lparr>ps_node := nds attempt\<rparr>) of
        (Inl e, ps) \<Rightarrow> (Inl e, ps)
      | (Inr (Placed p), ps) \<Rightarrow> (Inr (Placed p), ps)
      | (Inr (Declined d), ps) \<Rightarrow> (case rest of
            0 \<Rightarrow> (Inr (Declined d), ps)
          | Suc n \<Rightarrow> if \<not> dl_transient d then (Inr (Declined d), ps) else place_attempts D Es nds ctx w cm (Suc attempt) n ps))"

declare place_attempts.simps [simp del]

definition place_with_retry :: "'h digests \<Rightarrow> (nat \<Rightarrow> ('f, 'e) place_env) \<Rightarrow> (nat \<Rightarrow> 'f node) \<Rightarrow> fill_ctx \<Rightarrow> chunk_window \<Rightarrow> client_memory \<Rightarrow> 'f place_state
    \<Rightarrow> (s3_error + 'h placement) \<times> 'f place_state" where
  "place_with_retry D Es nds ctx w cm ps = place_attempts D Es nds ctx w cm 1 (DELIVERY_DECLINE_ATTEMPTS - 1) ps"

section \<open>All windows\<close>

text \<open>A digest this node knows, or one to be read back from the window.\<close>

datatype 'h window_digest = NoDigest | Known 'h | ReadBack

record 'h delivered_window =
  dw_dst_at :: nat
  dw_bytes :: u64
  dw_digest :: "'h window_digest"

text \<open>One future of the fan-out. Reading a digest past the window panics on its thread, like a copy.\<close>

definition window_future :: "'h digests \<Rightarrow> (nat \<Rightarrow> ('f, 'e) place_env) \<Rightarrow> (nat \<Rightarrow> 'f node) \<Rightarrow> fill_ctx \<Rightarrow> client_memory \<Rightarrow> bool \<Rightarrow> chunk_window \<Rightarrow> 'f place_state
    \<Rightarrow> (s3_error + 'h delivered_window option) \<times> 'f place_state" where
  "window_future D Es nds ctx cm checksum w ps = (case place_with_retry D Es nds ctx w cm ps of
      (Inl e, ps) \<Rightarrow> (Inl e, ps)
    | (Inr (Declined _), ps) \<Rightarrow> (Inr None, ps)
    | (Inr (Placed p), ps) \<Rightarrow>
        (let result = \<lambda>d. Inr (Some \<lparr>dw_dst_at = dst_at w, dw_bytes = pl_bytes p, dw_digest = d\<rparr>) in
         if \<not> checksum then (result NoDigest, ps)
         else case pl_digest p of
           Some d \<Rightarrow> (result (Known d), ps)
         | None \<Rightarrow> (case cm of
               Mapped t \<Rightarrow>
                 if mt_len t < dst_at w + unat (pl_bytes p) then (Inl (InternalError ''delivery checksum failed''), ps)
                 else (result ReadBack, act (ReadAt (dst_at w) (unat (pl_bytes p))) ps)
             | TokenMemory _ _ \<Rightarrow> (result NoDigest, ps))))"

text \<open>The loop over the futures in the order they complete; it stops at the first failure and at the first window that cannot be placed.\<close>

fun run_delivery :: "(s3_error + 'd option) list \<Rightarrow> s3_error + 'd list option" where
  "run_delivery [] = Inr (Some [])"
| "run_delivery (Inl e # rest) = Inl e"
| "run_delivery (Inr None # rest) = Inr None"
| "run_delivery (Inr (Some d) # rest) = (case run_delivery rest of
      Inl e \<Rightarrow> Inl e
    | Inr None \<Rightarrow> Inr None
    | Inr (Some ds) \<Rightarrow> Inr (Some (d # ds)))"

text \<open>The client's window under an interleaving of the windows' accesses, each tagged with its window; reads are logged.\<close>

definition write_at :: "nat \<Rightarrow> bytes \<Rightarrow> bytes \<Rightarrow> bytes" where
  "write_at pos src m = take pos m @ src @ drop (pos + length src) m"

fun run_acts :: "(nat \<times> mem_act) list \<Rightarrow> bytes \<Rightarrow> bytes \<times> (nat \<Rightarrow> bytes option)" where
  "run_acts [] m = (m, Map.empty)"
| "run_acts ((j, WriteAt pos src) # rest) m = run_acts rest (write_at pos src m)"
| "run_acts ((j, ReadAt pos len) # rest) m = (let (m', log) = run_acts rest m in (m', case log j of None \<Rightarrow> log(j \<mapsto> seg pos (pos + len) m) | Some _ \<Rightarrow> log))"

definition digest_of_window :: "'h digests \<Rightarrow> bytes option \<Rightarrow> 'h window_digest \<Rightarrow> 'h option" where
  "digest_of_window D logged d = (case d of NoDigest \<Rightarrow> None | Known h \<Rightarrow> Some h | ReadBack \<Rightarrow> map_option (dg_of D) logged)"

text \<open>
  The response without a body, whose fields \<open>representation_output_fields\<close> of \<^verbatim>\<open>proxy/read.rs\<close> starts, and the two headers a delivery adds.
\<close>

record get_object_output =
  go_accept_ranges :: "string option"
  go_content_length :: "int option"
  go_content_range :: "string option"
  go_content_type :: "string option"
  go_e_tag :: "string option"
  go_last_modified :: "nat option"
  go_metadata :: "(string \<times> string) list option"
  go_content_encoding :: "string option"
  go_content_disposition :: "string option"
  go_content_language :: "string option"
  go_cache_control :: "string option"
  go_expires :: "nat option"

definition timestamp_from_epoch_secs :: "int \<Rightarrow> nat" where
  "timestamp_from_epoch_secs secs = nat (max secs 0)"

definition representation_output_fields :: "representation_headers \<Rightarrow> get_object_output" where
  "representation_output_fields rep =
     \<lparr>go_accept_ranges = None, go_content_length = None, go_content_range = None, go_content_type = None, go_e_tag = None, go_last_modified = None,
      go_metadata = (if metadata rep \<noteq> [] then Some (metadata rep) else None), go_content_encoding = content_encoding rep,
      go_content_disposition = content_disposition rep, go_content_language = content_language rep, go_cache_control = cache_control rep,
      go_expires = map_option timestamp_from_epoch_secs (expires_epoch_secs rep)\<rparr>"

record delivered_response =
  rs_output :: get_object_output
  rs_delivered :: u64
  rs_checksum :: "string option"

definition header_value :: "'h digests \<Rightarrow> 'h \<Rightarrow> string" where
  "header_value D h = CHECKSUM_ALGORITHM @ ''='' @ concat (map hex_byte (be_bytes 4 (unat (dg_value D h))))"

definition delivered_output :: "object_header \<Rightarrow> u64 \<Rightarrow> u64 \<Rightarrow> bool \<Rightarrow> u64 \<Rightarrow> string option \<Rightarrow> delivered_response" where
  "delivered_output header start stop ranged delivered checksum =
     \<lparr>rs_output = (representation_output_fields (object_header.representation header))\<lparr>go_accept_ranges := Some ''bytes'', go_content_length := Some 0,
        go_content_range := (if ranged then Some (''bytes '' @ decimal (unat start) @ ''-'' @ decimal (unat (stop - 1)) @ ''/'' @ decimal (unat (object_len header))) else None),
        go_content_type := content_type header, go_e_tag := oh_e_tag header,
        go_last_modified := map_option timestamp_from_epoch_secs (last_modified_epoch_secs header)\<rparr>,
      rs_delivered = delivered, rs_checksum = checksum\<rparr>"

text \<open>
  What a run brings to a request: what each window's attempts meet, the order in which the futures complete, and how their accesses interleave.
\<close>

record ('f, 'e) delivery_run =
  dr_env :: "nat \<Rightarrow> nat \<Rightarrow> ('f, 'e) place_env"
  dr_nodes :: "nat \<Rightarrow> nat \<Rightarrow> 'f node"
  dr_start :: "nat \<Rightarrow> 'f place_state"
  dr_order :: "nat list"
  dr_schedule :: "(nat \<times> mem_act) list"

definition future_of :: "'h digests \<Rightarrow> ('f, 'e) delivery_run \<Rightarrow> fill_ctx \<Rightarrow> client_memory \<Rightarrow> bool \<Rightarrow> chunk_window list \<Rightarrow> nat
    \<Rightarrow> (s3_error + 'h delivered_window option) \<times> 'f place_state" where
  "future_of D R ctx cm checksum ws j = window_future D (dr_env R j) (dr_nodes R j) ctx cm checksum (ws ! j) (dr_start R j)"

text \<open>
  The body of \<open>deliver\<close> once the memory is open: the outcome, and the client's window after it. The counters of requests and of bytes delivered are
  not part of the state.
\<close>

definition deliver_into :: "'h digests \<Rightarrow> ('f, 'e) delivery_run \<Rightarrow> fill_ctx \<Rightarrow> client_memory \<Rightarrow> target_spec \<Rightarrow> object_header \<Rightarrow> u64 \<Rightarrow> u64 \<Rightarrow> bool \<Rightarrow> bytes
    \<Rightarrow> (s3_error + delivered_response option) \<times> bytes" where
  "deliver_into D R ctx cm spec header start stop ranged mem =
     (let want = stop - start in
      if window_len cm < unat want then (snd (target_rejected (Unusable (WindowTooSmall want))), mem)
      else let ws = chunk_windows (fx_chunk ctx) (object_len header) start stop;
               (mem', log) = run_acts (dr_schedule R) mem
        in (case run_delivery (map (\<lambda>j. map_sum id (map_option (\<lambda>d. (j, d))) (fst (future_of D R ctx cm (ts_checksum spec) ws j))) (dr_order R)) of
              Inl e \<Rightarrow> Inl e
            | Inr None \<Rightarrow> snd (target_rejected (Unsupported ''client-registered memory (no usable RDMA path to it right now)''))
            | Inr (Some landed) \<Rightarrow>
                (let delivered = sum_list (map (\<lambda>(j, d). dw_bytes d) landed);
                     sorted = sort_key (\<lambda>(j, d). dw_dst_at d) landed;
                     digest = fold (\<lambda>h acc. dg_combine D acc h) (List.map_filter (\<lambda>(j, d). digest_of_window D (log j) (dw_digest d)) sorted) (dg_empty D);
                     checksum = (if ts_checksum spec then Some (header_value D digest) else None)
                 in Inr (Some (delivered_output header start stop ranged delivered checksum))), mem'))"

definition deliver :: "'h digests \<Rightarrow> ('f, 'e) delivery_run \<Rightarrow> bool \<Rightarrow> delivery_config \<Rightarrow> segments \<Rightarrow> (string \<Rightarrow> bool) \<Rightarrow> fill_ctx \<Rightarrow> string \<Rightarrow> object_header \<Rightarrow> u64 \<Rightarrow> u64 \<Rightarrow> bool
    \<Rightarrow> bytes \<Rightarrow> delivery_quota \<Rightarrow> (s3_error + delivered_response option) \<times> bytes \<times> delivery_quota" where
  "deliver D R efa cfg segs mmaps ctx raw header start stop ranged mem q = (case target_parse raw of
      Inl e \<Rightarrow> (snd (target_rejected (Malformed (BadDescriptor e))), mem, q)
    | Inr spec \<Rightarrow> (case open_client_memory efa cfg segs mmaps spec q of
        (Inl e, q) \<Rightarrow> (snd (target_rejected e), mem, q)
      | (Inr cm, q) \<Rightarrow> (let (r, mem) = deliver_into D R ctx cm spec header start stop ranged mem in (r, mem, close_client_memory cm q))))"

end
