(* ===== verification/Delivery_Correct.thy ===== *)
theory Delivery_Correct
  imports Place "HOL-Library.Multiset"
begin

text \<open>
  What a delivery leaves in the client's memory: whatever the peers and the RDMA plane do, nothing outside the requested part of the client's window is
  written; and when the delivery is reported, the window holds exactly the requested bytes and the checksum is theirs, however the windows' work interleaved.
\<close>

section \<open>What is assumed of the outside\<close>

text \<open>A write stays inside the memory it was offered, whether it succeeds or not.\<close>

definition transport_bounded :: "('f, 'e) place_env \<Rightarrow> bool" where
  "transport_bounded E \<longleftrightarrow> (\<forall>tok pos src. length (snd (pe_write_token E tok pos src)) \<le> length src)
     \<and> (\<forall>n k pos len nf. length (snd (pe_fetch_into E n k pos len nf)) \<le> len)
     \<and> (\<forall>n k tok pos len cs nf. length (snd (pe_fetch_into_token E n k tok pos len cs nf)) \<le> len)"

text \<open>A holder that reports the read's version wrote, or streams, that version's chunk.\<close>

definition honest_remote :: "fill_ctx \<Rightarrow> bytes \<Rightarrow> (u32 option \<Rightarrow> bool) \<Rightarrow> (transport_error + chunk_delivery) \<times> bytes \<Rightarrow> bool" where
  "honest_remote ctx cb crc_ok r \<longleftrightarrow> (case fst r of
      Inr (Landed n crc tag) \<Rightarrow> witness_matches ctx tag \<longrightarrow> snd r = cb \<and> n = len64 cb \<and> crc_ok crc
    | Inr (Streamed blob) \<Rightarrow> witness_matches ctx (blob_e_tag blob) \<longrightarrow> (\<forall>b. collect_blob blob = Inr b \<longrightarrow> b = cb)
    | Inl _ \<Rightarrow> True)"

text \<open>A write reported done put the bytes there.\<close>

definition wrote_lands :: "('f, 'e) place_env \<Rightarrow> bool" where
  "wrote_lands E \<longleftrightarrow> (\<forall>tok pos src. fst (pe_write_token E tok pos src) = Inr Wrote \<longrightarrow> snd (pe_write_token E tok pos src) = src)"

definition honest_rdma :: "'h digests \<Rightarrow> ('f, 'e) place_env \<Rightarrow> fill_ctx \<Rightarrow> chunk_window \<Rightarrow> bytes \<Rightarrow> bool" where
  "honest_rdma D E ctx w cb \<longleftrightarrow> (let key = chunk_key (fx_chunk ctx) (fx_object_key ctx) (idx w) in wrote_lands E
     \<and> (\<forall>n. honest_remote ctx cb (\<lambda>_. True) (pe_fetch_into E n key (dst_at w) (wlen w) (fx_no_fill ctx)))
     \<and> (\<forall>n tok cs. honest_remote ctx cb (\<lambda>crc. cs \<longrightarrow> crc = Some (dg_value D (dg_of D cb)))
          (pe_fetch_into_token E n key tok (dst_at w) (wlen w) cs (fx_no_fill ctx))))"

text \<open>What crc32fast documents: digests combine, and one rebuilt from its value and length is the same.\<close>

definition digests_ok :: "'h digests \<Rightarrow> bool" where
  "digests_ok D \<longleftrightarrow> dg_of D [] = dg_empty D \<and> (\<forall>a b. dg_combine D (dg_of D a) (dg_of D b) = dg_of D (a @ b))
     \<and> (\<forall>a. dg_reported D (dg_value D (dg_of D a)) (len64 a) = dg_of D a)"

section \<open>Placing one window\<close>

definition in_window :: "chunk_window \<Rightarrow> mem_act \<Rightarrow> bool" where
  "in_window w x = (case x of WriteAt pos bs \<Rightarrow> pos = dst_at w \<and> length bs \<le> wlen w | ReadAt _ _ \<Rightarrow> False)"

definition digest_fits :: "'h digests \<Rightarrow> client_memory \<Rightarrow> bytes \<Rightarrow> 'h option \<Rightarrow> bool" where
  "digest_fits D cm want d = (case cm of Mapped _ \<Rightarrow> d = None | TokenMemory _ cs \<Rightarrow> cs \<longrightarrow> d = Some (dg_of D want))"

text \<open>
  A step of the placement adds writes inside the window only; when it placed the window and the copies are honest (\<open>h\<close>), the last write is that of the right bytes.
\<close>

definition settled :: "'h digests \<Rightarrow> bool \<Rightarrow> client_memory \<Rightarrow> chunk_window \<Rightarrow> bytes \<Rightarrow> 'f place_state \<Rightarrow> 'h placed option \<times> 'f place_state \<Rightarrow> bool" where
  "settled D h cm w want ps r \<longleftrightarrow> (\<exists>new. ps_acts (snd r) = ps_acts ps @ new \<and> list_all (in_window w) new
     \<and> (\<forall>p. fst r = Some p \<longrightarrow> h \<longrightarrow> new \<noteq> [] \<and> last new = WriteAt (dst_at w) want \<and> pl_bytes p = of_nat (wlen w) \<and> digest_fits D cm want (pl_digest p)))"

lemma settled_none: "settled D h cm w want ps (None, ps') \<longleftrightarrow> (\<exists>new. ps_acts ps' = ps_acts ps @ new \<and> list_all (in_window w) new)"
  by (simp add: settled_def)

lemma settled_same: "ps_acts ps' = ps_acts ps \<Longrightarrow> settled D h cm w want ps (None, ps')"
  by (simp add: settled_none)

lemma settled_after:
  assumes "settled D h cm w want ps (None, ps1)" "settled D h cm w want ps1 r"
  shows "settled D h cm w want ps r"
proof -
  obtain new1 where 1: "ps_acts ps1 = ps_acts ps @ new1" "list_all (in_window w) new1" using assms(1) by (auto simp: settled_none)
  obtain new2 where 2: "ps_acts (snd r) = ps_acts ps1 @ new2" "list_all (in_window w) new2"
      "\<forall>p. fst r = Some p \<longrightarrow> h \<longrightarrow> new2 \<noteq> [] \<and> last new2 = WriteAt (dst_at w) want \<and> pl_bytes p = of_nat (wlen w) \<and> digest_fits D cm want (pl_digest p)"
    using assms(2) by (auto simp: settled_def)
  show ?thesis unfolding settled_def
    by (rule exI [of _ "new1 @ new2"]) (use 1 2 in auto)
qed

lemma acts_simps [simp]:
  "ps_acts (act x ps) = ps_acts ps @ [x]" "ps_acts (measure_with f ps) = ps_acts ps" "ps_acts (node_counts g ps) = ps_acts ps"
  "ps_acts (note_chunk s n ps) = ps_acts ps" "ps_acts (note_peer n ps) = ps_acts ps" "ps_acts (note_fallback ps) = ps_acts ps"
  "ps_acts (snd (at_node k ps)) = ps_acts ps" "fst (at_node k ps) = fst (k (ps_node ps))"
  by (simp_all add: act_def measure_with_def node_counts_def note_chunk_def note_peer_def note_fallback_def at_node_def split: prod.split)

lemma settled_cong: "ps_acts ps = ps_acts ps' \<Longrightarrow> settled D h cm w want ps r = settled D h cm w want ps' r"
  by (simp add: settled_def)

lemma length_window_slice: "length (window_slice w b) \<le> wlen w"
  by (auto simp: window_slice_def)

text \<open>The window's part of its chunk.\<close>

definition slice_fits :: "chunk_window \<Rightarrow> bytes \<Rightarrow> bool" where
  "slice_fits w cb \<longleftrightarrow> src_at w + wlen w \<le> length cb \<and> (whole w \<longleftrightarrow> src_at w = 0 \<and> wlen w = length cb)"

lemma slice_length: "slice_fits w cb \<Longrightarrow> length (window_slice w cb) = wlen w"
  by (simp add: slice_fits_def window_slice_def)

lemma slice_whole: "slice_fits w cb \<Longrightarrow> whole w \<Longrightarrow> window_slice w cb = cb"
  by (simp add: slice_fits_def window_slice_def seg_whole)

lemma place_window_settled:
  assumes "transport_bounded E" and "h \<Longrightarrow> b = cb \<and> wrote_lands E \<and> slice_fits w cb"
  shows "settled D h cm w (window_slice w cb) ps (placed_ok (place_window D E cm w b source ps))"
proof (cases cm)
  case (Mapped t)
  then show ?thesis using assms(2) length_window_slice [of w b] slice_length [of w cb]
    by (auto simp: placed_ok_def place_window_def copy_window_def settled_def in_window_def digest_fits_def Let_def)
next
  case (TokenMemory token cs)
  obtain out written where r: "pe_write_token E token (dst_at w) (window_slice w b) = (out, written)" by fastforce
  have len: "length written \<le> wlen w" using assms(1) r length_window_slice [of w b] unfolding transport_bounded_def by (metis le_trans snd_conv)
  have lands: "h \<Longrightarrow> out = Inr Wrote \<Longrightarrow> written = window_slice w cb" using assms(2) r unfolding wrote_lands_def by (metis fst_conv snd_conv)
  show ?thesis
  proof (cases "pe_efa E")
    case False
    then show ?thesis using TokenMemory by (simp add: placed_ok_def place_window_def write_window_def settled_def)
  next
    case True
    then show ?thesis using TokenMemory r len lands assms(2) slice_length [of w cb]
      by (cases out; cases "projr out") (auto simp: placed_ok_def place_window_def write_window_def settled_def in_window_def digest_fits_def digest_sent_def Let_def)
  qed
qed

text \<open>A holder's answer, after the bytes it put into the window.\<close>

lemma settle_remote_settled:
  assumes "transport_bounded E" "length written \<le> wlen w" "whole w"
    and "h \<Longrightarrow> wrote_lands E \<and> slice_fits w cb \<and> honest_remote ctx cb crc_ok (r, written)"
    and "\<And>crc. h \<Longrightarrow> crc_ok crc \<Longrightarrow> digest_fits D cm cb (digest crc (len64 cb))"
  shows "settled D h cm w (window_slice w cb) ps (settle_remote D E ctx cm w digest r (act (WriteAt (dst_at w) written) ps))"
proof -
  let ?ps = "act (WriteAt (dst_at w) written) ps"
  have in_w: "in_window w (WriteAt (dst_at w) written)" using assms(2) by (simp add: in_window_def)
  have quiet: "settled D h cm w (window_slice w cb) ps (None, ps')" if a: "ps_acts ps' = ps_acts ?ps" for ps'
    using a in_w by (simp add: settled_none)
  show ?thesis
  proof (cases r)
    case (Inl e)
    then show ?thesis using quiet by (cases e) (simp_all add: settle_remote_def)
  next
    case (Inr d)
    show ?thesis
    proof (cases d)
      case (Landed n crc tag)
      have "digest_fits D cm cb (digest crc n)" "written = cb" "n = of_nat (wlen w)" "window_slice w cb = cb" if hw: "h" "witness_matches ctx tag"
        using assms(3) assms(4) [OF hw(1)] assms(5) [OF hw(1), of crc] hw(2) slice_whole [of w cb] slice_length [of w cb] Inr Landed by (auto simp: honest_remote_def)
      then show ?thesis using Inr Landed quiet in_w by (simp add: settle_remote_def settled_def)
    next
      case (Streamed blob)
      show ?thesis
      proof (cases "witness_matches ctx (blob_e_tag blob)")
        case True
        show ?thesis
        proof (cases "collect_blob blob")
          case (Inl e)
          then show ?thesis using Inr Streamed True quiet by (simp add: settle_remote_def)
        next
          case b: (Inr b)
          let ?ps' = "note_peer (len64 b) ?ps"
          have "h \<Longrightarrow> b = cb" using assms(4) Inr Streamed True b by (simp add: honest_remote_def)
          then have "settled D h cm w (window_slice w cb) ?ps' (placed_ok (place_window D E cm w b SourcePeerStream ?ps'))"
            using assms(4) by (intro place_window_settled [OF assms(1)]) simp
          then show ?thesis using settled_after [OF quiet [of ?ps']] Inr Streamed True b by (simp add: settle_remote_def)
        qed
      qed (use Inr Streamed quiet in \<open>simp add: settle_remote_def\<close>)
    qed
  qed
qed

lemma holder_writes_settled:
  assumes "transport_bounded E" "whole w" "key = chunk_key (fx_chunk ctx) (fx_object_key ctx) (idx w)"
    and "h \<Longrightarrow> honest_rdma D E ctx w cb \<and> slice_fits w cb \<and> digests_ok D"
  shows "settled D h cm w (window_slice w cb) ps (holder_writes_client D E ctx source key cm w ps)"
proof (cases cm)
  case (Mapped t)
  obtain registered ps1 where reg: "registration_for E ps = (registered, ps1)" "ps_acts ps1 = ps_acts ps"
    by (cases "ps_registration ps"; cases "pe_efa E") (auto simp: registration_for_def)
  obtain r written where f: "pe_fetch_into E source key (dst_at w) (wlen w) (fx_no_fill ctx) = (r, written)" by fastforce
  have "length written \<le> wlen w" using assms(1) f unfolding transport_bounded_def by (metis snd_conv)
  then have "settled D h cm w (window_slice w cb) ps1 (settle_remote D E ctx cm w (\<lambda>_ _. None) r (act (WriteAt (dst_at w) written) ps1))"
    by (rule settle_remote_settled [OF assms(1) _ assms(2), where crc_ok = "\<lambda>_. True"])
      (use assms(3,4) f Mapped in \<open>auto simp: honest_rdma_def Let_def digest_fits_def dest: spec [of _ source]\<close>)
  then show ?thesis using Mapped reg f settled_cong [OF reg(2), of D h cm w "window_slice w cb"] settled_same [OF reg(2), of D h cm w "window_slice w cb"]
    by (simp add: holder_writes_client_def rdma_into_client_def)
next
  case (TokenMemory token cs)
  obtain r written where f: "pe_fetch_into_token E source key token (dst_at w) (wlen w) cs (fx_no_fill ctx) = (r, written)" by fastforce
  have "length written \<le> wlen w" using assms(1) f unfolding transport_bounded_def by (metis snd_conv)
  then have "settled D h cm w (window_slice w cb) ps (settle_remote D E ctx cm w (\<lambda>crc n. map_option (\<lambda>c. dg_reported D c n) crc) r (act (WriteAt (dst_at w) written) ps))"
  proof (rule settle_remote_settled [OF assms(1) _ assms(2), where crc_ok = "\<lambda>crc. cs \<longrightarrow> crc = Some (dg_value D (dg_of D cb))"])
    show "wrote_lands E \<and> slice_fits w cb \<and> honest_remote ctx cb (\<lambda>crc. cs \<longrightarrow> crc = Some (dg_value D (dg_of D cb))) (r, written)" if h
      using assms(3) assms(4) [OF that] f unfolding honest_rdma_def Let_def by metis
    show "digest_fits D cm cb (map_option (\<lambda>c. dg_reported D c (len64 cb)) crc)" if "h" "cs \<longrightarrow> crc = Some (dg_value D (dg_of D cb))" for crc
      using assms(4) [OF that(1)] that(2) TokenMemory by (simp add: digest_fits_def digests_ok_def)
  qed
  then show ?thesis using TokenMemory f settled_same [of ps ps D h cm w "window_slice w cb"] by (simp add: holder_writes_client_def rdma_into_client_token_def)
qed

lemma peer_sources_settled:
  assumes "transport_bounded E" "key = chunk_key (fx_chunk ctx) (fx_object_key ctx) (idx w)"
    and "h \<Longrightarrow> honest_rdma D E ctx w cb \<and> slice_fits w cb \<and> digests_ok D \<and> honest_peers (pe_around E) ctx key cb"
  shows "settled D h cm w (window_slice w cb) ps (peer_sources D E ctx key w cm ns ps)"
proof (induction ns arbitrary: ps)
  case Nil
  show ?case by (simp add: settled_same)
next
  case (Cons source rest)
  let ?S = "settled D h cm w (window_slice w cb)"
  define first where "first = (if whole w then holder_writes_client D E ctx source key cm w ps else (None, ps))"
  have "?S ps (holder_writes_client D E ctx source key cm w ps)" if wh: "whole w"
    by (rule holder_writes_settled [OF assms(1) wh assms(2)]) (use assms(3) in blast)
  then have 1: "?S ps first" by (simp add: first_def settled_same)
  obtain o1 ps1 where f: "first = (o1, ps1)" by fastforce
  show ?case
  proof (cases o1)
    case (Some p)
    then show ?thesis using 1 f by (simp add: first_def [symmetric])
  next
    case None
    then have 2: "?S ps (None, ps1)" using 1 f by simp
    have go: "?S ps (peer_sources D E ctx key w cm rest ps2)" if a: "ps_acts ps2 = ps_acts ps1" for ps2
      using settled_after [OF 2] Cons.IH [of ps2] settled_cong [OF a, of D h cm w "window_slice w cb"] by simp
    note step = f None first_def [symmetric]
    show ?thesis
    proof (cases "peer_fetch (pe_around E) source key (fx_no_fill ctx)")
      case (Inl e)
      then show ?thesis using step go by (cases e) simp_all
    next
      case (Inr blob)
      show ?thesis
      proof (cases "witness_matches ctx (blob_e_tag blob)")
        case False
        then show ?thesis using step Inr go by simp
      next
        case True
        show ?thesis
        proof (cases "collect_blob blob")
          case (Inl e)
          then show ?thesis using step Inr True go by simp
        next
          case b: (Inr b)
          let ?ps2 = "note_peer (len64 b) ps1"
          have "h \<Longrightarrow> b = cb" using assms(3) Inr True b unfolding honest_peers_def by blast
          then have "?S ?ps2 (placed_ok (place_window D E cm w b SourcePeerStream ?ps2))"
            using assms(3) by (intro place_window_settled [OF assms(1)]) (simp add: honest_rdma_def Let_def)
          then show ?thesis using settled_after [OF 2] settled_cong [of ps1 ?ps2 D h cm w "window_slice w cb"] step Inr True b by simp
        qed
      qed
    qed
  qed
qed

definition honest_place :: "'h digests \<Rightarrow> ('f, 'e) place_env \<Rightarrow> fill_ctx \<Rightarrow> ('f \<Rightarrow> string \<Rightarrow> cache_value option) \<Rightarrow> 'f node \<Rightarrow> bytes \<Rightarrow> chunk_window \<Rightarrow> bool" where
  "honest_place D E ctx held nd obj w \<longleftrightarrow> serves_version (\<lambda>_. pe_around E) ctx held (\<lambda>_. nd) obj (idx w)
     \<and> honest_rdma D E ctx w (chunk_bytes (fx_chunk ctx) obj (idx w))"

lemma deliver_window_settled:
  fixes E :: "('f, 'e) place_env"
  assumes "transport_bounded E" and "h \<Longrightarrow> honest_place D E ctx held (ps_node ps) obj w \<and> fx_object_len ctx = of_nat (length obj) \<and> digests_ok D
      \<and> slice_fits w (chunk_bytes (fx_chunk ctx) obj (idx w))"
  shows "settled D h cm w (window_slice w (chunk_bytes (fx_chunk ctx) obj (idx w))) ps (placed_ok (deliver_window D E ctx w cm ps))"
proof -
  let ?S = "pe_around E" and ?key = "chunk_key (fx_chunk ctx) (fx_object_key ctx) (idx w)" and ?cb = "chunk_bytes (fx_chunk ctx) obj (idx w)"
  let ?ok = "settled D h cm w (window_slice w ?cb)"
  have place: "?ok ps (placed_ok (place_window D E cm w b source ps2))" if b: "h \<Longrightarrow> b = ?cb" and a: "ps_acts ps2 = ps_acts ps" for b source and ps2 :: "'f place_state"
    using place_window_settled [OF assms(1), of h b ?cb w D cm ps2 source] assms(2) b settled_cong [OF a, of D h cm w "window_slice w ?cb"]
    by (simp add: honest_place_def honest_rdma_def Let_def)
  obtain entry ps1 where c: "at_node (cached_current ?S ctx ?key) ps = (entry, ps1)" by fastforce
  have a1: "ps_acts ps1 = ps_acts ps" "nd_fills (ps_node ps1) = nd_fills (ps_node ps)" "fst (cached_current ?S ctx ?key (ps_node ps)) = entry"
    using c by (auto simp: at_node_def split: prod.splits) (metis fills_cached_current snd_conv)
  have backend: "h \<Longrightarrow> backend_result ?S ctx (idx w) = Inr b \<Longrightarrow> b = ?cb" for b
    using assms(2) backend_result_exact by (auto simp: honest_place_def serves_version_def)
  show ?thesis
  proof (cases entry)
    case (Some x)
    have "h \<Longrightarrow> body x = ?cb"
      using cached_current_answer [of ?S ctx ?key "ps_node ps" x] a1(3) Some assms(2) tier_get_answer [of "body_crc ?S" "foyer_api ?S" held _ "nd_tier (ps_node ps)" "get_env ?S" ?key x]
      by (auto simp: honest_place_def serves_version_def node_honest_def honest_tier_def tier_get_def tier_answer_def)
    then show ?thesis using Some c a1(1) place by (simp add: deliver_window_def Let_def)
  next
    case None
    show ?thesis
    proof (cases "owns_chunk ?S ctx ?key")
      case True
      obtain r ps2 where f: "at_node (fetch_owned ?S ctx (idx w) ?key) ps1 = (r, ps2)" by fastforce
      have a2: "ps_acts ps2 = ps_acts ps" "r = fst (fetch_owned ?S ctx (idx w) ?key (ps_node ps1))"
        using f a1(1) by (auto simp: at_node_def split: prod.splits)
      show ?thesis
      proof (cases r)
        case (Inl e)
        then show ?thesis using None c True f a2(1) by (simp add: deliver_window_def Let_def placed_ok_def settled_same)
      next
        case (Inr b)
        have "h \<Longrightarrow> b = ?cb"
          using fst_fetch_owned [of ?S ctx "idx w" ?key "ps_node ps1"] a2(2) Inr backend [of b] assms(2) a1(2)
          by (auto simp: honest_place_def serves_version_def node_honest_def honest_flight_def)
        then show ?thesis using None c True f Inr a2(1) place by (simp add: deliver_window_def Let_def)
      qed
    next
      case False
      obtain d ps2 where d: "deliver_from_peer D E ctx ?key w cm ps1 = (d, ps2)" by fastforce
      have "?ok ps1 (d, ps2)" unfolding d [symmetric] deliver_from_peer_def
        using assms(2) by (auto simp: settled_same honest_place_def serves_version_def node_honest_def split: option.split intro!: peer_sources_settled [OF assms(1) refl])
      then have ok: "?ok ps (d, ps2)" using settled_cong [OF a1(1), of D h cm w "window_slice w ?cb"] by simp
      show ?thesis
      proof (cases d)
        case (Some p)
        then show ?thesis using ok None c False d by (simp add: deliver_window_def Let_def placed_ok_def)
      next
        case dn: None
        obtain r ps3 where f: "at_node (fetch_from_backend ?S ctx (idx w) ?key False) ps2 = (r, ps3)" by fastforce
        have a3: "ps_acts ps3 = ps_acts ps2" "r = backend_result ?S ctx (idx w)"
          using f fst_fetch_from_backend [of ?S ctx "idx w" ?key False "ps_node ps2"] by (auto simp: at_node_def split: prod.splits)
        have q: "?ok ps (None, ps3)" using ok dn a3(1) by (simp add: settled_none)
        show ?thesis
        proof (cases r)
          case (Inl e)
          then show ?thesis using q None c False d dn f by (simp add: deliver_window_def Let_def placed_ok_def)
        next
          case (Inr b)
          have "?ok ps3 (placed_ok (place_window D E cm w b SourceBackend ps3))"
            using assms(2) backend [of b] a3(2) Inr by (intro place_window_settled [OF assms(1)]) (simp add: honest_place_def honest_rdma_def Let_def)
          then show ?thesis using settled_after [OF q] None c False d dn f Inr by (simp add: deliver_window_def Let_def)
        qed
      qed
    qed
  qed
qed

lemma place_attempts_settled:
  assumes "\<And>k. transport_bounded (Es k)" and "\<And>k. h \<Longrightarrow> honest_place D (Es k) ctx held (nds k) obj w"
    and "h \<Longrightarrow> fx_object_len ctx = of_nat (length obj) \<and> digests_ok D \<and> slice_fits w (chunk_bytes (fx_chunk ctx) obj (idx w))"
  shows "settled D h cm w (window_slice w (chunk_bytes (fx_chunk ctx) obj (idx w))) ps (placed_ok (place_attempts D Es nds ctx w cm attempt rest ps))"
proof (induction rest arbitrary: attempt ps)
  case 0
  let ?ps = "ps\<lparr>ps_node := nds attempt\<rparr>"
  have "settled D h cm w (window_slice w (chunk_bytes (fx_chunk ctx) obj (idx w))) ?ps (placed_ok (deliver_window D (Es attempt) ctx w cm ?ps))"
    by (rule deliver_window_settled [OF assms(1), of h D attempt ctx held ?ps]) (use assms(2,3) in simp)
  then show ?case by (subst place_attempts.simps) (auto simp: placed_ok_def settled_def split: prod.split sum.split placement.split)
next
  case (Suc n)
  let ?ok = "settled D h cm w (window_slice w (chunk_bytes (fx_chunk ctx) obj (idx w)))" and ?ps = "ps\<lparr>ps_node := nds attempt\<rparr>"
  obtain r ps1 where r: "deliver_window D (Es attempt) ctx w cm ?ps = (r, ps1)" by fastforce
  have "?ok ?ps (placed_ok (deliver_window D (Es attempt) ctx w cm ?ps))"
    by (rule deliver_window_settled [OF assms(1), of h D attempt ctx held ?ps]) (use assms(2,3) in simp)
  then have 1: "?ok ps (placed_ok (r, ps1))" using settled_cong [of ?ps ps D h cm w] r by simp
  show ?case
  proof (cases "\<exists>d. r = Inr (Declined d) \<and> dl_transient d")
    case True
    then obtain d where d: "r = Inr (Declined d)" "dl_transient d" by blast
    then have "?ok ps (None, ps1)" using 1 by (simp add: placed_ok_def)
    from settled_after [OF this Suc.IH] show ?thesis using r d by (subst place_attempts.simps) simp
  next
    case False
    then have "place_attempts D Es nds ctx w cm attempt (Suc n) ps = (r, ps1)"
      using r by (subst place_attempts.simps) (auto split: sum.split placement.split)
    then show ?thesis using 1 by simp
  qed
qed

text \<open>The accesses of one future, and what it reports when the window is placed.\<close>

definition touches :: "chunk_window \<Rightarrow> mem_act \<Rightarrow> bool" where
  "touches w x \<longleftrightarrow> in_window w x \<or> (\<exists>n. x = ReadAt (dst_at w) n)"

definition future_ok :: "'h digests \<Rightarrow> bool \<Rightarrow> chunk_window \<Rightarrow> bytes \<Rightarrow> mem_act list \<Rightarrow> 'h delivered_window \<Rightarrow> bool" where
  "future_ok D checksum w want acts d \<longleftrightarrow> dw_dst_at d = dst_at w \<and> dw_bytes d = of_nat (wlen w) \<and> (\<exists>pre. list_all (in_window w) pre
     \<and> (acts = pre @ [WriteAt (dst_at w) want] \<and> dw_digest d = (if checksum then Known (dg_of D want) else NoDigest)
        \<or> acts = pre @ [WriteAt (dst_at w) want, ReadAt (dst_at w) (wlen w)] \<and> checksum \<and> dw_digest d = ReadBack))"

definition checksum_agrees :: "client_memory \<Rightarrow> bool \<Rightarrow> bool" where
  "checksum_agrees cm checksum = (case cm of Mapped _ \<Rightarrow> True | TokenMemory _ cs \<Rightarrow> cs = checksum)"

lemma window_future_acts:
  assumes "\<And>k. transport_bounded (Es k)" and "\<And>k. h \<Longrightarrow> honest_place D (Es k) ctx held (nds k) obj w"
    and "h \<Longrightarrow> fx_object_len ctx = of_nat (length obj) \<and> digests_ok D \<and> slice_fits w (chunk_bytes (fx_chunk ctx) obj (idx w))"
    and "ps_acts ps = []" "wlen w < 2 ^ 64" "checksum_agrees cm checksum" "window_future D Es nds ctx cm checksum w ps = (r, ps')"
  shows "list_all (touches w) (ps_acts ps')"
    and "h \<Longrightarrow> r = Inr (Some d) \<Longrightarrow> future_ok D checksum w (window_slice w (chunk_bytes (fx_chunk ctx) obj (idx w))) (ps_acts ps') d"
proof -
  let ?want = "window_slice w (chunk_bytes (fx_chunk ctx) obj (idx w))"
  obtain o1 ps1 where p: "place_with_retry D Es nds ctx w cm ps = (o1, ps1)" by fastforce
  have "settled D h cm w ?want ps (placed_ok (place_with_retry D Es nds ctx w cm ps))"
    unfolding place_with_retry_def by (rule place_attempts_settled) (use assms(1-3) in auto)
  then have "settled D h cm w ?want ps (placed_ok (o1, ps1))" unfolding p .
  then have acts: "list_all (in_window w) (ps_acts ps1)"
    and ok: "\<And>p. o1 = Inr (Placed p) \<Longrightarrow> h \<Longrightarrow> ps_acts ps1 \<noteq> [] \<and> last (ps_acts ps1) = WriteAt (dst_at w) ?want \<and> pl_bytes p = of_nat (wlen w)
        \<and> digest_fits D cm ?want (pl_digest p)"
    using assms(4) by (cases o1; auto simp: settled_def placed_ok_def split: placement.splits)+
  have t: "list_all (touches w) (ps_acts ps1)" using acts by (simp add: list_all_iff touches_def)
  show "list_all (touches w) (ps_acts ps')"
    using assms(7) p t by (auto simp: window_future_def Let_def touches_def split: sum.splits placement.splits if_splits option.splits client_memory.splits)
  assume h: h and r: "r = Inr (Some d)"
  then obtain q where q: "o1 = Inr (Placed q)" using assms(7) p by (cases o1; cases "projr o1") (auto simp: window_future_def)
  note o = ok [OF q h]
  define pre where "pre = butlast (ps_acts ps1)"
  have pre: "ps_acts ps1 = pre @ [WriteAt (dst_at w) ?want]" using o append_butlast_last_id unfolding pre_def by metis
  then have lp: "list_all (in_window w) pre" using acts by simp
  have "unat (of_nat (wlen w) :: u64) = wlen w" using assms(5) by (simp add: unat_of_nat)
  then show "future_ok D checksum w ?want (ps_acts ps') d"
    using assms(6,7) p q r o pre lp unfolding future_ok_def
    by (intro conjI exI [of _ pre]) (auto simp: window_future_def Let_def digest_fits_def checksum_agrees_def split: if_splits option.splits client_memory.splits)
qed

section \<open>Interleaved accesses\<close>

fun clear_of :: "nat \<Rightarrow> nat \<Rightarrow> mem_act \<Rightarrow> bool" where
  "clear_of a b (WriteAt pos src) = (pos + length src \<le> a \<or> b \<le> pos)"
| "clear_of a b (ReadAt _ _) = True"

fun act_within :: "nat \<Rightarrow> mem_act \<Rightarrow> bool" where
  "act_within n (WriteAt pos src) = (pos + length src \<le> n)"
| "act_within n (ReadAt _ _) = True"

definition agree :: "nat \<Rightarrow> nat \<Rightarrow> bytes \<Rightarrow> bytes \<Rightarrow> bool" where
  "agree a b m m' \<longleftrightarrow> length m = length m' \<and> (\<forall>i. a \<le> i \<longrightarrow> i < b \<longrightarrow> i < length m \<longrightarrow> m ! i = m' ! i)"

lemma length_write_at [simp]: "pos + length src \<le> length m \<Longrightarrow> length (write_at pos src m) = length m"
  by (simp add: write_at_def)

lemma write_at_nth:
  "pos + length src \<le> length m \<Longrightarrow> i < length m \<Longrightarrow> write_at pos src m ! i = (if pos \<le> i \<and> i < pos + length src then src ! (i - pos) else m ! i)"
  by (auto simp: write_at_def nth_append min_def not_le)

lemma agree_seg:
  assumes "agree a b m m'" "a \<le> c" "d \<le> b"
  shows "seg c d m = seg c d m'"
  using assms by (intro nth_equalityI) (auto simp: agree_def seg_def)

lemma agree_write: "agree a b m m' \<Longrightarrow> pos + length src \<le> length m \<Longrightarrow> agree a b (write_at pos src m) (write_at pos src m')"
  by (auto simp: agree_def write_at_nth)

lemma agree_clear: "agree a b m m' \<Longrightarrow> pos + length src \<le> length m \<Longrightarrow> clear_of a b (WriteAt pos src) \<Longrightarrow> agree a b (write_at pos src m) m'"
  by (auto simp: agree_def write_at_nth)

text \<open>A part of the memory that only window \<open>j\<close> writes is what \<open>j\<close> alone makes of it, and \<open>j\<close> reads there what it wrote.\<close>

lemma run_acts_part:
  assumes "list_all (\<lambda>(i, x). act_within (length m) x \<and> (i \<noteq> j \<longrightarrow> clear_of a b x) \<and> (i = j \<longrightarrow> (\<forall>pos n. x = ReadAt pos n \<longrightarrow> a \<le> pos \<and> pos + n \<le> b))) sched"
    and "agree a b m m'"
  defines "own \<equiv> filter (\<lambda>y. fst y = j) sched"
  shows "agree a b (fst (run_acts sched m)) (fst (run_acts own m')) \<and> snd (run_acts sched m) j = snd (run_acts own m') j"
  using assms(1,2) unfolding own_def
proof (induction sched arbitrary: m m')
  case (Cons y sched)
  obtain i x where y: "y = (i, x)" by fastforce
  show ?case
  proof (cases x)
    case (WriteAt pos src)
    have b: "pos + length src \<le> length m" "i \<noteq> j \<Longrightarrow> clear_of a b x" using Cons.prems(1) y WriteAt by simp_all
    show ?thesis
    proof (cases "i = j")
      case True
      have "agree a b (write_at pos src m) (write_at pos src m')" using Cons.prems(2) b(1) by (rule agree_write)
      then show ?thesis using Cons.IH [of "write_at pos src m" "write_at pos src m'"] Cons.prems(1) b y WriteAt True by simp
    next
      case False
      have "agree a b (write_at pos src m) m'" using Cons.prems(2) b False WriteAt by (intro agree_clear) auto
      then show ?thesis using Cons.IH [of "write_at pos src m" m'] Cons.prems(1) b y WriteAt False by simp
    qed
  next
    case (ReadAt pos n)
    note ih = Cons.IH [of m m']
    have tail: "agree a b (fst (run_acts sched m)) (fst (run_acts (filter (\<lambda>y. fst y = j) sched) m')) \<and> snd (run_acts sched m) j = snd (run_acts (filter (\<lambda>y. fst y = j) sched) m') j"
      using ih Cons.prems by simp
    have "i = j \<Longrightarrow> seg pos (pos + n) m = seg pos (pos + n) m'" using agree_seg [OF Cons.prems(2)] Cons.prems(1) y ReadAt by simp
    then show ?thesis using tail y ReadAt by (auto simp: case_prod_beta Let_def split: option.splits)
  qed
qed simp

lemma run_acts_tag: "fst (run_acts (map (Pair j) (xs @ ys)) m) = fst (run_acts (map (Pair j) ys) (fst (run_acts (map (Pair j) xs) m)))"
proof (induction xs arbitrary: m)
  case (Cons x xs)
  then show ?case by (cases x) (simp_all add: case_prod_beta Let_def)
qed simp

lemma length_run_acts: "list_all (\<lambda>(i, x). act_within (length m) x) sched \<Longrightarrow> length (fst (run_acts sched m)) = length m"
proof (induction sched arbitrary: m)
  case (Cons y sched)
  then show ?case by (cases y; cases "snd y") (auto simp: case_prod_beta Let_def)
qed simp

lemma in_window_within: "in_window w x \<Longrightarrow> dst_at w + wlen w \<le> n \<Longrightarrow> act_within n x"
  by (cases x) (simp_all add: in_window_def)

lemma pre_length:
  assumes "list_all (in_window w) pre" "dst_at w + wlen w \<le> length m"
  shows "length (fst (run_acts (map (Pair j) pre) m)) = length m"
  using assms in_window_within by (intro length_run_acts) (simp add: list_all_iff, blast)

lemma seg_write_at: "pos + length src \<le> length m \<Longrightarrow> seg pos (pos + length src) (write_at pos src m) = src"
  by (simp add: seg_def write_at_def)

text \<open>A window that reports itself placed holds its bytes, and its digest is theirs.\<close>

lemma own_result:
  assumes "future_ok D cs w want acts d" "length want = wlen w" "dst_at w + wlen w \<le> length m"
  shows "seg (dst_at w) (dst_at w + wlen w) (fst (run_acts (map (Pair j) acts) m)) = want"
    and "digest_of_window D (snd (run_acts (map (Pair j) acts) m) j) (dw_digest d) = (if cs then Some (dg_of D want) else None)"
proof -
  obtain pre where pre: "list_all (in_window w) pre"
    and acts: "acts = pre @ [WriteAt (dst_at w) want] \<and> dw_digest d = (if cs then Known (dg_of D want) else NoDigest)
        \<or> acts = pre @ [WriteAt (dst_at w) want, ReadAt (dst_at w) (wlen w)] \<and> cs \<and> dw_digest d = ReadBack"
    using assms(1) by (auto simp: future_ok_def)
  let ?m = "fst (run_acts (map (Pair j) pre) m)"
  have s: "seg (dst_at w) (dst_at w + wlen w) (write_at (dst_at w) want ?m) = want"
    using seg_write_at [of "dst_at w" want ?m] pre_length [OF pre assms(3), of j] assms(2,3) by simp
  show "seg (dst_at w) (dst_at w + wlen w) (fst (run_acts (map (Pair j) acts) m)) = want"
    using acts s by (elim disjE conjE) (simp_all only: run_acts_tag, simp_all)
  have log: "snd (run_acts (map (Pair j) (pre @ [WriteAt (dst_at w) want, ReadAt (dst_at w) (wlen w)])) m) j = Some want"
    using pre s
  proof (induction pre arbitrary: m)
    case (Cons x pre)
    then show ?case by (cases x) (simp_all add: in_window_def)
  qed simp
  show "digest_of_window D (snd (run_acts (map (Pair j) acts) m) j) (dw_digest d) = (if cs then Some (dg_of D want) else None)"
    using acts by (elim disjE conjE) (simp_all only: log, simp_all add: digest_of_window_def)
qed

section \<open>The windows of a request\<close>

definition layout_ok :: "chunk_window list \<Rightarrow> bool" where
  "layout_ok ws \<longleftrightarrow> (\<forall>j < length ws. dst_at (ws ! j) = sum_list (map wlen (take j ws)))"

lemma layout_prefix: "j < length ws \<Longrightarrow> sum_list (map wlen (take (Suc j) ws)) = sum_list (map wlen (take j ws)) + wlen (ws ! j)"
  by (simp add: take_Suc_conv_app_nth)

lemma layout_mono: "i \<le> j \<Longrightarrow> sum_list (map wlen (take i ws)) \<le> sum_list (map wlen (take j ws))"
  using take_add [of i "j - i" ws] by simp

lemma layout_apart:
  assumes "layout_ok ws" "i < j" "j < length ws"
  shows "dst_at (ws ! i) + wlen (ws ! i) \<le> dst_at (ws ! j)"
  using assms layout_prefix [of i ws] layout_mono [of "Suc i" j ws] by (simp add: layout_ok_def)

lemma layout_end:
  assumes "layout_ok ws" "j < length ws"
  shows "dst_at (ws ! j) + wlen (ws ! j) \<le> sum_list (map wlen ws)"
  using assms layout_prefix [of j ws] layout_mono [of "Suc j" "length ws" ws] by (simp add: layout_ok_def)

text \<open>Windows that hold their bytes, laid out one after another, hold the concatenation.\<close>

lemma layout_concat:
  assumes "layout_ok ws" "\<forall>j < length ws. seg (dst_at (ws ! j)) (dst_at (ws ! j) + wlen (ws ! j)) m = f (ws ! j)" "n \<le> length ws"
  shows "seg 0 (sum_list (map wlen (take n ws))) m = concat (map f (take n ws))"
  using assms(3)
proof (induction n)
  case (Suc n)
  then have n: "n < length ws" by simp
  have "seg 0 (sum_list (map wlen (take (Suc n) ws))) m = seg 0 (sum_list (map wlen (take n ws))) m @ seg (dst_at (ws ! n)) (dst_at (ws ! n) + wlen (ws ! n)) m"
    using assms(1) n layout_prefix [OF n] seg_append [of 0 "sum_list (map wlen (take n ws))" "sum_list (map wlen (take (Suc n) ws))" m] by (simp add: layout_ok_def)
  then show ?case using Suc n assms(2) by (simp add: take_Suc_conv_app_nth)
qed simp

section \<open>Runs\<close>

definition own_acts :: "('f, 'e) delivery_run \<Rightarrow> nat \<Rightarrow> mem_act list" where
  "own_acts R j = map snd (filter (\<lambda>y. fst y = j) (dr_schedule R))"

definition acts_of :: "'h digests \<Rightarrow> ('f, 'e) delivery_run \<Rightarrow> fill_ctx \<Rightarrow> client_memory \<Rightarrow> bool \<Rightarrow> chunk_window list \<Rightarrow> nat \<Rightarrow> mem_act list" where
  "acts_of D R ctx cm cs ws j = (if j < length ws then ps_acts (snd (future_of D R ctx cm cs ws j)) else [])"

text \<open>
  Any interleaving of what the windows did so far; a run that reports a delivery has polled every future to its end.
\<close>

definition run_partial :: "'h digests \<Rightarrow> ('f, 'e) delivery_run \<Rightarrow> fill_ctx \<Rightarrow> client_memory \<Rightarrow> bool \<Rightarrow> chunk_window list \<Rightarrow> bool" where
  "run_partial D R ctx cm cs ws \<longleftrightarrow> (\<forall>j. ps_acts (dr_start R j) = []) \<and> (\<forall>j k. transport_bounded (dr_env R j k))
     \<and> (\<forall>j. \<exists>later. acts_of D R ctx cm cs ws j = own_acts R j @ later)"

definition run_complete :: "'h digests \<Rightarrow> ('f, 'e) delivery_run \<Rightarrow> fill_ctx \<Rightarrow> client_memory \<Rightarrow> bool \<Rightarrow> chunk_window list \<Rightarrow> bool" where
  "run_complete D R ctx cm cs ws \<longleftrightarrow> (\<forall>j. ps_acts (dr_start R j) = []) \<and> (\<forall>j k. transport_bounded (dr_env R j k))
     \<and> (\<forall>j. acts_of D R ctx cm cs ws j = own_acts R j) \<and> distinct (dr_order R) \<and> set (dr_order R) = {..<length ws}"

lemma run_complete_partial: "run_complete D R ctx cm cs ws \<Longrightarrow> run_partial D R ctx cm cs ws"
  by (simp add: run_complete_def run_partial_def)

lemma request_windows:
  assumes "readable cfg obj start stop"
  defines "ws \<equiv> chunk_windows cfg (of_nat (length obj)) start stop"
  shows "layout_ok ws" "sum_list (map wlen ws) = unat (stop - start)" "w \<in> set ws \<Longrightarrow> slice_fits w (chunk_bytes cfg obj (idx w))"
    and "concat (map (\<lambda>w. window_slice w (chunk_bytes cfg obj (idx w))) ws) = seg (unat start) (unat stop) obj" "w \<in> set ws \<Longrightarrow> wlen w < 2 ^ 64"
    and "\<forall>w \<in> set ws. 0 < wlen w"
proof -
  note t = chunk_windows_tile [OF assms(1), folded ws_def, unfolded Let_def]
  show "layout_ok ws" using t by (simp add: layout_ok_def)
  show "\<forall>w \<in> set ws. 0 < wlen w" using t by simp
  show fits: "w \<in> set ws \<Longrightarrow> slice_fits w (chunk_bytes cfg obj (idx w))" for w using t by (simp add: slice_fits_def)
  have slice: "w \<in> set ws \<Longrightarrow> window_slice w (chunk_bytes cfg obj (idx w)) = seg (src_at w) (src_at w + wlen w) (chunk_bytes cfg obj (idx w))" for w
    using fits [of w] by (simp add: slice_fits_def window_slice_def)
  show c: "concat (map (\<lambda>w. window_slice w (chunk_bytes cfg obj (idx w))) ws) = seg (unat start) (unat stop) obj"
    using t slice by (metis (no_types, lifting) map_eq_conv)
  have "map (\<lambda>w. length (window_slice w (chunk_bytes cfg obj (idx w)))) ws = map wlen ws" using slice_length [OF fits] by simp
  then have "sum_list (map wlen ws) = length (seg (unat start) (unat stop) obj)" using c by (metis (no_types, lifting) length_concat map_map comp_apply map_eq_conv)
  also have "\<dots> = unat (stop - start)" using readable_facts(3,4) [OF assms(1)] by (simp add: unat_sub word_le_nat_alt min_absorb2)
  finally show s: "sum_list (map wlen ws) = unat (stop - start)" .
  show "w \<in> set ws \<Longrightarrow> wlen w < 2 ^ 64" using member_le_sum_list [of "wlen w" "map wlen ws"] unat_bound [of "stop - start"] s by simp
qed

lemma schedule_touches:
  assumes "readable cfg obj start stop" "run_partial D R ctx cm cs ws" "ws = chunk_windows cfg (of_nat (length obj)) start stop" "checksum_agrees cm cs"
    and "(j, x) \<in> set (dr_schedule R)"
  shows "j < length ws" "touches (ws ! j) x"
proof -
  obtain later where l: "acts_of D R ctx cm cs ws j = own_acts R j @ later" using assms(2) unfolding run_partial_def by blast
  have "x \<in> set (own_acts R j)" using assms(5) by (force simp: own_acts_def)
  then have x: "x \<in> set (acts_of D R ctx cm cs ws j)" by (simp add: l)
  then show j: "j < length ws" by (auto simp: acts_of_def split: if_splits)
  obtain r ps' where f: "future_of D R ctx cm cs ws j = (r, ps')" by fastforce
  have "list_all (touches (ws ! j)) (ps_acts ps')"
  proof (rule window_future_acts(1) [where h = False])
    show "window_future D (dr_env R j) (dr_nodes R j) ctx cm cs (ws ! j) (dr_start R j) = (r, ps')" using f by (simp add: future_of_def)
    show "wlen (ws ! j) < 2 ^ 64" using request_windows(5) [OF assms(1)] j assms(3) by simp
  qed (use assms(2,4) in \<open>simp_all add: run_partial_def\<close>)
  then show "touches (ws ! j) x" using x j f by (simp add: acts_of_def list_all_iff)
qed

lemma touches_clear:
  assumes "layout_ok ws" "i < length ws" "j < length ws" "i \<noteq> j" "touches (ws ! i) x"
  shows "clear_of (dst_at (ws ! j)) (dst_at (ws ! j) + wlen (ws ! j)) x"
proof (cases "i < j")
  case True
  then show ?thesis using assms(5) layout_apart [OF assms(1) True assms(3)] by (cases x) (auto simp: touches_def in_window_def)
next
  case False
  then have "j < i" using assms(4) by simp
  then show ?thesis using assms(5) layout_apart [OF assms(1) _ assms(2)] by (cases x) (auto simp: touches_def in_window_def)
qed

lemma touches_within: "touches w x \<Longrightarrow> dst_at w + wlen w \<le> n \<Longrightarrow> act_within n x"
  by (cases x) (auto simp: touches_def in_window_def)

text \<open>Whatever happens, nothing past the requested bytes is touched.\<close>

lemma run_keeps_rest:
  assumes "readable cfg obj start stop" "run_partial D R ctx cm cs ws" "ws = chunk_windows cfg (of_nat (length obj)) start stop" "checksum_agrees cm cs"
    and "unat (stop - start) \<le> length mem"
  shows "length (fst (run_acts (dr_schedule R) mem)) = length mem"
    and "drop (unat (stop - start)) (fst (run_acts (dr_schedule R) mem)) = drop (unat (stop - start)) mem"
proof -
  let ?W = "unat (stop - start)" and ?sched = "dr_schedule R"
  note lay = request_windows(1,2) [OF assms(1), folded assms(3)]
  have in_W: "act_within ?W x \<and> j < length ws" if "(j, x) \<in> set ?sched" for j x
    using schedule_touches [OF assms(1-4) that] layout_end [OF lay(1), of j] touches_within lay(2) by auto
  have bounded: "act_within (length mem) x" if "(j, x) \<in> set ?sched" for j x
    using in_W [OF that] assms(5) by (cases x) auto
  show len: "length (fst (run_acts ?sched mem)) = length mem" by (rule length_run_acts) (use bounded in \<open>auto simp: list_all_iff\<close>)
  have none: "filter (\<lambda>y. fst y = length ws) ?sched = []" using in_W by (fastforce simp: filter_empty_conv)
  have "list_all (\<lambda>(i, x). act_within (length mem) x \<and> (i \<noteq> length ws \<longrightarrow> clear_of ?W (length mem) x)
      \<and> (i = length ws \<longrightarrow> (\<forall>pos n. x = ReadAt pos n \<longrightarrow> ?W \<le> pos \<and> pos + n \<le> length mem))) ?sched"
  proof (clarsimp simp: list_all_iff)
    fix i x assume ix: "(i, x) \<in> set ?sched"
    then have "clear_of ?W (length mem) x" using in_W [OF ix] by (cases x) auto
    then show "act_within (length mem) x \<and> (i \<noteq> length ws \<longrightarrow> clear_of ?W (length mem) x)
        \<and> (i = length ws \<longrightarrow> (\<forall>pos n. x = ReadAt pos n \<longrightarrow> ?W \<le> pos \<and> pos + n \<le> length mem))"
      using in_W [OF ix] bounded [OF ix] by auto
  qed
  from run_acts_part [OF this, of mem] have "agree ?W (length mem) (fst (run_acts ?sched mem)) mem" by (simp add: none agree_def)
  from agree_seg [OF this, of ?W "length mem"] show "drop ?W (fst (run_acts ?sched mem)) = drop ?W mem"
    using assms(5) len by (simp add: seg_def)
qed

section \<open>Opening and closing\<close>

lemma reserve_release: "reserve b q = (Inr p, q1) \<Longrightarrow> release_permit p q1 = q"
  by (auto simp: reserve_def release_permit_def Let_def checked_add_def split: if_splits option.splits)

lemma target_open_ok:
  assumes "target_open cfg segs mmaps spec q = (Inr t, q1)"
  shows "mt_len t = unat (ts_len spec) \<and> release_permit (mt_permit t) q1 = q"
proof -
  obtain end_pos where e: "window_end spec = Some end_pos" using assms by (cases "window_end spec") (auto simp: target_open_def)
  obtain p where p: "reserve (ts_len spec) q = (Inr p, q1)" and t: "mt_permit t = p" "mt_len t = unat (ts_len spec)"
    using assms e by (auto simp: target_open_def Let_def split: prod.splits sum.splits option.splits if_splits)
  show ?thesis using reserve_release [OF p] t by simp
qed

lemma open_client_memory_ok:
  assumes "open_client_memory efa cfg segs mmaps spec q = (Inr cm, q1)"
  shows "window_len cm = unat (ts_len spec)" "checksum_agrees cm (ts_checksum spec)" "close_client_memory cm q1 = q"
proof -
  have "window_len cm = unat (ts_len spec) \<and> checksum_agrees cm (ts_checksum spec) \<and> close_client_memory cm q1 = q"
  proof (cases "ts_memory spec")
    case (Shm name)
    then obtain t where t: "target_open cfg segs mmaps spec q = (Inr t, q1)" "cm = Mapped t"
      using assms by (auto simp: open_client_memory_def split: prod.splits sum.splits)
    then show ?thesis using target_open_ok [OF t(1)] by (simp add: window_len_def checksum_agrees_def close_client_memory_def)
  next
    case (Nic base rails)
    then show ?thesis using assms
      by (auto simp: open_client_memory_def token_window_new_def window_len_def checksum_agrees_def close_client_memory_def split: if_splits sum.splits option.splits)
  qed
  then show "window_len cm = unat (ts_len spec)" "checksum_agrees cm (ts_checksum spec)" "close_client_memory cm q1 = q" by simp_all
qed

lemma snd_deliver_into:
  "snd (deliver_into D R ctx cm spec header start stop ranged mem)
     = (if window_len cm < unat (stop - start) then mem else fst (run_acts (dr_schedule R) mem))"
  by (simp add: deliver_into_def Let_def case_prod_beta)

section \<open>Properties\<close>

text \<open>
  C5 (a delivery writes only the requested part of the client's window): let a client's memory be open and the windows' work stop anywhere, in any
  interleaving, with any peer, RDMA write or backend read failing or lying about its version, so long as a remote write stays inside the range it was offered. Then no byte of the client's
  window past the requested length changes, whatever the answer, and the reservation against the pinned-memory quota is given back
  when the copies already running have ended.
\<close>

theorem delivery_in_bounds:
  assumes "readable (fx_chunk ctx) obj start stop" "object_len header = of_nat (length obj)"
    and "target_parse raw = Inr spec" "open_client_memory efa cfg segs mmaps spec q = (Inr cm, q1)" "length mem = unat (ts_len spec)"
    and "run_partial D R ctx cm (ts_checksum spec) (chunk_windows (fx_chunk ctx) (object_len header) start stop)"
  shows "case deliver D R efa cfg segs mmaps ctx raw header start stop ranged mem q of (r, mem', q') \<Rightarrow>
    length mem' = length mem \<and> drop (unat (stop - start)) mem' = drop (unat (stop - start)) mem \<and> q' = q"
proof -
  note o = open_client_memory_ok [OF assms(4)]
  have d: "deliver D R efa cfg segs mmaps ctx raw header start stop ranged mem q
      = (let (r, mem) = deliver_into D R ctx cm spec header start stop ranged mem in (r, mem, q))"
    using assms(3,4) o(3) by (simp add: deliver_def)
  show ?thesis
  proof (cases "window_len cm < unat (stop - start)")
    case True
    then show ?thesis unfolding d using snd_deliver_into [of D R ctx cm spec header start stop ranged mem] by (simp add: case_prod_beta)
  next
    case False
    then have "unat (stop - start) \<le> length mem" using o(1) assms(5) by simp
    from run_keeps_rest [OF assms(1) assms(6) _ o(2) this] False show ?thesis
      unfolding d using snd_deliver_into [of D R ctx cm spec header start stop ranged mem] assms(2) by (simp add: case_prod_beta)
  qed
qed

lemma run_delivery_Some: "run_delivery rs = Inr (Some ds) \<Longrightarrow> rs = map (\<lambda>d. Inr (Some d)) ds"
proof (induction rs arbitrary: ds)
  case (Cons r rs)
  then show ?case by (cases r; cases "projr r") (auto split: sum.splits option.splits)
qed simp

text \<open>The windows a reported delivery lists, in the order they completed.\<close>

lemma landed_windows:
  assumes "run_delivery (map (\<lambda>j. map_sum id (map_option (\<lambda>d. (j, d))) (g j)) order) = Inr (Some landed)"
  obtains d where "landed = map (\<lambda>j. (j, d j)) order" "\<And>j. j \<in> set order \<Longrightarrow> g j = Inr (Some (d j))"
proof -
  define d where "d j = the (projr (g j))" for j
  have e: "map (\<lambda>j. map_sum id (map_option (\<lambda>d. (j, d))) (g j)) order = map (\<lambda>d. Inr (Some d)) landed" using run_delivery_Some [OF assms] .
  have g: "g j = Inr (Some (d j))" if j: "j \<in> set order" for j
  proof -
    have "map_sum id (map_option (\<lambda>d. (j, d))) (g j) \<in> set (map (\<lambda>d. Inr (Some d)) landed)" unfolding e [symmetric] using j by simp
    then show ?thesis by (cases "g j"; cases "projr (g j)") (auto simp: d_def)
  qed
  then have m: "map (\<lambda>j. map_sum id (map_option (\<lambda>d. (j, d))) (g j)) order = map (\<lambda>d. Inr (Some d)) (map (\<lambda>j. (j, d j)) order)" by simp
  have "landed = map (\<lambda>j. (j, d j)) order" by (rule map_injective [OF trans [OF e [symmetric] m]]) (simp add: inj_def)
  then show ?thesis using that g by blast
qed

text \<open>The offsets of the windows are in order, so sorting by them undoes the order of completion.\<close>

lemma sorted_by_offset:
  assumes "layout_ok ws" "\<forall>w \<in> set ws. 0 < wlen w" "distinct order" "set order = {..<length ws}" "\<And>j. j < length ws \<Longrightarrow> dw_dst_at (d j) = dst_at (ws ! j)"
  shows "sort_key (\<lambda>(j, d). dw_dst_at d) (map (\<lambda>j. (j, d j)) order) = map (\<lambda>j. (j, d j)) [0..<length ws]"
proof (rule sort_key_inj_key_eq)
  have lt: "dst_at (ws ! i) < dst_at (ws ! j)" if ij: "i < j" "j < length ws" for i j
  proof -
    have "0 < wlen (ws ! i)" using assms(2) ij by simp
    then show ?thesis using layout_apart [OF assms(1) ij] by simp
  qed
  have "set order = set [0..<length ws]" by (simp add: assms(4) atLeast0LessThan)
  then have "mset order = mset [0..<length ws]" by (rule iffD1 [OF set_eq_iff_mset_eq_distinct [OF assms(3) distinct_upt]])
  then show "mset (map (\<lambda>j. (j, d j)) order) = mset (map (\<lambda>j. (j, d j)) [0..<length ws])" by (simp only: mset_map)
  show "inj_on (\<lambda>(j, d). dw_dst_at d) (set (map (\<lambda>j. (j, d j)) order))"
  proof (rule inj_onI, clarsimp)
    fix i j assume "i \<in> set order" "j \<in> set order" "dw_dst_at (d i) = dw_dst_at (d j)"
    then have "i < length ws" "j < length ws" "dst_at (ws ! i) = dst_at (ws ! j)" using assms(4,5) by auto
    then have "i = j" using lt [of i j] lt [of j i] by (metis less_irrefl linorder_neqE_nat)
    then show "i = j \<and> d i = d j" by simp
  qed
  have "dw_dst_at (d i) \<le> dw_dst_at (d j)" if ij: "i < j" "j < length ws" for i j using lt [OF ij] assms(5) ij by simp
  then show "sorted (map (\<lambda>(j, d). dw_dst_at d) (map (\<lambda>j. (j, d j)) [0..<length ws]))" by (simp add: sorted_iff_nth_mono_less)
qed

lemma map_filter_all: "(\<And>x. x \<in> set xs \<Longrightarrow> f x = Some (h x)) \<Longrightarrow> List.map_filter f xs = map h xs"
  by (induction xs) (simp_all add: map_filter_simps)

lemma fold_digests:
  assumes "digests_ok D"
  shows "fold (\<lambda>h acc. dg_combine D acc h) (map (dg_of D) xs) (dg_of D a) = dg_of D (a @ concat xs)"
  using assms by (induction xs arbitrary: a) (simp_all add: digests_ok_def)

lemma future_reads:
  assumes "future_ok D cs w want acts d" "ReadAt pos n \<in> set acts"
  shows "pos = dst_at w \<and> n = wlen w"
proof -
  have "ReadAt pos n \<notin> set pre" if "list_all (in_window w) pre" for pre using that by (force simp: list_all_iff in_window_def)
  then show ?thesis using assms by (auto simp: future_ok_def)
qed

text \<open>What an answer that reports a delivery is made of.\<close>

lemma deliver_into_Some:
  assumes "deliver_into D R ctx cm spec header start stop ranged mem = (Inr (Some resp), mem')"
  defines "ws \<equiv> chunk_windows (fx_chunk ctx) (object_len header) start stop" and "res \<equiv> run_acts (dr_schedule R) mem"
  obtains landed where "\<not> window_len cm < unat (stop - start)" "mem' = fst res"
    "run_delivery (map (\<lambda>j. map_sum id (map_option (\<lambda>d. (j, d))) (fst (future_of D R ctx cm (ts_checksum spec) ws j))) (dr_order R)) = Inr (Some landed)"
    "rs_delivered resp = sum_list (map (\<lambda>(j, d). dw_bytes d) landed)"
    "rs_checksum resp = (if ts_checksum spec then Some (header_value D (fold (\<lambda>h acc. dg_combine D acc h)
       (List.map_filter (\<lambda>(j, d). digest_of_window D (snd res j) (dw_digest d)) (sort_key (\<lambda>(j, d). dw_dst_at d) landed)) (dg_empty D))) else None)"
proof -
  let ?run = "run_delivery (map (\<lambda>j. map_sum id (map_option (\<lambda>d. (j, d))) (fst (future_of D R ctx cm (ts_checksum spec) ws j))) (dr_order R))"
  have big: "\<not> window_len cm < unat (stop - start)" using assms(1) by (auto simp: deliver_into_def target_rejected_def is_degradable_def)
  obtain m l where r: "run_acts (dr_schedule R) mem = (m, l)" by fastforce
  note def = assms(1) [unfolded deliver_into_def Let_def r prod.case if_not_P [OF big], folded ws_def]
  obtain landed where run: "?run = Inr (Some landed)"
  proof (cases ?run)
    case (Inl e)
    then show ?thesis using def by simp
  next
    case (Inr x)
    then show ?thesis using def that by (cases x) (auto simp: target_rejected_def is_degradable_def)
  qed
  show ?thesis by (rule that [OF big _ run]) (use def r run in \<open>auto simp: res_def delivered_output_def\<close>)
qed

lemma own_tagged: "filter (\<lambda>y. fst y = j) sched = map (Pair j) (map snd (filter (\<lambda>y. fst y = j) sched))"
  by (induction sched) auto

lemma delivered_length:
  assumes "distinct order" "set order = {..<length ws}" "\<And>j. j < length ws \<Longrightarrow> dw_bytes (d j) = of_nat (wlen (ws ! j))"
  shows "sum_list (map (\<lambda>(j, d). dw_bytes d) (map (\<lambda>j. (j, d j)) order)) = of_nat (sum_list (map wlen ws))"
proof -
  have "sum_list (map (\<lambda>(j, d). dw_bytes d) (map (\<lambda>j. (j, d j)) order)) = (\<Sum>j < length ws. dw_bytes (d j))"
    using assms(1,2) by (simp add: comp_def sum_list_distinct_conv_sum_set)
  also have "\<dots> = of_nat (\<Sum>j < length ws. wlen (ws ! j))" using assms(3) by simp
  also have "(\<Sum>j < length ws. wlen (ws ! j)) = sum_list (map wlen ws)" by (simp add: sum_list_sum_nth atLeast0LessThan)
  finally show ?thesis .
qed

text \<open>What each window of a complete run left in memory and logged.\<close>

lemma window_left:
  assumes "readable (fx_chunk ctx) obj start stop" "fx_object_len ctx = of_nat (length obj)" "digests_ok D"
    and "run_complete D R ctx cm cs ws" "ws = chunk_windows (fx_chunk ctx) (of_nat (length obj)) start stop" "checksum_agrees cm cs"
    and "unat (stop - start) \<le> length mem" "j < length ws" "\<forall>k. honest_place D (dr_env R j k) ctx held (dr_nodes R j k) obj (ws ! j)"
    and "fst (future_of D R ctx cm cs ws j) = Inr (Some d)"
  defines "want \<equiv> window_slice (ws ! j) (chunk_bytes (fx_chunk ctx) obj (idx (ws ! j)))" and "res \<equiv> run_acts (dr_schedule R) mem"
  shows "seg (dst_at (ws ! j)) (dst_at (ws ! j) + wlen (ws ! j)) (fst res) = want"
    and "digest_of_window D (snd res j) (dw_digest d) = (if cs then Some (dg_of D want) else None)"
    and "dw_dst_at d = dst_at (ws ! j)" "dw_bytes d = of_nat (wlen (ws ! j))"
proof -
  let ?w = "ws ! j"
  let ?a = "dst_at ?w" and ?b = "dst_at ?w + wlen ?w" and ?own = "filter (\<lambda>y. fst y = j) (dr_schedule R)"
  note lay = request_windows [OF assms(1), folded assms(5)]
  have w: "?w \<in> set ws" "slice_fits ?w (chunk_bytes (fx_chunk ctx) obj (idx ?w))" using assms(8) lay(3) by simp_all
  have inm: "?b \<le> length mem" using layout_end [OF lay(1) assms(8)] lay(2) assms(7) by simp
  have part: "run_partial D R ctx cm cs ws" using assms(4) by (rule run_complete_partial)
  obtain ps' where f: "future_of D R ctx cm cs ws j = (Inr (Some d), ps')" using assms(10) by (metis prod.collapse)
  have ok: "future_ok D cs ?w want (ps_acts ps') d" unfolding want_def
    by (rule window_future_acts(2) [OF _ _ _ _ lay(5) [OF w(1)] assms(6) f [unfolded future_of_def], where h = True and held = held])
      (use assms(2,3,4,9) w in \<open>simp_all add: run_complete_def\<close>)
  have "own_acts R j = acts_of D R ctx cm cs ws j" using assms(4) by (simp only: run_complete_def)
  then have acts: "map snd ?own = ps_acts ps'" using assms(8) f by (simp add: acts_of_def own_acts_def)
  have own: "?own = map (Pair j) (ps_acts ps')" unfolding acts [symmetric] by (rule own_tagged)
  have reads: "?a \<le> pos \<and> pos + n \<le> ?b" if r: "ReadAt pos n \<in> set (ps_acts ps')" for pos n
    using future_reads [OF ok r] by simp
  have "list_all (\<lambda>(i, x). act_within (length mem) x \<and> (i \<noteq> j \<longrightarrow> clear_of ?a ?b x) \<and> (i = j \<longrightarrow> (\<forall>pos n. x = ReadAt pos n \<longrightarrow> ?a \<le> pos \<and> pos + n \<le> ?b))) (dr_schedule R)"
  proof (clarsimp simp only: list_all_iff)
    fix i x assume ix: "(i, x) \<in> set (dr_schedule R)"
    note t = schedule_touches [OF assms(1) part assms(5,6) ix]
    have "act_within (length mem) x" using t(2) layout_end [OF lay(1) t(1)] lay(2) assms(7) by (intro touches_within [of "ws ! i"]) simp_all
    moreover have "i \<noteq> j \<longrightarrow> clear_of ?a ?b x" using touches_clear [OF lay(1) t(1) assms(8) _ t(2)] by simp
    moreover have "i = j \<longrightarrow> x \<in> set (ps_acts ps')" using ix unfolding acts [symmetric] by force
    ultimately show "act_within (length mem) x \<and> (i \<noteq> j \<longrightarrow> clear_of ?a ?b x) \<and> (i = j \<longrightarrow> (\<forall>pos n. x = ReadAt pos n \<longrightarrow> ?a \<le> pos \<and> pos + n \<le> ?b))"
      using reads by blast
  qed
  from run_acts_part [OF this, of mem] have p: "agree ?a ?b (fst res) (fst (run_acts (map (Pair j) (ps_acts ps')) mem))"
      "snd res j = snd (run_acts (map (Pair j) (ps_acts ps')) mem) j"
    by (simp_all add: own agree_def res_def)
  note o = own_result [OF ok _ inm, of j]
  have len: "length want = wlen ?w" unfolding want_def using w(2) by (rule slice_length)
  show "seg ?a ?b (fst res) = want" using agree_seg [OF p(1), of ?a ?b] o(1) [OF len] by simp
  show "digest_of_window D (snd res j) (dw_digest d) = (if cs then Some (dg_of D want) else None)" using o(2) [OF len] p(2) by simp
  show "dw_dst_at d = dst_at ?w" "dw_bytes d = of_nat (wlen ?w)" using ok by (simp_all add: future_ok_def)
qed

text \<open>
  C2 (a reported delivery is exact): let a client's memory be open, every copy that carries the read's version hold that version's bytes (in the tier, at a peer, in a fill
  in flight, or written by a holder), the backend serve that version, and a write reported done have landed. If the request is answered with a delivery, then in every
  interleaving of the windows' work and every order of completion the client's window holds exactly the requested range and is unchanged past it, the
  length reported is that of the range, and the checksum header is that of the range's bytes, so that the client's own check passes.
\<close>

theorem delivery_exact:
  assumes "readable (fx_chunk ctx) obj start stop" "object_len header = of_nat (length obj)" "fx_object_len ctx = of_nat (length obj)" "digests_ok D"
    and "target_parse raw = Inr spec" "open_client_memory efa cfg segs mmaps spec q = (Inr cm, q1)" "length mem = unat (ts_len spec)"
    and "ws = chunk_windows (fx_chunk ctx) (object_len header) start stop" "run_complete D R ctx cm (ts_checksum spec) ws"
    and "\<forall>j < length ws. \<forall>k. honest_place D (dr_env R j k) ctx held (dr_nodes R j k) obj (ws ! j)"
    and "deliver D R efa cfg segs mmaps ctx raw header start stop ranged mem q = (Inr (Some resp), mem', q')"
  shows "mem' = seg (unat start) (unat stop) obj @ drop (unat (stop - start)) mem \<and> rs_delivered resp = stop - start
    \<and> rs_checksum resp = (if ts_checksum spec then Some (header_value D (dg_of D (seg (unat start) (unat stop) obj))) else None)"
proof -
  note o = open_client_memory_ok [OF assms(6)]
  let ?cs = "ts_checksum spec" and ?g = "\<lambda>j. fst (future_of D R ctx cm (ts_checksum spec) ws j)" and ?res = "run_acts (dr_schedule R) mem"
  let ?want = "\<lambda>w. window_slice w (chunk_bytes (fx_chunk ctx) obj (idx w))"
  have ws: "ws = chunk_windows (fx_chunk ctx) (of_nat (length obj)) start stop" by (simp add: assms(2,8))
  note lay = request_windows [OF assms(1), folded ws]
  have into: "deliver_into D R ctx cm spec header start stop ranged mem = (Inr (Some resp), mem')"
    using assms(5,6,11) by (simp add: deliver_def Let_def split: prod.splits)
  obtain landed where big: "\<not> window_len cm < unat (stop - start)" and mem': "mem' = fst ?res"
    and run: "run_delivery (map (\<lambda>j. map_sum id (map_option (\<lambda>d. (j, d))) (?g j)) (dr_order R)) = Inr (Some landed)"
    and del: "rs_delivered resp = sum_list (map (\<lambda>(j, d). dw_bytes d) landed)"
    and sum: "rs_checksum resp = (if ?cs then Some (header_value D (fold (\<lambda>h acc. dg_combine D acc h)
       (List.map_filter (\<lambda>(j, d). digest_of_window D (snd ?res j) (dw_digest d)) (sort_key (\<lambda>(j, d). dw_dst_at d) landed)) (dg_empty D))) else None)"
    using deliver_into_Some [OF into, folded assms(8)] by blast
  then have fit: "unat (stop - start) \<le> length mem" using o(1) assms(7) by simp
  obtain d where d: "landed = map (\<lambda>j. (j, d j)) (dr_order R)" "\<And>j. j \<in> set (dr_order R) \<Longrightarrow> ?g j = Inr (Some (d j))"
    using landed_windows [OF run] by blast
  have order: "distinct (dr_order R)" "set (dr_order R) = {..<length ws}" using assms(9) by (simp_all add: run_complete_def)
  have left: "seg (dst_at (ws ! j)) (dst_at (ws ! j) + wlen (ws ! j)) (fst ?res) = ?want (ws ! j)"
      "digest_of_window D (snd ?res j) (dw_digest (d j)) = (if ?cs then Some (dg_of D (?want (ws ! j))) else None)"
      "dw_dst_at (d j) = dst_at (ws ! j)" "dw_bytes (d j) = of_nat (wlen (ws ! j))" if j: "j < length ws" for j
    using window_left [OF assms(1,3,4,9) ws o(2) fit j, where held = held and d = "d j"] assms(10) j d(2) order(2) by auto
  have "seg 0 (sum_list (map wlen ws)) (fst ?res) = seg (unat start) (unat stop) obj"
    using layout_concat [OF lay(1), of "fst ?res" ?want "length ws"] left(1) lay(4) by simp
  then have "take (unat (stop - start)) mem' = seg (unat start) (unat stop) obj" by (simp add: lay(2) mem' seg_def)
  moreover have "drop (unat (stop - start)) mem' = drop (unat (stop - start)) mem"
    unfolding mem' by (rule run_keeps_rest(2) [OF assms(1) run_complete_partial [OF assms(9)] ws o(2) fit])
  moreover have "rs_delivered resp = stop - start" using delivered_length [OF order left(4)] del d(1) lay(2) by simp
  moreover have sorted: "sort_key (\<lambda>(j, d). dw_dst_at d) landed = map (\<lambda>j. (j, d j)) [0..<length ws]"
    unfolding d(1) by (rule sorted_by_offset [OF lay(1,6) order]) (rule left(3))
  have "List.map_filter (\<lambda>(j, d). digest_of_window D (snd ?res j) (dw_digest d)) (map (\<lambda>j. (j, d j)) [0..<length ws]) = map (dg_of D) (map ?want ws)" if ?cs
    using left(2) that by (subst map_filter_all [where h = "\<lambda>(j, _). dg_of D (?want (ws ! j))"]) (auto intro: nth_equalityI)
  then have "rs_checksum resp = (if ?cs then Some (header_value D (dg_of D (seg (unat start) (unat stop) obj))) else None)"
    using sum sorted fold_digests [OF assms(4), of "map ?want ws" "[]"] lay(4) assms(4) by (simp add: digests_ok_def)
  ultimately show ?thesis by (metis append_take_drop_id)
qed

section \<open>A delivery run\<close>

text \<open>The node of the sample GET delivers the same range into a segment of ten bytes; the windows complete out of order and their work interleaves.\<close>

lemma sole_window:
  assumes "cm = Mapped t" "owns_chunk (pe_around E) ctx key" "key = chunk_key (fx_chunk ctx) (fx_object_key ctx) (idx w)"
    and "fst (cached_current (pe_around E) ctx key (ps_node ps)) = Some c \<and> b = body c
      \<or> fst (cached_current (pe_around E) ctx key (ps_node ps)) = None \<and> fst (fetch_owned (pe_around E) ctx (idx w) key (snd (cached_current (pe_around E) ctx key (ps_node ps)))) = Inr b"
    and "dst_at w + length (window_slice w b) \<le> mt_len t"
  shows "\<exists>source ps'. deliver_window D E ctx w cm ps = (Inr (Placed \<lparr>pl_bytes = len64 (window_slice w b), pl_digest = None, pl_source = source\<rparr>), ps')
    \<and> ps_acts ps' = ps_acts ps @ [WriteAt (dst_at w) (window_slice w b)]"
proof -
  obtain e nd1 where c: "cached_current (pe_around E) ctx key (ps_node ps) = (e, nd1)" by fastforce
  obtain r nd2 where f: "fetch_owned (pe_around E) ctx (idx w) key nd1 = (r, nd2)" by fastforce
  show ?thesis using assms(4)
  proof (elim disjE)
    assume "fst (cached_current (pe_around E) ctx key (ps_node ps)) = Some c \<and> b = body c"
    then show ?thesis using assms(1,3,5) c by (simp add: deliver_window_def at_node_def Let_def place_window_def copy_window_def)
  next
    assume "fst (cached_current (pe_around E) ctx key (ps_node ps)) = None
      \<and> fst (fetch_owned (pe_around E) ctx (idx w) key (snd (cached_current (pe_around E) ctx key (ps_node ps)))) = Inr b"
    then show ?thesis using assms(1,2,3,5) c f by (simp add: deliver_window_def at_node_def Let_def place_window_def copy_window_def)
  qed
qed

definition sum_digests :: "(u32 \<times> u64) digests" where
  "sum_digests = \<lparr>dg_empty = (0, 0), dg_of = \<lambda>b. (sum_list (map of_char b), len64 b), dg_combine = \<lambda>(s, n) (s', n'). (s + s', n + n'),
     dg_reported = Pair, dg_value = fst\<rparr>"

definition sample_env :: "(string \<Rightarrow> cache_value option, unit) place_env" where
  "sample_env = \<lparr>pe_around = sample_surroundings, pe_efa = False, pe_registers = False, pe_remote_write = False,
     pe_write_token = \<lambda>_ _ src. (Inr Wrote, src), pe_fetch_into = \<lambda>_ _ _ _ _. (Inl NotCached, []), pe_fetch_into_token = \<lambda>_ _ _ _ _ _ _. (Inl NotCached, [])\<rparr>"

definition sample_start :: "(string \<Rightarrow> cache_value option) place_state" where
  "sample_start = \<lparr>ps_node = sample_node, ps_registration = None,
     ps_metrics = \<lparr>dm_chunks = \<lambda>_. 0, dm_chunk_bytes = \<lambda>_. 0, dm_declines = \<lambda>_. 0, dm_write_failures = \<lambda>_. 0, dm_registrations = 0\<rparr>, ps_acts = []\<rparr>"

definition sample_run :: "(string \<Rightarrow> cache_value option, unit) delivery_run" where
  "sample_run = \<lparr>dr_env = \<lambda>_ _. sample_env, dr_nodes = \<lambda>_ _. sample_node, dr_start = \<lambda>_. sample_start, dr_order = [2, 0, 1],
     dr_schedule = [(1, WriteAt 1 ''4567''), (2, WriteAt 5 ''8''), (0, WriteAt 0 ''3''), (2, ReadAt 5 1), (0, ReadAt 0 1), (1, ReadAt 1 4)]\<rparr>"

definition sample_target :: mapped_target where
  "sample_target = \<lparr>mt_path = ''/dev/shm/seg'', mt_offset = 0, mt_len = 8, mt_permit = 8\<rparr>"

lemma sum_digests_ok: "digests_ok sum_digests"
  by (simp add: digests_ok_def sum_digests_def)

lemma sample_windows: "chunk_windows \<lparr>chunk_size = 4\<rparr> 10 3 9 = [\<lparr>idx = 0, dst_at = 0, src_at = 3, wlen = 1, whole = False\<rparr>,
    \<lparr>idx = 1, dst_at = 1, src_at = 0, wlen = 4, whole = True\<rparr>, \<lparr>idx = 2, dst_at = 5, src_at = 0, wlen = 1, whole = False\<rparr>]"
  by (simp add: chunk_windows_def sample_cover sample_bounds)

lemma sample_same: "same_version (Some ''v1'') (Some ''v1'')"
  by code_simp

lemma sample_cached:
  "fst (cached_current sample_surroundings sample_ctx ''b/k#4:0'' sample_node) = Some \<lparr>body = ''0123'', e_tag = Some ''v1''\<rparr>"
  "fst (cached_current sample_surroundings sample_ctx ''b/k#4:1'' sample_node) = None"
  "fst (cached_current sample_surroundings sample_ctx ''b/k#4:2'' sample_node) = None"
  by (simp_all add: cached_current_def get_chunk_def sample_eval foyer_def map_foyer_def read_chunk_entry_def witness_matches_def sample_versions sample_same Let_def)

lemma sample_found:
  assumes "i \<in> {0, 1, 2}"
  defines "key \<equiv> chunk_key (fx_chunk sample_ctx) (fx_object_key sample_ctx) i" and "cb \<equiv> chunk_bytes \<lparr>chunk_size = 4\<rparr> ''0123456789'' i"
  shows "fst (cached_current sample_surroundings sample_ctx key sample_node) = Some \<lparr>body = ''0123'', e_tag = Some ''v1''\<rparr> \<and> cb = ''0123''
    \<or> fst (cached_current sample_surroundings sample_ctx key sample_node) = None
      \<and> fst (fetch_owned sample_surroundings sample_ctx i key (snd (cached_current sample_surroundings sample_ctx key sample_node))) = Inr cb"
proof (cases "i = 0")
  case True
  then show ?thesis using sample_cached(1) by (simp add: key_def cb_def sample_bytes sample_ctx_def sample_key)
next
  case False
  have "honest_backend sample_surroundings sample_ctx ''0123456789'' i" using sample_serves [OF assms(1)] by (simp add: serves_version_def)
  then have "backend_result sample_surroundings sample_ctx i = Inr cb"
    using sample_backend_result [OF assms(1)] backend_result_exact [of sample_surroundings sample_ctx "''0123456789''" i] by (auto simp: cb_def sample_ctx_def)
  moreover have "fst (cached_current sample_surroundings sample_ctx key sample_node) = None"
    using sample_cached(2,3) assms(1) False by (auto simp: key_def sample_ctx_def sample_key)
  moreover have "claims (nd_fills (snd (cached_current sample_surroundings sample_ctx key sample_node))) = []" "received sample_surroundings = None"
    by (simp_all add: sample_node_def registry_new_def sample_surroundings_def)
  ultimately show ?thesis using fst_fetch_owned [of sample_surroundings sample_ctx i key "snd (cached_current sample_surroundings sample_ctx key sample_node)"] by auto
qed

lemma sample_future:
  assumes "w \<in> set (chunk_windows \<lparr>chunk_size = 4\<rparr> 10 3 9)"
  shows "\<exists>ps'. window_future sum_digests (\<lambda>_. sample_env) (\<lambda>_. sample_node) sample_ctx (Mapped sample_target) True w sample_start
      = (Inr (Some \<lparr>dw_dst_at = dst_at w, dw_bytes = of_nat (wlen w), dw_digest = ReadBack\<rparr>), ps')
    \<and> ps_acts ps' = [WriteAt (dst_at w) (window_slice w (chunk_bytes \<lparr>chunk_size = 4\<rparr> ''0123456789'' (idx w))), ReadAt (dst_at w) (wlen w)]"
proof -
  let ?b = "chunk_bytes \<lparr>chunk_size = 4\<rparr> ''0123456789'' (idx w)"
  have w: "idx w \<in> {0, 1, 2}" "length (window_slice w ?b) = wlen w" "dst_at w + wlen w \<le> 8" "unat (of_nat (wlen w) :: u64) = wlen w"
    using assms by (auto simp: sample_windows window_slice_def sample_bytes)
  have ps: "sample_start\<lparr>ps_node := sample_node\<rparr> = sample_start" by (simp add: sample_start_def)
  obtain source ps' where d: "deliver_window sum_digests sample_env sample_ctx w (Mapped sample_target) sample_start
        = (Inr (Placed \<lparr>pl_bytes = len64 (window_slice w ?b), pl_digest = None, pl_source = source\<rparr>), ps')"
      "ps_acts ps' = ps_acts sample_start @ [WriteAt (dst_at w) (window_slice w ?b)]"
    using sole_window [OF refl _ refl, of sample_env sample_ctx w sample_start "\<lparr>body = ''0123'', e_tag = Some ''v1''\<rparr>" ?b sample_target sum_digests] sample_found [OF w(1)] w(2,3)
    by (auto simp: sample_env_def sample_start_def sample_target_def owns_chunk_def sample_ctx_def)
  then show ?thesis using w ps
    by (simp add: window_future_def place_with_retry_def place_attempts.simps DELIVERY_DECLINE_ATTEMPTS_def sample_target_def sample_start_def)
qed

definition sample_spec :: target_spec where
  "sample_spec = \<lparr>ts_memory = Shm ''seg'', ts_offset = 0, ts_len = 8, ts_checksum = True\<rparr>"

definition sample_header :: object_header where
  "sample_header = object_header_new 10 (Some ''v1'') None None
     \<lparr>metadata = [], content_encoding = None, content_disposition = None, content_language = None, cache_control = None, expires_epoch_secs = None\<rparr>"

definition sample_segments :: segments where
  "sample_segments = [''/dev/shm/seg'' \<mapsto> ''..........'']"

lemma sample_parse: "target_parse ''shm:/seg;len=8'' = Inr sample_spec"
proof -
  have t: "trim ''shm:/seg;len=8'' = ''shm:/seg;len=8''" "trim ''/seg'' = ''/seg''" "trim ''8'' = ''8''"
    by (rule trim_graphic_string; auto simp: graphic_def)+
  show ?thesis
    by (simp add: target_parse_def parse_scheme_def target_consts t parse_param_def trim_keys target_parse_u64_def from_str_radix_def
        to_digit_def parse_memory_def validate_segment_name_def Let_def char_of_def sample_spec_def)
qed

lemma sample_open:
  "open_client_memory False delivery_config_default sample_segments (\<lambda>_. True) sample_spec (quota_new 100 50)
     = (Inr (Mapped sample_target), \<lparr>q_in_use = 8, q_max = 100, q_max_per_target = 50\<rparr>)"
  by (simp add: open_client_memory_def target_open_def sample_spec_def window_end_def checked_add_def reserve_def quota_new_def shm_name_def path_join_def
      delivery_config_default_def DEFAULT_SHM_DIR_def map_shared_def sample_segments_def sample_target_def)

lemma sample_complete:
  "run_complete sum_digests sample_run sample_ctx (Mapped sample_target) True (chunk_windows \<lparr>chunk_size = 4\<rparr> 10 3 9)"
proof -
  let ?ws = "chunk_windows \<lparr>chunk_size = 4\<rparr> 10 3 9"
  have env: "transport_bounded sample_env" by (simp add: transport_bounded_def sample_env_def)
  have "acts_of sum_digests sample_run sample_ctx (Mapped sample_target) True ?ws j = own_acts sample_run j" for j
  proof (cases "j < 3")
    case True
    then have "j < length ?ws" by (simp add: sample_windows)
    then have m: "?ws ! j \<in> set ?ws" "j < length ?ws" by (simp_all only: nth_mem)
    obtain ps' where f: "future_of sum_digests sample_run sample_ctx (Mapped sample_target) True ?ws j
          = (Inr (Some \<lparr>dw_dst_at = dst_at (?ws ! j), dw_bytes = of_nat (wlen (?ws ! j)), dw_digest = ReadBack\<rparr>), ps')"
        "ps_acts ps' = [WriteAt (dst_at (?ws ! j)) (window_slice (?ws ! j) (chunk_bytes \<lparr>chunk_size = 4\<rparr> ''0123456789'' (idx (?ws ! j)))), ReadAt (dst_at (?ws ! j)) (wlen (?ws ! j))]"
      using sample_future [OF m(1)] by (auto simp: future_of_def sample_run_def)
    have "j = 0 \<or> j = 1 \<or> j = 2" using True by auto
    then show ?thesis using f m(2)
      by (elim disjE) (simp_all add: acts_of_def own_acts_def sample_run_def sample_windows window_slice_def sample_bytes seg_def)
  next
    case False
    then show ?thesis by (simp add: acts_of_def own_acts_def sample_run_def sample_windows)
  qed
  then show ?thesis using env by (auto simp: run_complete_def sample_run_def sample_start_def sample_windows)
qed

lemma sample_request:
  "readable (fx_chunk sample_ctx) ''0123456789'' 3 9" "object_len sample_header = of_nat (length ''0123456789'')"
  "fx_object_len sample_ctx = of_nat (length ''0123456789'')" "length ''........'' = unat (ts_len sample_spec)"
  "run_complete sum_digests sample_run sample_ctx (Mapped sample_target) (ts_checksum sample_spec) (chunk_windows (fx_chunk sample_ctx) (object_len sample_header) 3 9)"
  using sample_complete
  by (simp_all add: readable_def addressable_def chunk_config_ok_def sample_ctx_def sample_spec_def sample_header_def object_header_new_def)

theorem delivery_in_bounds_witness:
  "case deliver sum_digests sample_run False delivery_config_default sample_segments (\<lambda>_. True) sample_ctx ''shm:/seg;len=8'' sample_header 3 9 True ''........'' (quota_new 100 50)
     of (r, mem', q') \<Rightarrow> length mem' = 8 \<and> drop 6 mem' = ''..'' \<and> q' = quota_new 100 50"
  using delivery_in_bounds [OF sample_request(1,2) sample_parse sample_open sample_request(4) run_complete_partial [OF sample_request(5)], of True] by (auto simp: case_prod_beta)

lemma sample_future_of:
  assumes "j < 3"
  shows "fst (future_of sum_digests sample_run sample_ctx (Mapped sample_target) True (chunk_windows \<lparr>chunk_size = 4\<rparr> 10 3 9) j)
    = Inr (Some \<lparr>dw_dst_at = dst_at (chunk_windows \<lparr>chunk_size = 4\<rparr> 10 3 9 ! j), dw_bytes = of_nat (wlen (chunk_windows \<lparr>chunk_size = 4\<rparr> 10 3 9 ! j)), dw_digest = ReadBack\<rparr>)"
proof -
  have "j < length (chunk_windows \<lparr>chunk_size = 4\<rparr> 10 3 9)" using assms by (simp add: sample_windows)
  from sample_future [OF nth_mem [OF this]] show ?thesis by (auto simp: future_of_def sample_run_def)
qed

lemma sample_delivered:
  "\<exists>resp mem' q'. deliver sum_digests sample_run False delivery_config_default sample_segments (\<lambda>_. True) sample_ctx ''shm:/seg;len=8'' sample_header 3 9 True ''........'' (quota_new 100 50)
     = (Inr (Some resp), mem', q')"
proof -
  have "window_len (Mapped sample_target) = 8" "chunk_windows (fx_chunk sample_ctx) (object_len sample_header) 3 9 = chunk_windows \<lparr>chunk_size = 4\<rparr> 10 3 9" "dr_order sample_run = [2, 0, 1]" "ts_checksum sample_spec"
    by (simp_all add: window_len_def sample_target_def sample_ctx_def sample_header_def object_header_new_def sample_run_def sample_spec_def)
  then have "\<exists>resp mem'. deliver_into sum_digests sample_run sample_ctx (Mapped sample_target) sample_spec sample_header 3 9 True ''........'' = (Inr (Some resp), mem')"
    by (simp add: deliver_into_def sample_future_of Let_def case_prod_beta)
  then show ?thesis by (auto simp: deliver_def sample_parse sample_open)
qed

lemma sample_honest:
  assumes "j < length (chunk_windows (fx_chunk sample_ctx) (object_len sample_header) 3 9)"
  shows "honest_place sum_digests (dr_env sample_run j k) sample_ctx id (dr_nodes sample_run j k) ''0123456789'' (chunk_windows (fx_chunk sample_ctx) (object_len sample_header) 3 9 ! j)"
proof -
  have ws: "chunk_windows (fx_chunk sample_ctx) (object_len sample_header) 3 9 = chunk_windows \<lparr>chunk_size = 4\<rparr> 10 3 9"
    by (simp add: sample_ctx_def sample_header_def object_header_new_def)
  have "idx (chunk_windows \<lparr>chunk_size = 4\<rparr> 10 3 9 ! j) \<in> {0, 1, 2}"
    using nth_mem [OF assms] unfolding ws by (auto simp: sample_windows)
  from sample_serves [OF this] show ?thesis
    by (simp add: ws honest_place_def honest_rdma_def wrote_lands_def honest_remote_def sample_run_def sample_env_def Let_def)
qed

theorem delivery_exact_witness:
  "\<exists>resp mem' q'. deliver sum_digests sample_run False delivery_config_default sample_segments (\<lambda>_. True) sample_ctx ''shm:/seg;len=8'' sample_header 3 9 True ''........'' (quota_new 100 50)
     = (Inr (Some resp), mem', q') \<and> mem' = ''345678..'' \<and> rs_delivered resp = 6"
proof -
  obtain resp mem' q' where d: "deliver sum_digests sample_run False delivery_config_default sample_segments (\<lambda>_. True) sample_ctx ''shm:/seg;len=8'' sample_header 3 9 True ''........''
      (quota_new 100 50) = (Inr (Some resp), mem', q')"
    using sample_delivered by blast
  have "\<forall>j < length (chunk_windows (fx_chunk sample_ctx) (object_len sample_header) 3 9). \<forall>k. honest_place sum_digests (dr_env sample_run j k) sample_ctx id (dr_nodes sample_run j k)
      ''0123456789'' (chunk_windows (fx_chunk sample_ctx) (object_len sample_header) 3 9 ! j)"
    using sample_honest by simp
  from delivery_exact [OF sample_request(1-3) sum_digests_ok sample_parse sample_open sample_request(4) refl sample_request(5) this d] d
  show ?thesis by (simp add: seg_def)
qed

end
