(* ===== verification/Spec2Isabelle.thy ===== *)
theory Spec2Isabelle
  imports Chunk Cache_Policy Read_Path Ring Membership Directory Slot Index Store_Restart Store_Race Store_Slots Codec Tier Admission Backend Staging Token Target Fill_Fence Sources Resolve_Correct
    Delivery_Correct
begin

text \<open>
  A verification library for Pacer, a peer-to-peer read cache for S3 that runs as one daemon per node. The crates are under
  \<^verbatim>\<open>src/crates/\<close>; paths below are relative to it.

  \<^bold>\<open>The program.\<close> An object is cut into chunks of a fixed size. A GET covers its byte range with chunks, finds each one in the node's own tier
  (the hybrid cache of the foyer crate, or a chunk store on local disks), at a peer that homes or holds it (rendezvous hashing over the members, with a
  directory of extra holders at each home), or at the S3 backend, and relays them in order. It may instead have them put into memory the
  client named, by copies or by RDMA writes. Fills are shared between requests and fenced against invalidations by writes.

  \<^bold>\<open>Theories and sources.\<close>
  \<^item> \<open>Prelude\<close>, \<open>Numbers\<close>: machine integers, bytes, strings, the parts of the Rust standard library the crates use; the locale
    \<open>invariant_system\<close> of a state with an initial condition, a step and an invariant. Every component whose operations
    arrive in any order interprets it on its own definitions (\<open>idx\<close>, \<open>dir\<close>, \<open>watch\<close>, \<open>gate_runs\<close>, \<open>stage_runs\<close>,
    \<open>fill_runs\<close>, \<open>quota_runs\<close>, \<open>slot_runs\<close>).
  \<^item> \<open>Chunk\<close> (\<^verbatim>\<open>pacer-cache/src/chunk.rs\<close>), \<open>Cache_Policy\<close> (\<^verbatim>\<open>pacer-cache/src/lib.rs\<close>): chunk keys, covering chunks, what is
    admitted and from where a GET is served, HTTP ranges.
  \<^item> \<open>Slot\<close> (\<^verbatim>\<open>slot.rs\<close>), \<open>Index\<close>, \<open>Store\<close>, \<open>Store_Correct\<close>, \<open>Store_Restart\<close>, \<open>Store_Race\<close>, \<open>Store_Slots\<close> (\<^verbatim>\<open>store.rs\<close>): the chunk store, from the bytes of a
    slot header over the intrusive LRU list to reads and writes with failing system calls, the start-up scan, calls cut into steps that interleave,
    and the ceiling on reads in flight.
  \<^item> \<open>Codec\<close> (\<^verbatim>\<open>codec.rs\<close>, \<^verbatim>\<open>frames.rs\<close>): the disk format of the hybrid cache. \<open>Admission\<close> (\<^verbatim>\<open>admission.rs\<close>): the requester-local gate.
  \<^item> \<open>Chunk_Backend\<close>, \<open>Tier\<close> (\<^verbatim>\<open>tier.rs\<close>): the locale \<open>chunk_backend\<close> is what a holder of chunks promises; the store
    (\<open>store_backend\<close>) and the tier over either backend (\<open>tier_backend\<close>) interpret it.
  \<^item> \<open>Ring\<close>, \<open>Membership\<close>, \<open>Directory\<close> (\<^verbatim>\<open>pacer-ring/src\<close>), \<open>Sources\<close> (\<^verbatim>\<open>pacer-daemon/src/proxy/cluster.rs\<close>, the invalidation
    targets of \<^verbatim>\<open>proxy/write.rs\<close>): who homes a chunk, who holds it, whom a read asks and a write tells.
  \<^item> \<open>Backend\<close> (\<^verbatim>\<open>pacer-backend/src\<close>): ranged reads with retries. \<open>Staging\<close> (\<^verbatim>\<open>pacer-daemon/src/staging.rs\<close>): parts of an upload not yet visible.
  \<^item> \<open>Fill\<close>, \<open>Fill_Claims\<close>, \<open>Fill_Fence\<close> (\<^verbatim>\<open>proxy/fill.rs\<close>, the registry): claims, shared reads and the fence, as tasks whose lock
    sections and awaits interleave. The fence is proved in the locale \<open>fenced_backend\<close>, which extends \<open>chunk_backend\<close>, and holds for the tier
    by the interpretation \<open>tier_fence\<close>.
  \<^item> \<open>Resolve\<close>, \<open>Resolve_Correct\<close> (\<^verbatim>\<open>proxy/fill.rs\<close>, \<open>FillCtx\<close>; \<^verbatim>\<open>cachefill.rs\<close>), \<open>Read_Path\<close> (\<^verbatim>\<open>proxy/read.rs\<close>, \<^verbatim>\<open>delivery.rs\<close>): how a chunk is found and
    what that leaves behind, and how chunks become a body or windows.
  \<^item> \<open>Token\<close>, \<open>Target\<close> (\<^verbatim>\<open>pacer-transport/src/token.rs\<close>, \<^verbatim>\<open>announce.rs\<close>, \<^verbatim>\<open>pacer-client/src/token.rs\<close>, \<^verbatim>\<open>pacer-daemon/src/delivery.rs\<close>): naming memory.
  \<^item> \<open>Quota\<close>, \<open>Delivery\<close>, \<open>Place\<close>, \<open>Delivery_Correct\<close> (\<^verbatim>\<open>delivery.rs\<close>, \<^verbatim>\<open>proxy/target.rs\<close>, \<^verbatim>\<open>proxy/place.rs\<close>, \<^verbatim>\<open>proxy/deliver.rs\<close>): the account of pinned
    memory as interleaved compare-and-swap loops, opening a window, placing each part of it, and the fan-out over all of them.

  \<^bold>\<open>What is shown.\<close>
  \<^item> End to end: a GET's body is exactly the requested range of the version it serves, or a prefix of it and the backend's own error; a delivery
    that is reported has put exactly that range in the client's memory, whatever the interleaving of its windows, with the checksum of its bytes; and no delivery,
    reported or not, touches a byte past the range or keeps its reservation.
  \<^item> Safety of each layer: what the store and the tier may answer over any history with failures and restarts; that the fence keeps stale bytes out of
    the tier; that no request leaks a claim, a ticket, a read permit or a reservation; that a truncated backend body is never served; that generations grow over restarts.
  \<^item> Refinements: the intrusive list to an LRU list, the store to a map, staging to a map with a budget, a restart to the identity.
  \<^item> Round trips (slot headers, the codec, targets), bounds (slot offsets, admitted bytes, retries, token windows, pinned memory), termination of the retry loop, and that calls
    waiting for the store's read permits never block each other for good.
  \<^item> Behaviours that contradict the comments, each with a concrete run: a slot refilled during a read, a torn write, an invalidation undone by a restart
    or by a change of backend, an insert cancelled between its checks, a shared fill of another version, a phantom holder, an owner that is not first among members with equal scores.

  \<^bold>\<open>Conventions.\<close> State is a record passed explicitly; a failing system call, a clock, a peer's answer or the outcome of an RDMA write is an argument of the
  operation that meets it. Concurrency is a list of events, each one lock section, system call, atomic access or await, and the theorems quantify over all lists. Code outside the
  sources is a parameter: foyer (\<open>foyer_ok\<close>), bincode, crc32fast (\<open>digests_ok\<close> where digests are combined), xxh3, the standard library's keyed hasher, the AWS SDK, the
  Kubernetes client, tokio's semaphore and channels, the RDMA plane (\<open>transport_bounded\<close>, \<open>honest_rdma\<close>). Each hypothesis on one has a witness in which it holds.
  Counters of work are kept where a component's own state holds them; log lines, timers and gauges of time are left out.

  \<^bold>\<open>Bounds and fuel.\<close> Loops are structural recursions, or \<open>function\<close> with a measure. The walk along the intrusive list has one unit of fuel
  per slot: \<open>index_ok\<close> makes the list a chain of distinct slots, so it is enough. The retry loop recurses on the attempts left, a window's placement on the three attempts
  \<open>DELIVERY_DECLINE_ATTEMPTS\<close> allows. The fence numbers reads with \<open>u64\<close> epochs and its theorem is about runs of at most \<open>2 ^ 64\<close> events.

  \<^bold>\<open>Not modelled.\<close>
  \<^item> The HTTP handlers around the read path (\<^verbatim>\<open>proxy/mod.rs\<close>, the GET and HEAD handlers of \<^verbatim>\<open>proxy/read.rs\<close>, \<^verbatim>\<open>proxy/write.rs\<close>, \<^verbatim>\<open>proxy/revalidate.rs\<close>, \<^verbatim>\<open>proxy/warm.rs\<close>) and the upload
    paths (\<^verbatim>\<open>scatter.rs\<close>, \<^verbatim>\<open>populate.rs\<close>, \<^verbatim>\<open>requester_write.rs\<close>): mostly translations between the types of the s3s and AWS SDK crates, whose behaviour
    would have to be assumed field by field.
  \<^item> RPC and transport (\<^verbatim>\<open>peer.rs\<close>, \<^verbatim>\<open>coordinate.rs\<close>, \<^verbatim>\<open>grpc.rs\<close>, \<^verbatim>\<open>efa/\<close>): tonic services and calls of libibverbs on registered memory. Their outcomes are
    parameters, functions of the call: what a call changes at a peer is not tracked. A peer's RDMA write that still lands after its call has returned is outside the model.
  \<^item> In the fence: inserts of a staged upload, of a peer's read-through and of a requester-local admission. In the interleaved store: the \<^verbatim>\<open>Overlap\<close> shape of a read and failing
    system calls, which the sequential store has.
  \<^item> The operator, the flags, the metrics registry, readers of \<^verbatim>\<open>/proc\<close> and cgroup files, foreign-function and CUDA bindings, binaries: configuration and I/O.
  \<^item> \<^verbatim>\<open>pacer-proto\<close> is generated by the build. The manifest lists every part with its reason.
\<close>

end
